(* ===== verification/CPrelude.thy ===== *)
theory CPrelude
  imports Main "HOL-Library.Word" "HOL-Library.Monad_Syntax"
begin

unbundle bit_operations_syntax

section \<open>C integers, errors and state-passing commands\<close>

text \<open>
  What every component of the development shares: the machine integers of the C code
  (gcc on x86-64: 32-bit two's complement \<open>int\<close>, 64-bit \<open>long\<close> and \<open>size_t\<close>), the C
  operators that HOL does not have in the same form (\<open>!\<close>, shifts whose behaviour is
  undefined outside the width), the errors a run of the code can end with, and the
  state-passing commands with their sequencing \<open>bindE\<close>.
\<close>

named_theorems c_ops "definitions of the C operators"
named_theorems cmd_defs "definitions of the state-passing combinators"
named_theorems cmd_simps "evaluation of state-passing commands"

subsection \<open>Integers\<close>

type_synonym cint = "32 word"      \<comment> \<open>C \<open>int\<close>, read with \<open>sint\<close>\<close>
type_synonym uint32 = "32 word"    \<comment> \<open>\<open>uint32_t\<close> and \<open>unsigned\<close>, read with \<open>uint\<close>\<close>
type_synonym uint64 = "64 word"    \<comment> \<open>\<open>uint64_t\<close>, \<open>unsigned long\<close> and \<open>size_t\<close>\<close>
type_synonym byte = "8 word"

abbreviation TMin :: cint where "TMin \<equiv> 0x80000000"
abbreviation TMax :: cint where "TMax \<equiv> 0x7FFFFFFF"

text \<open>The logical negation \<open>!x\<close> and the truth value of a comparison as an \<open>int\<close>.\<close>

definition c_lnot :: "cint \<Rightarrow> cint" where
  [c_ops]: "c_lnot x = (if x = 0 then 1 else 0)"

definition c_bool :: "bool \<Rightarrow> cint" where
  [c_ops]: "c_bool b = (if b then 1 else 0)"

text \<open>
  Shifts. The C standard leaves a shift by a negative amount or by the width or more
  undefined: such a shift is \<open>None\<close> here. The right shift of an \<open>int\<close> is arithmetic.
\<close>

definition c_shl :: "cint \<Rightarrow> cint \<Rightarrow> cint option" where
  [c_ops]: "c_shl x n = (if uint n < 32 then Some (push_bit (unat n) x) else None)"

definition c_sar :: "cint \<Rightarrow> cint \<Rightarrow> cint option" where
  [c_ops]: "c_sar x n = (if uint n < 32 then Some (signed_drop_bit (unat n) x) else None)"

lemma sint_word_of_int_small: "- (2 ^ 31) \<le> n \<Longrightarrow> n < 2 ^ 31 \<Longrightarrow> sint (word_of_int n :: cint) = n"
  by (simp add: signed_of_int signed_take_bit_int_eq_self)

lemma of_nat_small_word:
  assumes "k < 32"
  shows "unat (of_nat k :: cint) = k" and "uint (of_nat k :: cint) = int k"
proof -
  show "unat (of_nat k :: cint) = k" using assms by (simp add: unat_of_nat)
  show "uint (of_nat k :: cint) = int k"
    using assms by (simp add: unsigned_of_nat take_bit_eq_mod)
qed

lemma c_shl_of_nat [simp]: "k < 32 \<Longrightarrow> c_shl x (of_nat k) = Some (push_bit k x)"
  by (simp add: c_shl_def of_nat_small_word)

lemma c_sar_of_nat [simp]: "k < 32 \<Longrightarrow> c_sar x (of_nat k) = Some (signed_drop_bit k x)"
  by (simp add: c_sar_def of_nat_small_word)

lemma c_lnot_c_lnot: "c_lnot (c_lnot x) = c_bool (x \<noteq> 0)"
  by (simp add: c_lnot_def c_bool_def)

lemma c_bool_simps [simp]: "c_bool True = 1" "c_bool False = 0"
  by (simp_all add: c_bool_def)

text \<open>A word of width 32 as the number of one of its 32 bit positions.\<close>

lemma small_word_cases:
  fixes n :: cint
  assumes "uint n < int b"
  obtains k where "k < b" and "n = of_nat k"
proof
  show "unat n < b"
    using assms of_nat_less_iff [where ?'a = int, of "unat n" b] by simp
  show "n = of_nat (unat n)" by simp
qed

lemma and_low_mask:
  fixes x :: cint
  shows "x AND 0xFF = take_bit 8 x" and "x AND 0x0F = take_bit 4 x"
    and "x AND 0x3 = take_bit 2 x" and "x AND 1 = take_bit 1 x"
  by (simp_all add: take_bit_eq_mask mask_eq_exp_minus_1)

subsection \<open>How a run can end\<close>

text \<open>
  \<open>Fault a\<close>: an access to memory outside the simulated heap, at address \<open>a\<close> (the
  hardware's segmentation fault; \<open>Fault 0\<close> is a dereference of \<open>NULL\<close>).
  \<open>Exit c\<close>: the code calls \<open>exit(c)\<close>. \<open>AssertFail\<close>: a failed \<open>assert\<close>.
  \<open>OutOfBounds\<close>: an access outside an array the code itself allocated (the driver's trace
  arrays), which C leaves undefined. \<open>Undefined\<close>: any other step without a defined result.
  \<open>Diverge\<close>: the code does not return.
\<close>

datatype err = Fault int | Exit int | AssertFail | OutOfBounds | Undefined | Diverge

type_synonym ('s, 'a) cmd = "'s \<Rightarrow> err + 'a \<times> 's"

definition retE :: "'a \<Rightarrow> ('s, 'a) cmd" where
  [cmd_defs]: "retE x = (\<lambda>s. Inr (x, s))"

definition throwE :: "err \<Rightarrow> ('s, 'a) cmd" where
  [cmd_defs]: "throwE e = (\<lambda>s. Inl e)"

definition bindE :: "('s, 'a) cmd \<Rightarrow> ('a \<Rightarrow> ('s, 'b) cmd) \<Rightarrow> ('s, 'b) cmd" where
  [cmd_defs]: "bindE m f = (\<lambda>s. case m s of Inl e \<Rightarrow> Inl e | Inr (x, t) \<Rightarrow> f x t)"

definition getsE :: "('s \<Rightarrow> 'a) \<Rightarrow> ('s, 'a) cmd" where
  [cmd_defs]: "getsE f = (\<lambda>s. Inr (f s, s))"

definition modifyE :: "('s \<Rightarrow> 's) \<Rightarrow> ('s, unit) cmd" where
  [cmd_defs]: "modifyE f = (\<lambda>s. Inr ((), f s))"

definition whenE :: "bool \<Rightarrow> ('s, unit) cmd \<Rightarrow> ('s, unit) cmd" where
  [cmd_defs]: "whenE b m = (if b then m else retE ())"

lemma bindE_cases [cmd_simps]:
  "m s = Inr (x, t) \<Longrightarrow> bindE m f s = f x t"
  "m s = Inl e \<Longrightarrow> bindE m f s = Inl e"
  by (simp_all add: bindE_def)

lemma cmd_run [simp]:
  "retE x s = Inr (x, s)"
  "throwE e s = Inl e"
  "getsE g s = Inr (g s, s)"
  "modifyE h s = Inr ((), h s)"
  "whenE True c = c"
  "whenE False c = retE ()"
  by (simp_all add: cmd_defs)

lemma bindE_run [simp]:
  "bindE (retE x) f s = f x s"
  "bindE (getsE g) f s = f (g s) s"
  "bindE (modifyE h) k s = k () (h s)"
  "bindE (throwE e) f s = Inl e"
  by (simp_all add: cmd_defs)

lemma bindE_InrE:
  assumes "bindE m f s = Inr (y, u)"
  obtains x t where "m s = Inr (x, t)" and "f x t = Inr (y, u)"
  using assms by (auto simp: bindE_def split: sum.splits prod.splits)

lemma bindE_assoc: "bindE (bindE m f) g = bindE m (\<lambda>x. bindE (f x) g)"
  by (rule ext) (auto simp: bindE_def split: sum.splits)

text \<open>
  A command keeps a property of the state if every normal return of it does. The
  invariants of the components are of this form, and the rules below build them up.
\<close>

definition keeps :: "('s \<Rightarrow> 's \<Rightarrow> bool) \<Rightarrow> ('s, 'a) cmd \<Rightarrow> bool" where
  "keeps R m \<longleftrightarrow> (\<forall>s x t. m s = Inr (x, t) \<longrightarrow> R s t)"

lemma keepsI: "(\<And>s x t. m s = Inr (x, t) \<Longrightarrow> R s t) \<Longrightarrow> keeps R m"
  by (auto simp: keeps_def)

lemma keepsD: "keeps R m \<Longrightarrow> m s = Inr (x, t) \<Longrightarrow> R s t"
  by (auto simp: keeps_def)

lemma keeps_bindE:
  assumes "transp R" and "keeps R m" and "\<And>x. keeps R (f x)"
  shows "keeps R (bindE m f)"
  using assms by (intro keepsI) (metis bindE_InrE keepsD transpD)

lemma keeps_basic:
  assumes "reflp R"
  shows "keeps R (retE x)" and "keeps R (throwE e)" and "keeps R (getsE g)"
  using assms by (auto simp: keeps_def reflp_def)

lemma keeps_whenE: "reflp R \<Longrightarrow> keeps R m \<Longrightarrow> keeps R (whenE b m)"
  by (cases b) (simp_all add: keeps_basic)

end
