(* ===== verification/Rounding.thy ===== *)
theory Rounding
  imports CPrelude Complex_Main
begin

section \<open>Rounding of floating-point results\<close>

text \<open>
  The type \<open>double\<close> of the timing routines and of the driver's utilization: a result is rounded to
  53 significant bits, ties to even. \<open>round_double\<close> is that function on the reals, for results
  between the smallest normal number and the largest finite one, where all values of the programs
  lie that a property speaks of. \<open>half_even\<close> rounds a quotient of integers the same way; it is what
  \<open>printf\<close> does with the decimals of a number.
\<close>

definition round_even :: "real \<Rightarrow> int" where
  "round_even x = (let f = \<lfloor>x\<rfloor> in if x - of_int f < 1 / 2 \<or> x - of_int f = 1 / 2 \<and> even f then f else f + 1)"

definition round_double :: "real \<Rightarrow> real" where
  "round_double x =
     (if x = 0 then 0
      else let u = 2 powi (\<lfloor>log 2 \<bar>x\<bar>\<rfloor> - 52) in of_int (round_even (x / u)) * u)"

definition half_even :: "int \<Rightarrow> int \<Rightarrow> int" where
  "half_even n d = (let q = n div d; r = n mod d in if 2 * r < d \<or> 2 * r = d \<and> even q then q else q + 1)"

lemma round_even_int [simp]: "round_even (of_int n) = n"
  by (simp add: round_even_def)

lemma round_even_near: "\<bar>of_int (round_even x) - x\<bar> \<le> 1 / 2"
  unfolding round_even_def Let_def using floor_correct [of x] by (auto simp: abs_le_iff; linarith)

lemma round_even_le: "x \<le> of_int n \<Longrightarrow> round_even x \<le> n"
  unfolding round_even_def Let_def by (auto simp: floor_le_iff; linarith)

lemma round_even_ge: "of_int n \<le> x \<Longrightarrow> n \<le> round_even x"
  unfolding round_even_def Let_def by (auto simp: le_floor_iff) (metis le_floor_iff add_increasing2 zero_le_one)+

lemma half_even_bounds:
  assumes "0 < d"
  shows "2 * \<bar>half_even n d * d - n\<bar> \<le> d"
proof -
  define q r where "q = n div d" and "r = n mod d"
  have n: "n = q * d + r" "0 \<le> r" "r < d" using assms by (simp_all add: q_def r_def)
  have "half_even n d * d - n = - r \<and> 2 * r \<le> d \<or> half_even n d * d - n = d - r \<and> d \<le> 2 * r"
    unfolding half_even_def Let_def q_def [symmetric] r_def [symmetric] using n by (auto simp: algebra_simps)
  then show ?thesis using n(2,3) by auto
qed

lemma half_even_near:
  assumes "0 < d"
  shows "\<bar>of_int (half_even n d) - of_int n / of_int d\<bar> \<le> (1 / 2 :: real)"
proof -
  have "real_of_int (2 * \<bar>half_even n d * d - n\<bar>) \<le> of_int d" using half_even_bounds [OF assms] by (simp only: of_int_le_iff)
  then have a: "\<bar>of_int (half_even n d) * of_int d - of_int n\<bar> \<le> 1 / 2 * real_of_int d" by simp
  have "of_int (half_even n d) - of_int n / of_int d = (of_int (half_even n d) * of_int d - of_int n) / real_of_int d"
    using assms by (simp add: diff_divide_distrib)
  then have "\<bar>of_int (half_even n d) - of_int n / of_int d\<bar> = \<bar>of_int (half_even n d) * of_int d - of_int n\<bar> / real_of_int d"
    using assms by (simp only: abs_divide)
  also have "\<dots> \<le> 1 / 2" using a assms by (simp add: pos_divide_le_eq)
  finally show ?thesis .
qed

lemma half_even_ge: "0 < d \<Longrightarrow> of_int m \<le> (of_int n / of_int d :: real) \<Longrightarrow> m \<le> half_even n d"
  using half_even_near [of d n] by linarith

text \<open>The binade of a number, and what rounding does in it.\<close>

lemma binade:
  assumes "x \<noteq> 0"
  shows "2 powi \<lfloor>log 2 \<bar>x\<bar>\<rfloor> \<le> \<bar>x\<bar>" "\<bar>x\<bar> < 2 powi (\<lfloor>log 2 \<bar>x\<bar>\<rfloor> + 1)"
proof -
  have x: "0 < \<bar>x\<bar>" using assms by simp
  have "2 powr of_int \<lfloor>log 2 \<bar>x\<bar>\<rfloor> \<le> \<bar>x\<bar>" by (rule iffD1 [OF le_log_iff]) (use assms in simp_all)
  then show "2 powi \<lfloor>log 2 \<bar>x\<bar>\<rfloor> \<le> \<bar>x\<bar>" by (simp add: powr_real_of_int')
  have "\<bar>x\<bar> < 2 powr of_int (\<lfloor>log 2 \<bar>x\<bar>\<rfloor> + 1)" 
    by (rule iffD1 [OF log_less_iff]) (use assms floor_correct [of "log 2 \<bar>x\<bar>"] in simp_all)
  then show "\<bar>x\<bar> < 2 powi (\<lfloor>log 2 \<bar>x\<bar>\<rfloor> + 1)" by (simp add: powr_real_of_int' del: of_int_add)
qed

lemma binade_less: "x \<noteq> 0 \<Longrightarrow> \<bar>x\<bar> < 2 powi k \<Longrightarrow> \<lfloor>log 2 \<bar>x\<bar>\<rfloor> < k"
proof (rule ccontr)
  assume a: "x \<noteq> 0" "\<bar>x\<bar> < 2 powi k" "\<not> \<lfloor>log 2 \<bar>x\<bar>\<rfloor> < k"
  then have "2 powi k \<le> (2 powi \<lfloor>log 2 \<bar>x\<bar>\<rfloor> :: real)" by (intro power_int_increasing) simp_all
  then show False using binade(1) [OF a(1)] a(2) by simp
qed

lemma round_double_exact:
  assumes "\<bar>n\<bar> < 2 ^ 53"
  shows "round_double (of_int n * 2 ^ k) = of_int n * 2 ^ k"
proof (cases "n = 0")
  case False
  let ?x = "of_int n * 2 ^ k :: real"
  let ?e = "\<lfloor>log 2 \<bar>?x\<bar>\<rfloor>"
  have "\<bar>of_int n :: real\<bar> < 2 ^ 53" using assms by (metis of_int_abs of_int_less_iff of_int_numeral of_int_power)
  then have "\<bar>?x\<bar> < 2 powi (53 + int k)" by (simp add: abs_mult power_int_add)
  then have e: "?e < 53 + int k" using binade_less [of ?x] False by simp
  define j where "j = nat (int k + 52 - ?e)"
  have "2 powi (?e - 52) * 2 ^ j = (2 ^ k :: real)"
    using e by (simp add: j_def power_int_add [symmetric] flip: power_int_of_nat)
  then have x: "?x = of_int (n * 2 ^ j) * 2 powi (?e - 52)" by (simp add: mult_ac)
  then have "?x / 2 powi (?e - 52) = of_int (n * 2 ^ j)" by (metis nonzero_mult_div_cancel_right power_int_eq_0_iff zero_neq_numeral)
  then have "round_even (?x / 2 powi (?e - 52)) = n * 2 ^ j" by (simp only: round_even_int)
  then show ?thesis using False x unfolding round_double_def Let_def by (simp only: mult_eq_0_iff) simp
qed (simp add: round_double_def)

lemma round_double_int: "\<bar>n\<bar> < 2 ^ 53 \<Longrightarrow> round_double (of_int n) = of_int n"
  using round_double_exact [of n 0] by simp

lemma round_double_near:
  assumes "\<bar>x\<bar> < 2 powi k"
  shows "\<bar>round_double x - x\<bar> \<le> 2 powi (k - 54)"
proof (cases "x = 0")
  case False
  define u :: real where "u = 2 powi (\<lfloor>log 2 \<bar>x\<bar>\<rfloor> - 52)"
  have u: "0 < u" by (simp add: u_def)
  have "round_double x - x = (of_int (round_even (x / u)) - x / u) * u"
    using False u by (simp add: round_double_def Let_def u_def [symmetric] field_simps)
  then have "\<bar>round_double x - x\<bar> \<le> 1 / 2 * u"
    using mult_right_mono [OF round_even_near [of "x / u"], of u] u by (simp add: abs_mult)
  also have "u \<le> 2 powi (k - 53)" unfolding u_def using binade_less [OF False assms] by (intro power_int_increasing) auto
  finally show ?thesis using power_int_add [of "2 :: real" "k - 54" 1] by simp
qed (simp add: round_double_def)

lemma round_double_unit:
  assumes "0 < x" "x \<le> 1"
  shows "0 < round_double x" "round_double x \<le> 1"
proof -
  define e where "e = \<lfloor>log 2 \<bar>x\<bar>\<rfloor>"
  define u :: real where "u = 2 powi (e - 52)"
  have u: "0 < u" by (simp add: u_def)
  have r: "round_double x = of_int (round_even (x / u)) * u" using assms by (simp add: round_double_def Let_def e_def u_def)
  have p: "2 powi e = 2 ^ 52 * u" unfolding u_def by (simp add: power_int_diff)
  have "of_int (2 ^ 52) \<le> x / u" using binade(1) [of x] assms u p by (simp add: e_def field_simps)
  then have "2 ^ 52 \<le> round_even (x / u)" by (rule round_even_ge)
  then have "0 < round_even (x / u)" by (rule order_less_le_trans [rotated]) simp
  then show "0 < round_double x" unfolding r using u by simp
  show "round_double x \<le> 1"
  proof (cases "x = 1")
    case True
    then show ?thesis using round_double_int [of 1] by simp
  next
    case False
    then have e: "e < 0" using binade_less [of x 0] assms by (simp add: e_def)
    have "x / u \<le> of_int (2 ^ nat (52 - e))"
    proof -
      have "u * 2 ^ nat (52 - e) = 1" using e by (simp add: u_def power_int_add [symmetric] flip: power_int_of_nat)
      then show ?thesis using assms u by (simp add: field_simps)
    qed
    then have "round_even (x / u) \<le> 2 ^ nat (52 - e)" by (rule round_even_le)
    then have "of_int (round_even (x / u)) * u \<le> of_int (2 ^ nat (52 - e)) * u" using u by (intro mult_right_mono) simp_all
    also have "\<dots> = 1" using e by (simp add: u_def power_int_add [symmetric] flip: power_int_of_nat)
    finally show ?thesis by (simp add: r)
  qed
qed

end
