(* ===== verification/Scan.thy ===== *)
theory Scan
  imports CPrelude
begin

section \<open>Reading and printing numbers (the conversions of stdio and stdlib)\<close>

text \<open>
  What the programs use of \<open>fscanf\<close>, \<open>strtoll\<close> and \<open>printf\<close>, on character lists. A conversion
  takes the input and returns its result with the rest of the input; a matching failure leaves
  the variable unchanged, so its result is \<open>None\<close>. Numbers outside the range of the 64-bit type
  the C library converts through are cut off at its ends (glibc).
\<close>

named_theorems scan_simps "evaluation of conversions on printed text"

subsection \<open>Characters\<close>

definition char_code :: "char \<Rightarrow> nat" where
  "char_code c = of_char c"

definition isspace :: "char \<Rightarrow> bool" where
  "isspace c \<longleftrightarrow> char_code c = 32 \<or> (9 \<le> char_code c \<and> char_code c \<le> 13)"

definition isdigit :: "char \<Rightarrow> bool" where
  "isdigit c \<longleftrightarrow> 48 \<le> char_code c \<and> char_code c \<le> 57"

definition skip_space :: "string \<Rightarrow> string" where
  "skip_space = dropWhile isspace"

lemma char_tests [simp]:
  "isspace (CHR '' '')" "isspace (CHR 0x0A)" "\<not> isdigit (CHR '' '')" "\<not> isdigit (CHR 0x0A)"
  "\<not> isspace (CHR ''-'')" "\<not> isdigit (CHR ''-'')" "\<not> isspace (CHR ''a'')" "\<not> isspace (CHR ''r'')"
  "\<not> isspace (CHR ''f'')" "\<not> isdigit (CHR ''+'')" "\<not> isspace (CHR ''+'')"
  by (simp_all add: isspace_def isdigit_def char_code_def)

lemma isdigit_not_space [simp]: "isdigit c \<Longrightarrow> \<not> isspace c"
  by (auto simp: isspace_def isdigit_def)

subsection \<open>Conversions\<close>

definition decimal :: "string \<Rightarrow> nat" where
  "decimal ds = foldl (\<lambda>n c. n * 10 + (char_code c - 48)) 0 ds"

definition scan_sign :: "string \<Rightarrow> bool \<times> string" where
  "scan_sign s = (case s of
       [] \<Rightarrow> (False, [])
     | c # r \<Rightarrow> if c = CHR ''-'' then (True, r) else if c = CHR ''+'' then (False, r) else (False, s))"

definition scan_number :: "string \<Rightarrow> int option \<times> string" where
  "scan_number s =
     (let (neg, r) = scan_sign (skip_space s);
          ds = takeWhile isdigit r
      in (if ds = [] then None else Some (if neg then - int (decimal ds) else int (decimal ds)),
          dropWhile isdigit r))"

text \<open>\<open>%d\<close> and \<open>%u\<close>: through \<open>strtol\<close> and \<open>strtoul\<close>, then cut to 32 bits.\<close>

definition scan_d :: "string \<Rightarrow> cint option \<times> string" where
  "scan_d s = (case scan_number s of (n, r) \<Rightarrow>
     (map_option (\<lambda>n. word_of_int (max (- (2 ^ 63)) (min (2 ^ 63 - 1) n))) n, r))"

definition scan_u :: "string \<Rightarrow> uint32 option \<times> string" where
  "scan_u s = (case scan_number s of (n, r) \<Rightarrow>
     (map_option (\<lambda>n. word_of_int (if 2 ^ 64 \<le> \<bar>n\<bar> then 2 ^ 64 - 1 else n)) n, r))"

text \<open>\<open>%s\<close>: \<open>None\<close> is \<open>EOF\<close>.\<close>

definition scan_s :: "string \<Rightarrow> (string \<times> string) option" where
  "scan_s s =
     (let s = skip_space s in
      if s = [] then None
      else Some (takeWhile (\<lambda>c. \<not> isspace c) s, dropWhile (\<lambda>c. \<not> isspace c) s))"

subsection \<open>Printing\<close>

definition digit :: "nat \<Rightarrow> char" where
  "digit n = char_of (48 + n)"

fun show_nat :: "nat \<Rightarrow> string" where
  "show_nat n = (if n < 10 then [digit n] else show_nat (n div 10) @ [digit (n mod 10)])"

declare show_nat.simps [simp del]

definition show_int :: "int \<Rightarrow> string" where
  "show_int n = (if n < 0 then CHR ''-'' # show_nat (nat (- n)) else show_nat (nat n))"

subsection \<open>Round trips\<close>

lemma char_code_digit: "n < 10 \<Longrightarrow> char_code (digit n) = 48 + n"
  by (simp add: char_code_def digit_def)

lemma isdigit_digit: "n < 10 \<Longrightarrow> isdigit (digit n)"
  by (simp add: isdigit_def char_code_digit)

lemma decimal_snoc: "decimal (ds @ [d]) = decimal ds * 10 + (char_code d - 48)"
  by (simp add: decimal_def)

lemma show_nat_digits: "list_all isdigit (show_nat n) \<and> show_nat n \<noteq> [] \<and> decimal (show_nat n) = n"
proof (induction n rule: show_nat.induct)
  case (1 n)
  show ?case
  proof (cases "n < 10")
    case True
    then show ?thesis by (subst (1 2 3) show_nat.simps) (simp add: isdigit_digit decimal_def char_code_digit)
  next
    case False
    then show ?thesis using 1
      by (subst (1 2 3) show_nat.simps) (simp add: isdigit_digit decimal_snoc char_code_digit)
  qed
qed

lemma takeWhile_all: "list_all P xs \<Longrightarrow> \<not> P c \<Longrightarrow> takeWhile P (xs @ c # ys) = xs \<and> dropWhile P (xs @ c # ys) = c # ys"
  by (induction xs) auto

lemma show_nat_scan [scan_simps]:
  "\<not> isdigit c \<Longrightarrow> takeWhile isdigit (show_nat n @ c # s) = show_nat n"
  "\<not> isdigit c \<Longrightarrow> dropWhile isdigit (show_nat n @ c # s) = c # s"
  using takeWhile_all [of isdigit "show_nat n" c s] show_nat_digits [of n] by simp_all

lemma show_nat_head: "\<exists>d ds. show_nat n = d # ds \<and> isdigit d"
  using show_nat_digits [of n] by (cases "show_nat n") auto

lemma scan_sign_nat: "scan_sign (skip_space (show_nat n @ s)) = (False, show_nat n @ s)"
proof -
  obtain d ds where d: "show_nat n = d # ds" "isdigit d" using show_nat_head by blast
  then have "d \<noteq> CHR ''-''" "d \<noteq> CHR ''+''" by auto
  then show ?thesis using d by (simp add: scan_sign_def skip_space_def)
qed

lemma scan_number_show:
  assumes "\<not> isdigit c"
  shows "scan_number (show_int n @ c # s) = (Some n, c # s)"
proof (cases "n < 0")
  case True
  have "skip_space (CHR ''-'' # show_nat (nat (- n)) @ c # s) = CHR ''-'' # show_nat (nat (- n)) @ c # s"
    by (simp add: skip_space_def)
  then show ?thesis using True show_nat_digits [of "nat (- n)"] assms
    by (simp add: scan_number_def show_int_def scan_sign_def scan_simps)
next
  case False
  then show ?thesis using show_nat_digits [of "nat n"] assms
    by (simp add: scan_number_def show_int_def scan_sign_nat scan_simps)
qed

lemma scan_number_space: "isspace c \<Longrightarrow> scan_number (c # s) = scan_number s"
  by (simp add: scan_number_def skip_space_def)

lemma scan_d_show:
  fixes n :: cint
  assumes "\<not> isdigit c"
  shows "scan_d (show_int (sint n) @ c # s) = (Some n, c # s)"
proof -
  have "- (2 ^ 63) \<le> sint n" "sint n \<le> 2 ^ 63 - 1" using sint_ge [of n] sint_less [of n] by simp_all
  then have "max (- (2 ^ 63)) (min (2 ^ 63 - 1) (sint n)) = sint n" by (simp only: min_absorb2 max_absorb2)
  then show ?thesis by (simp add: scan_d_def scan_number_show [OF assms])
qed

lemma scan_u_show:
  fixes n :: uint32
  assumes "\<not> isdigit c"
  shows "scan_u (show_nat (unat n) @ c # s) = (Some n, c # s)"
proof -
  have u: "show_nat (unat n) = show_int (uint n)" by (simp add: show_int_def)
  have "\<bar>uint n\<bar> < 2 ^ 64" using uint_lt2p [of n] by simp
  then show ?thesis unfolding u by (simp add: scan_u_def scan_number_show [OF assms])
qed

lemma scan_space:
  assumes "isspace c"
  shows "scan_d (c # s) = scan_d s" "scan_u (c # s) = scan_u s"
  by (simp_all add: scan_d_def scan_u_def scan_number_space [OF assms])

subsection \<open>Conversions consume input\<close>

lemma scan_number_length: "length (snd (scan_number s)) \<le> length s"
proof -
  have a: "length (skip_space s) \<le> length s" unfolding skip_space_def by (rule length_dropWhile_le)
  have b: "length (snd (scan_sign t)) \<le> length t" for t by (simp add: scan_sign_def split: list.splits)
  show ?thesis using a b [of "skip_space s"] length_dropWhile_le [of isdigit "snd (scan_sign (skip_space s))"]
    by (auto simp: scan_number_def Let_def split: prod.splits)
qed

lemma scan_length:
  "length (snd (scan_d s)) \<le> length s" "length (snd (scan_u s)) \<le> length s"
  using scan_number_length [of s] by (auto simp: scan_d_def scan_u_def split: prod.splits)

lemma scan_s_length: "scan_s s = Some (w, r) \<Longrightarrow> w \<noteq> [] \<and> length r < length s"
proof -
  assume a: "scan_s s = Some (w, r)"
  then have n: "skip_space s \<noteq> []" and w: "w = takeWhile (\<lambda>c. \<not> isspace c) (skip_space s)"
    and r: "r = dropWhile (\<lambda>c. \<not> isspace c) (skip_space s)"
    by (auto simp: scan_s_def Let_def split: if_splits)
  have "\<not> isspace (hd (skip_space s))" using n unfolding skip_space_def by (rule hd_dropWhile)
  then have "w \<noteq> []" using n w by (cases "skip_space s") auto
  moreover have "length w + length r = length (skip_space s)"
    unfolding w r using takeWhile_dropWhile_id [of "\<lambda>c. \<not> isspace c" "skip_space s"] by (metis length_append)
  moreover have "length (skip_space s) \<le> length s" unfolding skip_space_def by (rule length_dropWhile_le)
  ultimately show ?thesis by (cases w) auto
qed

lemma scan_s_word:
  assumes "list_all (\<lambda>c. \<not> isspace c) w" "w \<noteq> []" "isspace c"
  shows "scan_s (w @ c # s) = Some (w, c # s)"
proof -
  have "skip_space (w @ c # s) = w @ c # s" using assms(1,2) by (cases w) (simp_all add: skip_space_def)
  then show ?thesis using takeWhile_all [of "\<lambda>c. \<not> isspace c" w c s] assms by (simp add: scan_s_def)
qed

lemma scan_s_space: "isspace c \<Longrightarrow> scan_s (c # s) = scan_s s"
  by (simp add: scan_s_def skip_space_def)

lemma scan_s_empty [simp]: "scan_s [] = None"
  by (simp add: scan_s_def skip_space_def)

subsection \<open>The identification both harnesses print (util.c, mdriver.c)\<close>

text \<open>
  The command line is put together in \<open>hash_cmd\<close>, an array of 64 characters including the
  terminating one, by \<open>sprintf\<close>, which does not check the length.
\<close>

definition hash_cmd :: "string \<Rightarrow> string" where
  "hash_cmd name = ''echo -n '' @ name @ '' | md5sum | cut -c -6''"

primrec all_digits :: "string \<Rightarrow> bool" where
  "all_digits [] = True"
| "all_digits (c # cs) = (if \<not> isdigit c then False else all_digits cs)"

lemma all_digits_iff: "all_digits uid \<longleftrightarrow> (\<forall>c\<in>set uid. isdigit c)"
  by (induction uid) auto

lemma length_hash_cmd: "length (hash_cmd name) = length name + 29"
  by (simp add: hash_cmd_def)

end
