(* ===== verification/Decimals.thy ===== *)
theory Decimals
  imports Scan Rounding
begin

section \<open>Decimals printed by printf\<close>

text \<open>
  The conversions \<open>%.10f\<close> and \<open>%.10g\<close> of \<open>printf\<close>, for a positive rational \<open>n / d\<close>; glibc prints the
  exact value of a floating-point number rounded to the digits asked for, ties to even. What the
  texts say is stated with \<open>decimal_value\<close>, which reads a decimal with or without a sign, a fraction
  and an exponent.
\<close>

subsection \<open>The conversions\<close>

definition pad :: "nat \<Rightarrow> nat \<Rightarrow> string" where
  "pad w n = map (\<lambda>i. digit (n div 10 ^ (w - 1 - i) mod 10)) [0..<w]"

definition fixed10 :: "int \<Rightarrow> int \<Rightarrow> string" where
  "fixed10 n d = (let k = nat (half_even (n * 10 ^ 10) d) in show_nat (k div 10 ^ 10) @ CHR ''.'' # pad 10 (k mod 10 ^ 10))"

text \<open>
  \<open>%.10g\<close>: the decade \<open>x\<close> of the number, the ten digits rounded there (which may carry into the next
  decade), and then fixed or exponential notation without trailing zeros. The search for the
  decade goes from \<open>10 ^ 50\<close> down to \<open>10 ^ -50\<close>, which contains every \<open>float\<close>.
\<close>

definition in_decade :: "int \<Rightarrow> int \<Rightarrow> int \<Rightarrow> bool" where
  "in_decade x n d \<longleftrightarrow> 10 ^ nat x * d \<le> n * 10 ^ nat (- x)"

fun decade :: "nat \<Rightarrow> int \<Rightarrow> int \<Rightarrow> int" where
  "decade 0 n d = - 50"
| "decade (Suc k) n d = (if in_decade (int k - 49) n d then int k - 49 else decade k n d)"

definition significand :: "int \<Rightarrow> int \<Rightarrow> int \<times> int" where
  "significand n d =
     (let x = decade 100 n d;
          k = half_even (n * 10 ^ nat (9 - x)) (d * 10 ^ nat (x - 9))
      in if k = 10 ^ 10 then (10 ^ 9, x + 1) else (k, x))"

definition no_zeros :: "string \<Rightarrow> string" where
  "no_zeros s = rev (dropWhile (\<lambda>c. c = CHR ''0'') (rev s))"

definition with_point :: "string \<Rightarrow> string \<Rightarrow> string" where
  "with_point i f = (if f = [] then i else i @ CHR ''.'' # f)"

definition exponent_digits :: "int \<Rightarrow> string" where
  "exponent_digits x = (let s = show_nat (nat \<bar>x\<bar>) in (if x < 0 then CHR ''-'' else CHR ''+'') # (if length s < 2 then CHR ''0'' # s else s))"

definition general10 :: "int \<Rightarrow> int \<Rightarrow> string" where
  "general10 n d =
     (let (k, x) = significand n d; ds = pad 10 (nat k) in
      if - 4 \<le> x \<and> x < 10 then
        (if 0 \<le> x then with_point (take (Suc (nat x)) ds) (no_zeros (drop (Suc (nat x)) ds))
         else with_point ''0'' (no_zeros (replicate (nat (- x - 1)) (CHR ''0'') @ ds)))
      else with_point (take 1 ds) (no_zeros (drop 1 ds)) @ CHR ''e'' # exponent_digits x)"

subsection \<open>Reading decimals\<close>

definition fixed_value :: "string \<Rightarrow> real" where
  "fixed_value s =
     (let i = takeWhile isdigit s; f = takeWhile isdigit (tl (dropWhile isdigit s))
      in of_nat (decimal (i @ f)) / 10 ^ length f)"

definition signed_decimal :: "string \<Rightarrow> int" where
  "signed_decimal s = (case scan_sign s of (neg, r) \<Rightarrow> if neg then - int (decimal r) else int (decimal r))"

definition decimal_value :: "string \<Rightarrow> real" where
  "decimal_value s =
     (case scan_sign s of (neg, r) \<Rightarrow>
        (if neg then - 1 else 1) * fixed_value (takeWhile (\<lambda>c. c \<noteq> CHR ''e'') r)
          * 10 powi signed_decimal (tl (dropWhile (\<lambda>c. c \<noteq> CHR ''e'') r)))"

lemma decimal_append: "decimal (xs @ ys) = decimal xs * 10 ^ length ys + decimal ys"
  by (induction ys rule: rev_induct)
    (simp add: decimal_def, simp add: decimal_snoc append_assoc [symmetric] del: append_assoc)

lemma decimal_Nil [simp]: "decimal [] = 0"
  by (simp add: decimal_def)

lemma decimal_zeros [simp]: "decimal (replicate k (CHR ''0'')) = 0"
  by (induction k) (simp_all add: decimal_def char_code_def)

lemma pad_length [simp]: "length (pad w n) = w"
  by (simp add: pad_def)

lemma pad_digits: "list_all isdigit (pad w n)"
  by (auto simp: pad_def list_all_iff isdigit_digit)

lemma decimal_pad: "decimal (pad k n) = n mod 10 ^ k"
proof (induction k arbitrary: n)
  case 0
  then show ?case by (simp add: pad_def)
next
  case (Suc k)
  have "map (\<lambda>i. digit (n div 10 ^ (Suc k - 1 - i) mod 10)) [0..<k] = pad k (n div 10)"
    unfolding pad_def
  proof (rule map_cong [OF refl])
    fix i assume "i \<in> set [0..<k]"
    then have "Suc k - 1 - i = Suc (k - 1 - i)" by auto
    then show "digit (n div 10 ^ (Suc k - 1 - i) mod 10) = digit (n div 10 div 10 ^ (k - 1 - i) mod 10)"
      by (simp add: div_mult2_eq)
  qed
  then have "pad (Suc k) n = pad k (n div 10) @ [digit (n mod 10)]" by (simp add: pad_def)
  then have "decimal (pad (Suc k) n) = n div 10 mod 10 ^ k * 10 + n mod 10"
    by (simp add: decimal_snoc Suc char_code_digit)
  then show ?case by (simp add: mod_mult2_eq mult.commute)
qed

lemma no_zeros_split: "\<exists>k. s = no_zeros s @ replicate k (CHR ''0'')"
proof -
  have "rev s = takeWhile (\<lambda>c. c = CHR ''0'') (rev s) @ dropWhile (\<lambda>c. c = CHR ''0'') (rev s)" by simp
  moreover have "takeWhile (\<lambda>c. c = CHR ''0'') (rev s) = replicate (length (takeWhile (\<lambda>c. c = CHR ''0'') (rev s))) (CHR ''0'')"
    by (rule replicate_eqI) (auto dest: set_takeWhileD)
  ultimately show ?thesis unfolding no_zeros_def by (metis rev_append rev_replicate rev_rev_ident)
qed

lemma takeWhile_digits: "list_all isdigit s \<Longrightarrow> takeWhile isdigit s = s \<and> dropWhile isdigit s = []"
  by (induction s) auto

lemma point_no_digit: "\<not> isdigit (CHR ''.'')"
  by (simp add: isdigit_def char_code_def)

lemma fixed_value_point:
  assumes "list_all isdigit i" "list_all isdigit f"
  shows "fixed_value (with_point i f) = of_nat (decimal (i @ f)) / 10 ^ length f"
proof -
  have i: "takeWhile isdigit i = i" "dropWhile isdigit i = []" and f: "takeWhile isdigit f = f"
    using takeWhile_digits assms by blast+
  have p: "takeWhile isdigit (i @ CHR ''.'' # f) = i" "dropWhile isdigit (i @ CHR ''.'' # f) = CHR ''.'' # f"
    using takeWhile_all [OF assms(1) point_no_digit, of f] by blast+
  show ?thesis
  proof (cases "f = []")
    case True
    then show ?thesis by (simp only: fixed_value_def with_point_def Let_def i if_True list.sel takeWhile.simps simp_thms append_Nil2)
  next
    case False
    then show ?thesis by (simp only: fixed_value_def with_point_def Let_def p f if_False list.sel)
  qed
qed

text \<open>Trailing zeros of the fraction do not count.\<close>

lemma fixed_value_no_zeros:
  assumes "list_all isdigit i" "list_all isdigit f"
  shows "fixed_value (with_point i (no_zeros f)) = of_nat (decimal (i @ f)) / 10 ^ length f"
proof -
  obtain k where k: "f = no_zeros f @ replicate k (CHR ''0'')" using no_zeros_split by blast
  then have "list_all isdigit (no_zeros f)" using assms(2) by (metis list_all_append)
  then have v: "fixed_value (with_point i (no_zeros f)) = of_nat (decimal (i @ no_zeros f)) / 10 ^ length (no_zeros f)"
    using assms(1) by (intro fixed_value_point)
  have "decimal (i @ f) = decimal (i @ no_zeros f) * 10 ^ k"
    by (subst k) (simp add: decimal_append algebra_simps power_add)
  moreover have "length f = length (no_zeros f) + k" by (subst (1) k) simp
  ultimately show ?thesis unfolding v by (simp add: power_add)
qed

text \<open>\<open>%.10f\<close> is off by at most half a unit of the tenth decimal.\<close>

lemma fixed10_value:
  assumes "0 \<le> n" "0 < d"
  shows "\<bar>fixed_value (fixed10 n d) - of_int n / of_int d\<bar> \<le> 1 / (2 * 10 ^ 10)"
proof -
  define h where "h = half_even (n * 10 ^ 10) d"
  have near: "\<bar>of_int h - of_int (n * 10 ^ 10) / of_int d\<bar> \<le> (1 / 2 :: real)" unfolding h_def by (rule half_even_near [OF assms(2)])
  have "0 \<le> h" unfolding h_def by (rule half_even_ge [OF assms(2)]) (use assms in simp)
  then have h: "real_of_int h = of_nat (nat h)" by simp
  have "fixed10 n d = with_point (show_nat (nat h div 10 ^ 10)) (pad 10 (nat h mod 10 ^ 10))"
    by (simp add: fixed10_def Let_def h_def with_point_def pad_def)
  then have "fixed_value (fixed10 n d) = of_nat (decimal (show_nat (nat h div 10 ^ 10) @ pad 10 (nat h mod 10 ^ 10))) / 10 ^ 10"
    using fixed_value_point [OF _ pad_digits, of "show_nat (nat h div 10 ^ 10)" 10 "nat h mod 10 ^ 10"] show_nat_digits by simp
  also have "\<dots> = of_int h / 10 ^ 10"
    unfolding h using show_nat_digits [of "nat h div 10 ^ 10"] by (simp add: decimal_append decimal_pad)
  finally have v: "fixed_value (fixed10 n d) = of_int h / 10 ^ 10" .
  have "of_int h / 10 ^ 10 - of_int n / of_int d = (of_int h - of_int (n * 10 ^ 10) / of_int d) / (10 ^ 10 :: real)"
    by (simp add: diff_divide_distrib)
  then have "\<bar>of_int h / 10 ^ 10 - of_int n / of_int d\<bar> = \<bar>of_int h - of_int (n * 10 ^ 10) / of_int d\<bar> / (10 ^ 10 :: real)"
    by (simp only: abs_divide) simp
  also have "\<dots> \<le> 1 / 2 / 10 ^ 10" using near by (intro divide_right_mono) simp_all
  finally show ?thesis unfolding v by simp
qed

text \<open>The decade of a number, as real numbers.\<close>

lemma in_decade_real:
  assumes "0 < d"
  shows "in_decade x n d \<longleftrightarrow> 10 powi x \<le> (of_int n / of_int d :: real)"
proof -
  have "in_decade x n d \<longleftrightarrow> real_of_int (10 ^ nat x * d) \<le> of_int (n * 10 ^ nat (- x))"
    unfolding in_decade_def by (simp only: of_int_le_iff)
  also have "\<dots> \<longleftrightarrow> 10 powi x \<le> (of_int n / of_int d :: real)"
    using assms by (cases "0 \<le> x") (simp_all add: power_int_def field_simps)
  finally show ?thesis .
qed

lemma decade_search:
  assumes "in_decade (- 50) n d" "\<not> in_decade (int k - 49) n d"
  shows "in_decade (decade k n d) n d \<and> \<not> in_decade (decade k n d + 1) n d"
  using assms by (induction k) (auto simp: algebra_simps)

lemma significand_value:
  fixes n d :: int
  defines "v \<equiv> real_of_int n / of_int d"
  assumes d: "0 < d" and range: "10 powi (- 50) \<le> v" "v < 10 powi 51"
  obtains k x where "significand n d = (k, x)" "10 ^ 9 \<le> k" "k < 10 ^ 10"
    "\<bar>of_int k * 10 powi (x - 9) - v\<bar> \<le> v / (2 * 10 ^ 9)"
proof -
  define x where "x = decade 100 n d"
  define h where "h = half_even (n * 10 ^ nat (9 - x)) (d * 10 ^ nat (x - 9))"
  have "in_decade x n d \<and> \<not> in_decade (x + 1) n d"
    unfolding x_def using range by (intro decade_search) (simp_all add: in_decade_real [OF d] v_def)
  then have x: "10 powi x \<le> v" "v < 10 powi (x + 1)" by (simp_all add: in_decade_real [OF d] v_def)
  have D: "0 < d * 10 ^ nat (x - 9)" using d by simp
  have y: "of_int (n * 10 ^ nat (9 - x)) / of_int (d * 10 ^ nat (x - 9)) = v * 10 powi (9 - x)"
    unfolding v_def by (cases "x \<le> 9") (simp_all add: power_int_def field_simps)
  have near: "\<bar>of_int h - v * 10 powi (9 - x)\<bar> \<le> 1 / 2"
    unfolding h_def y [symmetric] by (rule half_even_near [OF D])
  have e: "10 powi x * 10 powi (9 - x) = (10 ^ 9 :: real)" "10 powi (x + 1) * 10 powi (9 - x) = (10 ^ 10 :: real)"
    "10 powi (9 - x) * 10 powi (x - 9) = (1 :: real)"
    by (simp_all add: power_int_add [symmetric])
  have lo: "10 ^ 9 \<le> v * 10 powi (9 - x)" and hi: "v * 10 powi (9 - x) < 10 ^ 10"
    using mult_right_mono [OF x(1), of "10 powi (9 - x)"] mult_strict_right_mono [OF x(2), of "10 powi (9 - x)"] unfolding e by simp_all
  have "real_of_int h < 10 ^ 10 + 1" using near hi by linarith
  then have "real_of_int h < of_int (10 ^ 10 + 1)" by (simp only: of_int_add of_int_power of_int_numeral of_int_1)
  then have "h < 10 ^ 10 + 1" by (simp only: of_int_less_iff)
  moreover have "10 ^ 9 \<le> h" unfolding h_def by (rule half_even_ge [OF D]) (use lo in \<open>simp only: y of_int_power of_int_numeral\<close>)
  ultimately have h: "10 ^ 9 \<le> h" "h \<le> 10 ^ 10" by simp_all
  have "\<bar>of_int h * 10 powi (x - 9) - v\<bar> = \<bar>of_int h - v * 10 powi (9 - x)\<bar> * 10 powi (x - 9)"
  proof -
    have "of_int h * 10 powi (x - 9) - v = (of_int h - v * 10 powi (9 - x)) * 10 powi (x - 9)"
      using e(3) by (simp only: left_diff_distrib mult.assoc mult_1_right)
    then show ?thesis by (simp only: abs_mult) simp
  qed
  also have "\<dots> \<le> 1 / 2 * 10 powi (x - 9)" using near by (intro mult_right_mono) simp_all
  also have "\<dots> \<le> v / (2 * 10 ^ 9)" using x(1) by (simp add: power_int_diff field_simps)
  finally have err: "\<bar>of_int h * 10 powi (x - 9) - v\<bar> \<le> v / (2 * 10 ^ 9)" .
  have s: "significand n d = (if h = 10 ^ 10 then (10 ^ 9, x + 1) else (h, x))"
    by (simp add: significand_def Let_def x_def h_def)
  show thesis
  proof (cases "h = 10 ^ 10")
    case True
    have "10 powi (x + 1 - 9) = (10 * 10 powi (x - 9) :: real)" using power_int_add [of "10 :: real" "x - 9" 1] by (simp add: algebra_simps)
    then have "of_int (10 ^ 9) * 10 powi (x + 1 - 9) = (of_int h * 10 powi (x - 9) :: real)" using True by simp
    then show thesis using True s err by (intro that [of "10 ^ 9" "x + 1"]) simp_all
  next
    case False
    then show thesis using s err h by (intro that [of h x]) simp_all
  qed
qed

subsection \<open>Reading what %.10g prints\<close>

lemma digit_chars: "isdigit c \<Longrightarrow> c \<noteq> CHR ''e'' \<and> c \<noteq> CHR ''-'' \<and> c \<noteq> CHR ''+'' \<and> c \<noteq> CHR ''.''"
  by (auto simp: isdigit_def char_code_def)

lemma scan_minus: "scan_sign (CHR ''-'' # s) = (True, s)"
  by (simp add: scan_sign_def)

lemma point_chars:
  assumes "list_all isdigit i" "i \<noteq> []" "list_all isdigit f"
  shows "list_all (\<lambda>c. c \<noteq> CHR ''e'') (with_point i f)" "scan_sign (with_point i f @ s) = (False, with_point i f @ s)"
proof -
  show "list_all (\<lambda>c. c \<noteq> CHR ''e'') (with_point i f)"
    using assms digit_chars by (auto simp: with_point_def list_all_iff)
  obtain c i' where "i = c # i'" using assms(2) by (cases i) auto
  then show "scan_sign (with_point i f @ s) = (False, with_point i f @ s)"
    using assms(1) digit_chars [of c] by (simp add: scan_sign_def with_point_def)
qed

lemma signed_decimal_exponent: "signed_decimal (exponent_digits x) = x"
proof -
  have z: "decimal (CHR ''0'' # s) = decimal s" for s by (simp add: decimal_def char_code_def)
  show ?thesis using show_nat_digits [of "nat \<bar>x\<bar>"]
    by (auto simp: signed_decimal_def exponent_digits_def Let_def scan_sign_def z)
qed

lemma until_e: "list_all (\<lambda>c. c \<noteq> CHR ''e'') s \<Longrightarrow> takeWhile (\<lambda>c. c \<noteq> CHR ''e'') s = s \<and> dropWhile (\<lambda>c. c \<noteq> CHR ''e'') s = []"
  by (induction s) auto

lemma decimal_value_texts:
  assumes "list_all isdigit i" "i \<noteq> []" "list_all isdigit f" "sg = [] \<or> sg = ''-''"
  shows "decimal_value (sg @ with_point i f) = (if sg = [] then 1 else - 1) * fixed_value (with_point i f)"
    and "decimal_value (sg @ with_point i f @ CHR ''e'' # exponent_digits x) =
      (if sg = [] then 1 else - 1) * fixed_value (with_point i f) * 10 powi x"
proof -
  note p = point_chars [OF assms(1-3)]
  have e: "takeWhile (\<lambda>c. c \<noteq> CHR ''e'') (with_point i f) = with_point i f" "dropWhile (\<lambda>c. c \<noteq> CHR ''e'') (with_point i f) = []"
    using until_e [OF p(1)] by blast+
  have E: "takeWhile (\<lambda>c. c \<noteq> CHR ''e'') (with_point i f @ CHR ''e'' # s) = with_point i f"
    "dropWhile (\<lambda>c. c \<noteq> CHR ''e'') (with_point i f @ CHR ''e'' # s) = CHR ''e'' # s" for s
    using takeWhile_all [OF p(1), of "CHR ''e''" s] by simp_all
  have s: "scan_sign (sg @ with_point i f @ s) = (sg \<noteq> [], with_point i f @ s)" for s
    using assms(4) p(2) [of s] by (auto simp: scan_minus)
  have z: "signed_decimal (tl []) = 0" by (simp add: signed_decimal_def scan_sign_def)
  show "decimal_value (sg @ with_point i f) = (if sg = [] then 1 else - 1) * fixed_value (with_point i f)"
    using s [of "[]"] by (simp add: decimal_value_def e z del: list.sel)
  show "decimal_value (sg @ with_point i f @ CHR ''e'' # exponent_digits x) =
      (if sg = [] then 1 else - 1) * fixed_value (with_point i f) * 10 powi x"
    using s [of "CHR ''e'' # exponent_digits x"] by (simp add: decimal_value_def E signed_decimal_exponent)
qed

lemma no_zeros_digits: "list_all isdigit s \<Longrightarrow> list_all isdigit (no_zeros s)"
  using no_zeros_split [of s] by (metis list_all_append)

lemma list_all_take_drop: "list_all P s \<Longrightarrow> list_all P (take k s) \<and> list_all P (drop k s)"
  by (metis append_take_drop_id list_all_append)

text \<open>The text is the ten digits with their power of ten, whichever notation is chosen.\<close>

lemma general10_digits:
  assumes "significand n d = (k, x)" "0 \<le> k" "k < 10 ^ 10" "sg = [] \<or> sg = ''-''"
  shows "decimal_value (sg @ general10 n d) = (if sg = [] then 1 else - 1) * (of_int k * 10 powi (x - 9))"
proof -
  let ?ds = "pad 10 (nat k)"
  have k: "real (decimal ?ds) = of_int k" using assms(2,3) by (simp add: decimal_pad)
  have l: "length ?ds = 10" by simp
  have td: "list_all isdigit (take j ?ds)" "list_all isdigit (drop j ?ds)" for j using list_all_take_drop [OF pad_digits] by blast+
  have ne: "take (Suc j) ?ds \<noteq> []" for j using l by (cases ?ds) simp_all
  have v: "fixed_value (with_point (take (Suc j) ?ds) (no_zeros (drop (Suc j) ?ds))) = of_int k * 10 powi (int j - 9)" if "j < 10" for j
  proof -
    have "fixed_value (with_point (take (Suc j) ?ds) (no_zeros (drop (Suc j) ?ds))) = of_int k / 10 ^ (9 - j)"
      using fixed_value_no_zeros [OF td] by (simp add: k)
    also have "(10 :: real) ^ (9 - j) = 10 powi (9 - int j)" using that by (simp add: power_int_def nat_diff_distrib)
    finally show ?thesis by (simp add: power_int_diff field_simps)
  qed
  note texts = decimal_value_texts [OF td(1) ne no_zeros_digits [OF td(2)] assms(4)]
  consider (large) "0 \<le> x" "x < 10" | (small) "- 4 \<le> x" "x < 0" | (exp) "\<not> (- 4 \<le> x \<and> x < 10)" by linarith
  then show ?thesis
  proof cases
    case large
    then have "general10 n d = with_point (take (Suc (nat x)) ?ds) (no_zeros (drop (Suc (nat x)) ?ds))"
      by (simp add: general10_def assms(1) Let_def)
    then show ?thesis using large v [of "nat x"] by (simp only: texts) simp
  next
    case small
    let ?z = "replicate (nat (- x - 1)) (CHR ''0'') @ ?ds"
    have z: "list_all isdigit ?z" "list_all isdigit ''0''" "''0'' \<noteq> []"
      using pad_digits [of 10 "nat k"] by (auto simp: list_all_iff isdigit_def char_code_def)
    have "general10 n d = with_point ''0'' (no_zeros ?z)" using small by (simp add: general10_def assms(1) Let_def)
    moreover have "fixed_value (with_point ''0'' (no_zeros ?z)) = of_int k / 10 ^ nat (9 - x)"
    proof -
      have "decimal (''0'' @ ?z) = decimal ?ds" proof -
        have "decimal ''0'' = 0" by (simp add: decimal_def char_code_def)
        then show ?thesis by (simp only: decimal_append decimal_zeros mult_0 add_0)
      qed
      moreover have "length ?z = nat (9 - x)" using small by simp
      ultimately show ?thesis unfolding fixed_value_no_zeros [OF z(2,1)] by (simp only: k)
    qed
    moreover have "of_int k / 10 ^ nat (9 - x) = (of_int k * 10 powi (x - 9) :: real)"
      using small by (simp add: power_int_def field_simps)
    ultimately show ?thesis using decimal_value_texts(1) [OF z(2,3) no_zeros_digits [OF z(1)] assms(4)] by simp
  next
    case exp
    then have "general10 n d = with_point (take (Suc 0) ?ds) (no_zeros (drop (Suc 0) ?ds)) @ CHR ''e'' # exponent_digits x"
      by (auto simp: general10_def assms(1) Let_def)
    then have "decimal_value (sg @ general10 n d) = (if sg = [] then 1 else - 1) * (of_int k * 10 powi (- 9)) * 10 powi x"
      using v [of 0] by (simp only: texts) simp
    moreover have "10 powi (x - 9) = (10 powi (- 9) * 10 powi x :: real)"
      by (subst power_int_add [symmetric]) simp_all
    ultimately show ?thesis by (simp only: mult.assoc)
  qed
qed

text \<open>So \<open>%.10g\<close> is off by a factor of at most \<open>5 / 10 ^ 10\<close>.\<close>

lemma general10_value:
  fixes n d :: int
  defines "v \<equiv> real_of_int n / of_int d"
  assumes "0 < d" "10 powi (- 50) \<le> v" "v < 10 powi 51" "sg = [] \<or> sg = ''-''"
  shows "\<bar>decimal_value (sg @ general10 n d) - (if sg = [] then 1 else - 1) * v\<bar> \<le> v / (2 * 10 ^ 9)"
proof -
  obtain k x where k: "significand n d = (k, x)" "10 ^ 9 \<le> k" "k < 10 ^ 10" "\<bar>of_int k * 10 powi (x - 9) - v\<bar> \<le> v / (2 * 10 ^ 9)"
    using significand_value assms(2-4) unfolding v_def by blast
  then have "decimal_value (sg @ general10 n d) = (if sg = [] then 1 else - 1) * (of_int k * 10 powi (x - 9))"
    using assms(5) by (intro general10_digits) simp_all
  then show ?thesis using k(4) by (simp add: abs_minus_commute)
qed

end
