(* ===== verification/Bits.thy ===== *)
theory Bits
  imports CPrelude
begin

section \<open>The bit puzzles of the data lab (bits.c)\<close>

text \<open>
  The solutions of \<^verbatim>\<open>labs/datalab-handout/bits.c\<close>, translated expression by
  expression: \<open>int\<close> is \<open>32 word\<close>, \<open>+\<close> wraps, \<open>~\<close> is \<open>NOT\<close>, \<open>!\<close> is \<open>c_lnot\<close>, a
  shift whose amount is not a constant goes through \<open>c_shl\<close> and \<open>c_sar\<close>, which are
  \<open>None\<close> where C leaves the shift undefined. The lemmas here are the bit-level facts;
  the comparison with the reference solutions is in the theory of tests.c.
\<close>

subsection \<open>The functions\<close>

definition minusOne :: cint where
  "minusOne = NOT 0"

definition isZero :: "cint \<Rightarrow> cint" where
  "isZero x = c_lnot x"

definition getByte :: "cint \<Rightarrow> cint \<Rightarrow> cint option" where
  "getByte x n = do {
     times \<leftarrow> c_shl n 3;
     x \<leftarrow> c_sar x times;
     Some (x AND 0xFF) }"

definition negate :: "cint \<Rightarrow> cint" where
  "negate x = NOT x + 1"

definition addOK :: "cint \<Rightarrow> cint \<Rightarrow> cint" where
  "addOK x y =
     (let s = x + y;
          shift = push_bit 24 0x80;
          signOfSum = s AND shift;
          signOfX = x AND shift;
          signOfY = y AND shift;
          sumMatchesX = signOfSum XOR NOT signOfX;
          sumMatchesY = signOfSum XOR NOT signOfY;
          sumMatchesX = sumMatchesX AND shift;
          sumMatchesY = sumMatchesY AND shift
      in c_lnot (c_lnot (sumMatchesX OR sumMatchesY)))"

definition bitMask :: "cint \<Rightarrow> cint \<Rightarrow> cint option" where
  "bitMask highbit lowbit = do {
     let y = highbit XOR 31;
     let x = push_bit 24 0x80;
     x \<leftarrow> c_sar x (32 + NOT lowbit);
     let y = c_lnot (c_lnot y);
     y \<leftarrow> c_sar (push_bit 31 y) (32 + NOT highbit);
     let y = push_bit 1 y;
     let y = NOT y;
     Some (x AND y) }"

definition absVal :: "cint \<Rightarrow> cint" where
  "absVal x =
     (let signBitMask = push_bit 24 0x80;
          signBit = signed_drop_bit 31 (x AND signBitMask);
          ifNegative = signBit AND (NOT x + 1);
          ifPositive = NOT signBit AND x
      in ifNegative + ifPositive)"

definition greatestBitPos :: "cint \<Rightarrow> cint option" where
  "greatestBitPos x = do {
     let shift = 0;
     let mask3 = 0xFF;
     let mask3 = push_bit 24 mask3;
     let mask2 = signed_drop_bit 8 mask3;
     let mask1 = signed_drop_bit 8 mask2;
     let shift = shift + push_bit 3 (c_lnot (c_lnot (x AND mask1)));
     let shift = shift + push_bit 3 (c_lnot (c_lnot (x AND mask2)));
     let shift = shift + push_bit 3 (c_lnot (c_lnot (x AND mask3)));
     v \<leftarrow> c_sar x shift;
     let signif = v AND 0xFF;
     let shift = shift + push_bit 2 (c_lnot (c_lnot (signif AND 0xF0)));
     v \<leftarrow> c_sar x shift;
     let signif = v AND 0x0F;
     let shift = shift + push_bit 1 (c_lnot (c_lnot (signif AND 0x0C)));
     v \<leftarrow> c_sar x shift;
     let signif = v AND 0x3;
     let shift = shift + c_lnot (c_lnot (signif AND 0x2));
     v \<leftarrow> c_sar x shift;
     let signif = v AND 0x1;
     c_shl signif shift }"

subsection \<open>Masks, sign bits and shifts\<close>

lemma and_exp_eq: "x AND push_bit k 1 = (if bit x k then push_bit k 1 else 0)"
  for x :: "'a::len word"
  by (auto intro!: bit_word_eqI simp: bit_simps)

lemma exp_neq_0: "m < 32 \<Longrightarrow> push_bit m 1 \<noteq> (0 :: cint)"
  by (simp add: push_bit_eq_mult)

lemma xor_eq_0_iff: "x XOR y = 0 \<longleftrightarrow> x = y" for x y :: "'a::len word"
  by (metis xor.assoc xor.right_neutral xor_self_eq xor.left_neutral)

lemma sign_mask: "push_bit 24 0x80 = (push_bit 31 1 :: cint)"
  by simp

lemma sign_bit_iff: "bit x 31 \<longleftrightarrow> sint x < 0" for x :: cint
  using bit_last_iff [of x] by simp

lemma sar_31: "signed_drop_bit 31 x = (if bit x 31 then - 1 else 0)" for x :: cint
  by (rule bit_word_eqI) (auto simp: bit_simps not_less_eq_eq split: if_splits)

lemma sar_sign_bit: "l < 32 \<Longrightarrow> signed_drop_bit (31 - l) (push_bit 31 1 :: cint) = push_bit l (- 1)"
  by (rule bit_word_eqI)
    (simp only: bit_signed_drop_bit_iff bit_push_bit_iff bit_1_iff bit_minus_1_iff
      possible_bit_word; auto split: if_splits)

lemma sint_cint_bounds: "- (2 ^ 31) \<le> sint x" "sint x < 2 ^ 31" for x :: cint
  using sint_range_size [of x] by (simp_all add: word_size)

lemma sint_of_nat_small: "k \<le> 32 \<Longrightarrow> sint (of_nat k :: cint) = int k"
  by (simp add: signed_of_nat signed_take_bit_int_eq_self)

lemma masks_of_greatestBitPos:
  "push_bit 24 (0xFF :: cint) = push_bit 24 (- 1)"
  "signed_drop_bit 8 (push_bit 24 (- 1 :: cint)) = push_bit 16 (- 1)"
  "signed_drop_bit 8 (push_bit 16 (- 1 :: cint)) = push_bit 8 (- 1)"
  "(0xF0 :: cint) = push_bit 4 (mask 4)"
  "(0x0C :: cint) = push_bit 2 (mask 2)"
  "(0x02 :: cint) = push_bit 1 (mask 1)"
  by (simp_all add: mask_eq_exp_minus_1)

subsection \<open>addOK: the sign of the sum decides\<close>

lemma sign_match:
  "(s AND push_bit k 1) XOR NOT (x AND push_bit k 1) =
     (if bit s k = bit x k then - 1 else NOT (push_bit k 1))" for s x :: "'a::len word"
  by (rule bit_word_eqI) (auto simp: bit_simps)

lemma addOK_signs:
  "addOK x y = c_bool (bit (x + y) 31 = bit x 31 \<or> bit (x + y) 31 = bit y 31)"
  unfolding addOK_def Let_def sign_mask c_lnot_c_lnot sign_match by simp

lemma addOK_range:
  "addOK x y = c_bool (- (2 ^ 31) \<le> sint x + sint y \<and> sint x + sint y < 2 ^ 31)"
proof -
  let ?s = "sint x + sint y"
  note b = sint_cint_bounds [of x] sint_cint_bounds [of y]
  have s: "sint (x + y) = signed_take_bit 31 ?s" by (simp add: sint_word_add)
  consider "?s < - (2 ^ 31)" | "2 ^ 31 \<le> ?s" | "- (2 ^ 31) \<le> ?s" "?s < 2 ^ 31" by linarith
  then show ?thesis
  proof cases
    case 1
    then have "?s + 2 ^ Suc 31 \<le> sint (x + y)"
      unfolding s by (rule signed_take_bit_int_greater_eq)
    with 1 b show ?thesis unfolding addOK_signs sign_bit_iff by simp
  next
    case 2
    then have "sint (x + y) \<le> ?s - 2 ^ Suc 31"
      unfolding s by (rule signed_take_bit_int_less_eq)
    with 2 b show ?thesis unfolding addOK_signs sign_bit_iff by simp
  next
    case 3
    then have "sint (x + y) = ?s" unfolding s by (rule signed_take_bit_int_eq_self)
    then have "(sint (x + y) < 0) = (sint x < 0) \<or> (sint (x + y) < 0) = (sint y < 0)"
      by linarith
    with 3 show ?thesis unfolding addOK_signs sign_bit_iff by simp
  qed
qed

subsection \<open>absVal: select by the sign\<close>

lemma absVal_select: "absVal x = (if sint x < 0 then - x else x)"
proof (cases "sint x < 0")
  case True
  then have "signed_drop_bit 31 (x AND push_bit 31 1) = - 1"
    by (simp only: sar_31 and_exp_eq sign_bit_iff [symmetric] bit_push_bit_iff) simp
  with True show ?thesis
    unfolding absVal_def Let_def sign_mask using minus_eq_not_plus_1 [of x] by simp
next
  case False
  then have "signed_drop_bit 31 (x AND push_bit 31 1) = 0"
    by (simp only: sar_31 and_exp_eq sign_bit_iff [symmetric]) simp
  with False show ?thesis unfolding absVal_def Let_def sign_mask by simp
qed

subsection \<open>bitMask: two arithmetic shifts of the sign bit\<close>

lemma sub_from_31: "l < 32 \<Longrightarrow> 32 + NOT (of_nat l :: cint) = of_nat (31 - l)"
  by (simp add: not_eq_complement of_nat_diff)

lemma xor_31_iff: "h < 32 \<Longrightarrow> (of_nat h XOR 31 \<noteq> (0 :: cint)) \<longleftrightarrow> h \<noteq> 31"
  unfolding xor_eq_0_iff by (simp add: word_unat_eq_iff unat_of_nat)

lemma bitMask_mask:
  assumes h: "h < 32" and l: "l < 32"
  shows "bitMask (of_nat h) (of_nat l) = Some (push_bit l (mask (Suc h - l)))"
proof -
  have lt: "31 - l < 32" "31 - h < 32" by simp_all
  have "bitMask (of_nat h) (of_nat l) =
      Some (push_bit l (- 1) AND
        NOT (push_bit 1 (signed_drop_bit (31 - h) (push_bit 31 (c_bool (h \<noteq> 31))))))"
    unfolding bitMask_def Let_def c_lnot_c_lnot sub_from_31 [OF h] sub_from_31 [OF l]
      xor_31_iff [OF h] sign_mask
    by (simp only: c_sar_of_nat [OF lt(1)] c_sar_of_nat [OF lt(2)] Option.bind.bind_lunit
        sar_sign_bit [OF l])
  moreover have "push_bit 1 (signed_drop_bit (31 - h) (push_bit 31 (c_bool (h \<noteq> 31)))) =
      push_bit (Suc h) (- 1 :: cint)"
  proof (cases "h = 31")
    case True
    have "push_bit 32 (- 1) = (0 :: cint)"
      by (rule bit_word_eqI) (simp only: bit_push_bit_iff; simp)
    with True show ?thesis by simp
  next
    case False
    then show ?thesis
      by (simp only: c_bool_simps simp_thms sar_sign_bit [OF h] push_bit_push_bit) simp
  qed
  moreover have "push_bit l (- 1) AND NOT (push_bit (Suc h) (- 1)) =
      (push_bit l (mask (Suc h - l)) :: cint)"
    by (auto intro!: bit_word_eqI simp: bit_simps)
  ultimately show ?thesis by simp
qed

subsection \<open>greatestBitPos: a binary search for the top bit\<close>

definition top_bit :: "'a::len word \<Rightarrow> nat \<Rightarrow> bool" where
  "top_bit x m \<longleftrightarrow> bit x m \<and> (\<forall>k>m. \<not> bit x k)"

lemma top_bit_Max:
  fixes x :: "'a::len word"
  assumes "x \<noteq> 0"
  shows "top_bit x (Max {k. bit x k})" and "Max {k. bit x k} < LENGTH('a)"
proof -
  have ne: "{k. bit x k} \<noteq> {}"
    using assms by (metis bit_eq_iff bit_0_eq bot_apply mem_Collect_eq bot_bool_def all_not_in_conv)
  have fin: "finite {k. bit x k}"
    by (rule finite_subset [of _ "{..<LENGTH('a)}"]) (auto dest: bit_imp_le_length)
  let ?m = "Max {k. bit x k}"
  have m: "bit x ?m" using Max_in [OF fin ne] by simp
  have "\<not> bit x k" if "?m < k" for k
    by (metis Max_ge fin mem_Collect_eq not_less that)
  with m show "top_bit x ?m" unfolding top_bit_def by blast
  from m show "?m < LENGTH('a)" by (rule bit_imp_le_length)
qed

text \<open>Testing the high part of the word, and testing the upper half of a window.\<close>

lemma high_part_iff:
  assumes "top_bit (x :: cint) m"
  shows "x AND push_bit k (- 1) \<noteq> 0 \<longleftrightarrow> k \<le> m"
proof -
  have *: "bit (x AND push_bit k (- 1)) j \<longleftrightarrow> k \<le> j \<and> bit x j" for j
    by (auto simp: bit_simps dest: bit_imp_le_length)
  show ?thesis
  proof
    assume "x AND push_bit k (- 1) \<noteq> 0"
    then obtain j where "k \<le> j" "bit x j" unfolding bit_eq_iff * by auto
    with assms show "k \<le> m" unfolding top_bit_def by (meson leI order_trans)
  next
    assume "k \<le> m"
    with assms have "bit (x AND push_bit k (- 1)) m" unfolding * top_bit_def by simp
    then show "x AND push_bit k (- 1) \<noteq> 0" by (metis bit_0_eq bot_apply bot_bool_def)
  qed
qed

lemma upper_half_iff:
  assumes top: "top_bit (x :: cint) m" and "m < s + 2 * h" and w: "s + 2 * h \<le> 32"
    and "s \<le> m" and w_eq: "w = 2 * h"
  shows "take_bit w (signed_drop_bit s x) AND push_bit h (mask h) \<noteq> 0 \<longleftrightarrow> s + h \<le> m"
proof -
  have *: "bit (take_bit w (signed_drop_bit s x) AND push_bit h (mask h)) k \<longleftrightarrow>
      h \<le> k \<and> k < 2 * h \<and> bit x (s + k)" for k
    using w unfolding w_eq by (auto simp: bit_simps ac_simps)
  show ?thesis
  proof
    assume "s + h \<le> m"
    then have "bit (take_bit w (signed_drop_bit s x) AND push_bit h (mask h)) (m - s)"
      using assms unfolding * by (auto simp: top_bit_def)
    then show "take_bit w (signed_drop_bit s x) AND push_bit h (mask h) \<noteq> 0"
      by (metis bit_0_eq bot_apply bot_bool_def)
  next
    assume "take_bit w (signed_drop_bit s x) AND push_bit h (mask h) \<noteq> 0"
    then obtain k where "h \<le> k \<and> k < 2 * h \<and> bit x (s + k)" unfolding bit_eq_iff * by auto
    then show "s + h \<le> m" using top unfolding top_bit_def by (meson add_le_cancel_left leI order_trans)
  qed
qed

lemma add_c_bool:
  "of_nat s + push_bit k (c_bool P) = (of_nat (s + (if P then 2 ^ k else 0)) :: cint)"
  "of_nat s + c_bool P = (of_nat (s + of_bool P) :: cint)"
  by (auto simp: c_bool_def push_bit_eq_mult)

lemma top_bit_alone:
  assumes "top_bit (x :: cint) m" and "m < 32"
  shows "push_bit m (take_bit 1 (signed_drop_bit m x)) = push_bit m 1"
proof -
  have "odd (signed_drop_bit m x)"
    unfolding bit_0 [symmetric] bit_signed_drop_bit_iff using assms by (simp add: top_bit_def)
  then have "take_bit 1 (signed_drop_bit m x) = 1"
    by (simp add: take_bit_Suc odd_iff_mod_2_eq_one)
  then show ?thesis by simp
qed

lemma greatestBitPos_top_bit:
  assumes top: "top_bit x m" and m: "m < 32"
  shows "greatestBitPos x = Some (push_bit m 1)"
proof -
  define s1 s2 s3 where "s1 = 8 * (m div 8)" and "s2 = 4 * (m div 4)" and "s3 = 2 * (m div 2)"
  note s_defs = s1_def s2_def s3_def
  have sh1: "(0 :: cint) + push_bit 3 (c_bool (8 \<le> m)) + push_bit 3 (c_bool (16 \<le> m))
      + push_bit 3 (c_bool (24 \<le> m)) = of_nat s1"
  proof -
    have "s1 = 0 + (if 8 \<le> m then 2 ^ 3 else 0) + (if 16 \<le> m then 2 ^ 3 else 0)
        + (if 24 \<le> m then 2 ^ 3 else 0)"
      using m unfolding s1_def by auto
    moreover have "(0 :: cint) + push_bit 3 (c_bool P) = of_nat (0 + (if P then 2 ^ 3 else 0))" for P
      using add_c_bool(1) [of 0] by simp
    ultimately show ?thesis by (simp only: add_c_bool)
  qed
  have h1: "take_bit 8 (signed_drop_bit s1 x) AND push_bit 4 (mask 4) \<noteq> 0 \<longleftrightarrow> s1 + 4 \<le> m"
    by (rule upper_half_iff [OF top]) (use m in \<open>auto simp: s1_def\<close>)
  have h2: "take_bit 4 (signed_drop_bit s2 x) AND push_bit 2 (mask 2) \<noteq> 0 \<longleftrightarrow> s2 + 2 \<le> m"
    by (rule upper_half_iff [OF top]) (use m in \<open>auto simp: s2_def\<close>)
  have h3: "take_bit 2 (signed_drop_bit s3 x) AND push_bit 1 (mask 1) \<noteq> 0 \<longleftrightarrow> s3 + 1 \<le> m"
    by (rule upper_half_iff [OF top]) (use m in \<open>auto simp: s3_def\<close>)
  have next_s: "s1 + (if s1 + 4 \<le> m then 2 ^ 2 else 0) = s2"
      "s2 + (if s2 + 2 \<le> m then 2 ^ 1 else 0) = s3" "s3 + of_bool (s3 + 1 \<le> m) = m"
    by (simp_all add: s_defs) presburger+
  have lt: "s1 < 32" "s2 < 32" "s3 < 32" using m unfolding s_defs by auto
  show ?thesis
    unfolding greatestBitPos_def Let_def c_lnot_c_lnot masks_of_greatestBitPos and_low_mask
      high_part_iff [OF top] sh1 Option.bind.bind_lunit add_c_bool
      c_sar_of_nat [OF lt(1)] h1 next_s c_sar_of_nat [OF lt(2)] h2 c_sar_of_nat [OF lt(3)] h3
      c_sar_of_nat [OF m] c_shl_of_nat [OF m] top_bit_alone [OF assms] ..
qed

lemma greatestBitPos_eq:
  "greatestBitPos x = Some (if x = 0 then 0 else push_bit (Max {k. bit x k}) 1)"
proof (cases "x = 0")
  case True
  then show ?thesis by (simp add: greatestBitPos_def c_ops)
next
  case False
  with top_bit_Max [OF False] show ?thesis by (simp add: greatestBitPos_top_bit)
qed

end
