(* ===== verification/BitTests.thy ===== *)
theory BitTests
  imports Bits
begin

section \<open>The reference solutions of the data lab (tests.c)\<close>

text \<open>
  \<^verbatim>\<open>labs/datalab-handout/tests.c\<close> holds, for each puzzle, the function the solution is
  compared with by btest: written with the operators the puzzle forbids (comparison,
  unary minus, 64-bit arithmetic, loops). The loops are \<^theory_text>\<open>partial_function\<close>s,
  \<open>None\<close> being a loop that does not end or an undefined shift; the theorems at the end
  compare each solution of bits.c with its reference on every input the puzzle allows.
\<close>

subsection \<open>The functions\<close>

definition test_minusOne :: cint where
  "test_minusOne = - 1"

definition test_isZero :: "cint \<Rightarrow> cint" where
  "test_isZero x = c_bool (x = 0)"

definition test_getByte :: "cint \<Rightarrow> cint \<Rightarrow> cint" where
  "test_getByte x n =
     (let b = (if n = 0 then ucast x
               else if n = 1 then ucast (signed_drop_bit 8 x)
               else if n = 2 then ucast (signed_drop_bit 16 x)
               else ucast (signed_drop_bit 24 x)) :: byte
      in ucast b)"

definition test_negate :: "cint \<Rightarrow> cint" where
  "test_negate x = - x"

definition test_addOK :: "cint \<Rightarrow> cint \<Rightarrow> cint" where
  "test_addOK x y =
     (let lsum = scast x + scast y :: 64 word
      in c_bool (lsum = scast (ucast lsum :: cint)))"

partial_function (option) test_bitMask_loop :: "cint \<Rightarrow> cint \<Rightarrow> cint \<Rightarrow> cint option" where
  "test_bitMask_loop result i highbit =
     (if i \<le>s highbit
      then Option.bind (c_shl 1 i) (\<lambda>b. test_bitMask_loop (result OR b) (i + 1) highbit)
      else Some result)"

definition test_bitMask :: "cint \<Rightarrow> cint \<Rightarrow> cint option" where
  "test_bitMask highbit lowbit = test_bitMask_loop 0 lowbit highbit"

definition test_absVal :: "cint \<Rightarrow> cint" where
  "test_absVal x = (if x <s 0 then - x else x)"

partial_function (option) test_greatestBitPos_loop :: "uint32 \<Rightarrow> cint \<Rightarrow> uint32 option" where
  "test_greatestBitPos_loop m x =
     (if m AND x = 0 then test_greatestBitPos_loop (drop_bit 1 m) x else Some m)"

definition test_greatestBitPos :: "cint \<Rightarrow> cint option" where
  "test_greatestBitPos x =
     (if x = 0 then Some 0 else test_greatestBitPos_loop (push_bit 31 1) x)"

subsection \<open>What the references compute\<close>

lemma sint_scast_64: "sint (scast x :: 64 word) = sint x" for x :: cint
  by (simp add: sint_up_scast is_up)

lemma sint_truncated:
  "sint (scast (ucast v :: cint) :: 64 word) = signed_take_bit 31 (sint v)" for v :: "64 word"
  unfolding sint_scast_64 by transfer (simp add: signed_take_bit_take_bit)

lemma test_addOK_range:
  "test_addOK x y = c_bool (- (2 ^ 31) \<le> sint x + sint y \<and> sint x + sint y < 2 ^ 31)"
proof -
  let ?l = "scast x + scast y :: 64 word"
  have l: "sint ?l = sint x + sint y"
    using sint_cint_bounds [of x] sint_cint_bounds [of y]
    by (simp add: sint_word_add sint_scast_64 signed_take_bit_int_eq_self)
  have "?l = scast (ucast ?l :: cint) \<longleftrightarrow> sint (scast (ucast ?l :: cint) :: 64 word) = sint ?l"
    by (metis signed_word_eqI)
  then show ?thesis
    unfolding test_addOK_def Let_def by (simp only: sint_truncated l signed_take_bit_int_eq_self_iff)
qed

lemma byte_cast: "w AND 0xFF = ucast (ucast w :: byte)" for w :: cint
  unfolding and_low_mask by (auto intro!: bit_word_eqI simp: bit_simps)

lemma test_bitMask_loop_mask:
  "h < 32 \<Longrightarrow> l \<le> Suc h \<Longrightarrow>
   test_bitMask_loop r (of_nat l) (of_nat h) = Some (r OR push_bit l (mask (Suc h - l)))"
proof (induction "Suc h - l" arbitrary: l r)
  case 0
  then have l: "l = Suc h" by simp
  then have "\<not> (of_nat l :: cint) \<le>s of_nat h"
    using 0(2) by (simp add: word_sle_eq sint_of_nat_small del: of_nat_Suc)
  then show ?case using l by (simp add: test_bitMask_loop.simps)
next
  case (Suc d)
  then have l: "l \<le> h" by simp
  then have "(of_nat l :: cint) \<le>s of_nat h"
    using Suc.prems by (simp add: word_sle_eq sint_of_nat_small)
  moreover have "test_bitMask_loop (r OR push_bit l 1) (of_nat (Suc l)) (of_nat h) =
      Some ((r OR push_bit l 1) OR push_bit (Suc l) (mask (Suc h - Suc l)))"
    by (rule Suc.hyps(1)) (use Suc.prems Suc.hyps(2) in auto)
  moreover have "push_bit l 1 OR push_bit (Suc l) (mask (Suc h - Suc l)) =
      (push_bit l (mask (Suc h - l)) :: cint)"
    using l by (intro bit_word_eqI)
      (simp only: bit_or_iff bit_push_bit_iff bit_mask_iff bit_1_iff possible_bit_word; auto)
  ultimately show ?case using l Suc.prems
    by (simp add: test_bitMask_loop.simps [of r "of_nat l"] ac_simps)
qed

lemma test_bitMask_mask:
  assumes "h < 32" and "l < 32"
  shows "test_bitMask (of_nat h) (of_nat l) = Some (push_bit l (mask (Suc h - l)))"
proof (cases "l \<le> Suc h")
  case True
  with assms show ?thesis by (simp add: test_bitMask_def test_bitMask_loop_mask)
next
  case False
  then have "\<not> (of_nat l :: cint) \<le>s of_nat h"
    using assms by (simp add: word_sle_eq sint_of_nat_small)
  with False show ?thesis
    by (simp add: test_bitMask_def test_bitMask_loop.simps [of 0 "of_nat l"])
qed

lemma test_greatestBitPos_loop_top_bit:
  "top_bit x m \<Longrightarrow> m + d < 32 \<Longrightarrow>
   test_greatestBitPos_loop (push_bit (m + d) 1) x = Some (push_bit m 1)"
proof (induction d)
  case 0
  then have "push_bit m 1 AND x \<noteq> 0"
    using and_exp_eq [of x m] by (simp add: and.commute top_bit_def exp_neq_0)
  then show ?case by (simp add: test_greatestBitPos_loop.simps)
next
  case (Suc d)
  then have "\<not> bit x (m + Suc d)" by (simp add: top_bit_def)
  then have "push_bit (m + Suc d) 1 AND x = 0"
    using and_exp_eq [of x "m + Suc d"] by (simp add: and.commute)
  moreover have "drop_bit 1 (push_bit (m + Suc d) 1 :: cint) = push_bit (m + d) 1"
    using Suc.prems(2) by (auto intro!: bit_word_eqI simp: bit_simps)
  moreover have "test_greatestBitPos_loop (push_bit (m + d) 1) x = Some (push_bit m 1)"
    using Suc by simp
  ultimately show ?case
    by (subst test_greatestBitPos_loop.simps) (simp only: if_True simp_thms)
qed

lemma test_greatestBitPos_eq: "test_greatestBitPos x = greatestBitPos x"
proof (cases "x = 0")
  case True
  then show ?thesis by (simp add: test_greatestBitPos_def greatestBitPos_eq)
next
  case False
  let ?m = "Max {k. bit x k}"
  have top: "top_bit x ?m" and m: "?m < 32"
    using top_bit_Max [OF False] by simp_all
  from m have "?m + (31 - ?m) = 31" by simp
  then show ?thesis
    using test_greatestBitPos_loop_top_bit [OF top, of "31 - ?m"] m False
    by (simp only: test_greatestBitPos_def greatestBitPos_eq if_False simp_thms)
qed

lemma getByte_eq: "n \<in> {0, 1, 2, 3} \<Longrightarrow> getByte x n = Some (test_getByte x n)"
  by (auto simp: getByte_def test_getByte_def c_ops byte_cast Let_def)

lemma absVal_eq: "absVal x = test_absVal x"
  by (simp add: absVal_select test_absVal_def word_sless_alt)

lemma addOK_eq: "addOK x y = test_addOK x y"
  unfolding addOK_range test_addOK_range ..

subsection \<open>Solutions against references\<close>

text \<open>
  C5: \<open>greatestBitPos\<close> returns, for every \<open>int\<close>, a word whose only bit is the most
  significant bit of its argument (0 for 0), and agrees with the reference loop of tests.c,
  which therefore always ends; none of its variable shifts is undefined.
\<close>

theorem greatestBitPos_correct:
  "greatestBitPos x = Some (if x = 0 then 0 else push_bit (Max {k. bit x k}) 1)
   \<and> test_greatestBitPos x = greatestBitPos x"
  using greatestBitPos_eq test_greatestBitPos_eq by blast

text \<open>
  C11: \<open>bitMask\<close> on bit positions 0 to 31 is defined, agrees with the reference loop, and
  its result has exactly the bits from \<open>lowbit\<close> to \<open>highbit\<close>: none when \<open>lowbit\<close> is the
  larger.
\<close>

theorem bitMask_correct:
  assumes "uint highbit < 32" and "uint lowbit < 32"
  shows "\<exists>r. bitMask highbit lowbit = Some r \<and> test_bitMask highbit lowbit = Some r
    \<and> (\<forall>i. bit r i \<longleftrightarrow> unat lowbit \<le> i \<and> i \<le> unat highbit)"
proof -
  obtain h where h: "h < 32" "highbit = of_nat h"
    using small_word_cases [of highbit 32] assms(1) by auto
  obtain l where l: "l < 32" "lowbit = of_nat l"
    using small_word_cases [of lowbit 32] assms(2) by auto
  have "bit (push_bit l (mask (Suc h - l)) :: cint) i \<longleftrightarrow> l \<le> i \<and> i \<le> h" for i
    using h(1) by (simp only: bit_push_bit_iff bit_mask_iff possible_bit_word) auto
  then show ?thesis
    using h l by (simp add: bitMask_mask test_bitMask_mask of_nat_small_word)
qed

theorem bitMask_correct_witness:
  "uint (5 :: cint) < 32 \<and> uint (3 :: cint) < 32
   \<and> (\<exists>r. bitMask 5 3 = Some r \<and> test_bitMask 5 3 = Some r
        \<and> (\<forall>i. bit r i \<longleftrightarrow> unat (3 :: cint) \<le> i \<and> i \<le> unat (5 :: cint)))"
  using bitMask_correct [of 5 3] by simp

text \<open>
  C17: \<open>addOK\<close> returns 1 exactly when the mathematical sum of its two arguments fits in an
  \<open>int\<close>, and 0 otherwise; the 64-bit comparison of tests.c gives the same.
\<close>

theorem addOK_correct:
  "addOK x y = (if - (2 ^ 31) \<le> sint x + sint y \<and> sint x + sint y < 2 ^ 31 then 1 else 0)
   \<and> test_addOK x y = addOK x y"
  unfolding addOK_range test_addOK_range c_bool_def by simp

text \<open>
  C40: \<open>absVal\<close> agrees with the reference on every \<open>int\<close>, and is the absolute value except
  at \<open>TMin\<close>, which the puzzle excludes and which both map to itself.
\<close>

theorem absVal_correct:
  "absVal x = test_absVal x
   \<and> sint (absVal x) = (if x = TMin then - (2 ^ 31) else \<bar>sint x\<bar>)"
proof -
  note eq = absVal_eq [of x]
  have min: "sint x = - (2 ^ 31) \<longleftrightarrow> x = TMin"
    using signed_word_eqI [of x TMin] by auto
  have "sint (absVal x) = \<bar>sint x\<bar>" if "x \<noteq> TMin"
  proof -
    from that min sint_cint_bounds [of x] have "- (2 ^ 31) < sint x" by auto
    then have "signed_take_bit 31 (- sint x) = - sint x" if "sint x < 0"
      using that by (intro signed_take_bit_int_eq_self) auto
    then show ?thesis by (simp add: absVal_select sint_word_ariths)
  qed
  moreover have "sint (absVal TMin) = - (2 ^ 31)" by (simp add: absVal_select)
  ultimately show ?thesis using eq by auto
qed

text \<open>
  \<open>getByte\<close> on byte numbers 0 to 3 is defined, agrees with the reference, and is the
  byte of that number: bits 8n to 8n+7 of the argument, as a number from 0 to 255.
\<close>

theorem getByte_correct:
  assumes "n \<in> {0, 1, 2, 3}"
  shows "getByte x n = Some (test_getByte x n)
    \<and> unat (test_getByte x n) = unat x div 256 ^ unat n mod 256"
proof -
  have "getByte x n = Some (test_getByte x n)"
    using assms by (rule getByte_eq)
  moreover have "take_bit 8 (signed_drop_bit k x) = take_bit 8 (drop_bit k x)"
    if "k + 8 \<le> 32" for k
    using that by (auto intro!: bit_word_eqI simp: bit_simps split: if_splits)
  then have "unat (take_bit 8 (signed_drop_bit k x)) = take_bit 8 (drop_bit k (unat x))"
    if "k + 8 \<le> 32" for k
    using that by (simp add: unsigned_take_bit_eq unat_drop_bit_eq)
  then have "unat (take_bit 8 (signed_drop_bit k x)) = unat x div 2 ^ k mod 256"
    if "k + 8 \<le> 32" for k
    using that by (simp add: take_bit_eq_mod drop_bit_eq_div)
  from this [of 0] this [of 8] this [of 16] this [of 24]
  have "unat (test_getByte x n) = unat x div 256 ^ unat n mod 256"
    using assms by (auto simp: test_getByte_def Let_def byte_cast [symmetric] and_low_mask)
  ultimately show ?thesis by blast
qed

theorem getByte_correct_witness:
  "(1 :: cint) \<in> {0, 1, 2, 3} \<and> getByte 0x12345678 1 = Some (test_getByte 0x12345678 1)
   \<and> unat (test_getByte 0x12345678 1) = 0x56"
  using getByte_correct [of 1 "0x12345678"] by simp

end
