(* ===== verification/Memlib.thy ===== *)
theory Memlib
  imports CPrelude
begin

section \<open>The simulated memory system (memlib.c)\<close>

text \<open>
  \<^verbatim>\<open>labs/malloclab/memlib.c\<close> keeps one arena of \<open>MAX_HEAP\<close> bytes obtained from libc's
  \<open>malloc\<close> and a break pointer that \<open>mem_sbrk\<close> moves up inside it. Addresses are \<open>int\<close>
  (pointer arithmetic that would leave the 64-bit address space is outside the arena, so
  every access through it faults), the memory is a map from addresses to bytes, and
  multi-byte values are little-endian, as on x86-64. An access is allowed anywhere in the
  arena, also above the break, and faults elsewhere: the driver's and libc's own memory is
  not modelled, so a wild pointer is a fault.
\<close>

subsection \<open>Bytes and words\<close>

type_synonym memory = "int \<Rightarrow> byte"

definition get32 :: "memory \<Rightarrow> int \<Rightarrow> uint32" where
  "get32 m a = ucast (m a) OR push_bit 8 (ucast (m (a + 1)))
     OR push_bit 16 (ucast (m (a + 2))) OR push_bit 24 (ucast (m (a + 3)))"

definition put32 :: "memory \<Rightarrow> int \<Rightarrow> uint32 \<Rightarrow> memory" where
  "put32 m a v = m(a := ucast v, a + 1 := ucast (drop_bit 8 v),
     a + 2 := ucast (drop_bit 16 v), a + 3 := ucast (drop_bit 24 v))"

definition get64 :: "memory \<Rightarrow> int \<Rightarrow> uint64" where
  "get64 m a = ucast (get32 m a) OR push_bit 32 (ucast (get32 m (a + 4)))"

definition put64 :: "memory \<Rightarrow> int \<Rightarrow> uint64 \<Rightarrow> memory" where
  "put64 m a v = put32 (put32 m a (ucast v)) (a + 4) (ucast (drop_bit 32 v))"

text \<open>
  The interface through which the rest of the development uses words in memory: a read
  sees the last write at its address, a write leaves the bytes outside its footprint
  alone, and a read depends on the bytes of its footprint only.
\<close>

locale cell =
  fixes rd :: "memory \<Rightarrow> int \<Rightarrow> 'w"
    and wr :: "memory \<Rightarrow> int \<Rightarrow> 'w \<Rightarrow> memory"
    and width :: int
  assumes rd_wr_same: "rd (wr m a v) a = v"
    and wr_outside: "b < a \<or> a + width \<le> b \<Longrightarrow> wr m a v b = m b"
    and rd_local: "(\<And>b. a \<le> b \<Longrightarrow> b < a + width \<Longrightarrow> m b = m' b) \<Longrightarrow> rd m a = rd m' a"
begin

lemma rd_wr_disjoint: "a + width \<le> b \<or> b + width \<le> a \<Longrightarrow> rd (wr m a v) b = rd m b"
  by (rule rd_local, rule wr_outside) auto

lemma rd_frame:
  assumes "\<And>b. lo \<le> b \<Longrightarrow> b < hi \<Longrightarrow> m b = m' b" and "lo \<le> a" and "a + width \<le> hi"
  shows "rd m a = rd m' a"
  using assms by (intro rd_local) auto

end

text \<open>Two kinds of cells over one memory: a write of one kind and a read of the other.\<close>

locale two_cells = narrow: cell rd1 wr1 w1 + wide: cell rd2 wr2 w2
  for rd1 :: "memory \<Rightarrow> int \<Rightarrow> 'u" and wr1 and w1
    and rd2 :: "memory \<Rightarrow> int \<Rightarrow> 'v" and wr2 and w2
begin

lemma narrow_after_wide: "a + w2 \<le> b \<or> b + w1 \<le> a \<Longrightarrow> rd1 (wr2 m a v) b = rd1 m b"
  by (rule narrow.rd_local, rule wide.wr_outside) auto

lemma wide_after_narrow: "a + w1 \<le> b \<or> b + w2 \<le> a \<Longrightarrow> rd2 (wr1 m a u) b = rd2 m b"
  by (rule wide.rd_local, rule narrow.wr_outside) auto

end

lemma get32_put32: "get32 (put32 m a v) a = v"
proof (rule bit_word_eqI)
  fix n
  assume "n < LENGTH(32)"
  then consider "n < 8" | "8 \<le> n" "n < 16" | "16 \<le> n" "n < 24" | "24 \<le> n" "n < 32" by fastforce
  then show "bit (get32 (put32 m a v) a) n \<longleftrightarrow> bit v n"
    by cases (auto simp: get32_def put32_def bit_simps)
qed

lemma put32_outside: "b < a \<or> a + 4 \<le> b \<Longrightarrow> put32 m a v b = m b"
  by (auto simp: put32_def)

lemma get32_local: "(\<And>b. a \<le> b \<Longrightarrow> b < a + 4 \<Longrightarrow> m b = m' b) \<Longrightarrow> get32 m a = get32 m' a"
  by (simp add: get32_def)

interpretation c32: cell get32 put32 4
  by unfold_locales (auto intro: get32_put32 put32_outside get32_local)

interpretation c64: cell get64 put64 8
proof
  show "get64 (put64 m a v) a = v" for m a v
  proof -
    have "get32 (put64 m a v) a = ucast v" "get32 (put64 m a v) (a + 4) = ucast (drop_bit 32 v)"
      by (simp_all add: put64_def c32.rd_wr_same c32.rd_wr_disjoint)
    then show ?thesis
      unfolding get64_def by (auto intro!: bit_word_eqI simp: bit_simps)
  qed
  show "b < a \<or> a + 8 \<le> b \<Longrightarrow> put64 m a v b = m b" for m a v b
    by (auto simp: put64_def put32_outside)
  show "get64 m a = get64 m' a" if "\<And>b. a \<le> b \<Longrightarrow> b < a + 8 \<Longrightarrow> m b = m' b" for m m' a
    unfolding get64_def using that
    by (simp add: get32_local [of a m m'] get32_local [of "a + 4" m m'])
qed

interpretation c32_64: two_cells get32 put32 4 get64 put64 8
  by unfold_locales

lemmas word_mem_simps = c32.rd_wr_same c32.rd_wr_disjoint c64.rd_wr_same c64.rd_wr_disjoint
  c32_64.narrow_after_wide c32_64.wide_after_narrow

subsection \<open>The state and the operations of memlib.c\<close>

definition MAX_HEAP :: int where
  "MAX_HEAP = 2000 * 2 ^ 20"

definition ENOMEM :: cint where
  "ENOMEM = 12"

text \<open>The pointers \<open>NULL\<close> and \<open>(void *)-1\<close>.\<close>

definition NULL :: int where
  "NULL = 0"

definition SBRK_FAILED :: int where
  "SBRK_FAILED = 2 ^ 64 - 1"

record memlib =
  mem_start_brk :: int
  mem_brk :: int
  mem_max_addr :: int
  errno :: cint
  mem :: memory

text \<open>\<open>mem_init\<close> calls libc's \<open>malloc\<close>, here the argument: the address it returns.\<close>

definition mem_init :: "(int \<Rightarrow> int) \<Rightarrow> ('a memlib_scheme, unit) cmd" where
  "mem_init malloc =
     (let p = malloc MAX_HEAP
      in if p = NULL then throwE (Exit 1)
         else modifyE (\<lambda>s. s\<lparr>mem_start_brk := p, mem_max_addr := p + MAX_HEAP, mem_brk := p\<rparr>))"

definition mem_reset_brk :: "('a memlib_scheme, unit) cmd" where
  "mem_reset_brk = modifyE (\<lambda>s. s\<lparr>mem_brk := mem_start_brk s\<rparr>)"

definition mem_sbrk :: "cint \<Rightarrow> ('a memlib_scheme, int) cmd" where
  "mem_sbrk incr =
     bindE (getsE mem_brk) (\<lambda>old_brk.
     bindE (getsE mem_max_addr) (\<lambda>max_addr.
       if sint incr < 0 \<or> old_brk + sint incr > max_addr
       then bindE (modifyE (\<lambda>s. s\<lparr>errno := ENOMEM\<rparr>)) (\<lambda>_. retE SBRK_FAILED)
       else bindE (modifyE (\<lambda>s. s\<lparr>mem_brk := old_brk + sint incr\<rparr>)) (\<lambda>_. retE old_brk)))"

definition mem_heap_lo :: "'a memlib_scheme \<Rightarrow> int" where
  "mem_heap_lo s = mem_start_brk s"

definition mem_heap_hi :: "'a memlib_scheme \<Rightarrow> int" where
  "mem_heap_hi s = mem_brk s - 1"

definition mem_heapsize :: "'a memlib_scheme \<Rightarrow> uint64" where
  "mem_heapsize s = word_of_int (mem_brk s - mem_start_brk s)"

text \<open>\<open>free\<close> and \<open>getpagesize\<close> are libc's, hence arguments; no part of the lab calls these two.\<close>

definition mem_deinit :: "(int \<Rightarrow> ('a memlib_scheme, unit) cmd) \<Rightarrow> ('a memlib_scheme, unit) cmd" where
  "mem_deinit free = bindE (getsE mem_start_brk) free"

definition mem_pagesize :: "cint \<Rightarrow> uint64" where
  "mem_pagesize getpagesize = scast getpagesize"

subsection \<open>Accesses through pointers\<close>

definition accessible :: "'a memlib_scheme \<Rightarrow> int \<Rightarrow> int \<Rightarrow> bool" where
  "accessible s a n \<longleftrightarrow> mem_start_brk s \<le> a \<and> a + n \<le> mem_max_addr s"

definition load8 :: "int \<Rightarrow> ('a memlib_scheme, byte) cmd" where
  "load8 a = (\<lambda>s. if accessible s a 1 then Inr (mem s a, s) else Inl (Fault a))"

definition load32 :: "int \<Rightarrow> ('a memlib_scheme, uint32) cmd" where
  "load32 a = (\<lambda>s. if accessible s a 4 then Inr (get32 (mem s) a, s) else Inl (Fault a))"

definition load64 :: "int \<Rightarrow> ('a memlib_scheme, uint64) cmd" where
  "load64 a = (\<lambda>s. if accessible s a 8 then Inr (get64 (mem s) a, s) else Inl (Fault a))"

definition store8 :: "int \<Rightarrow> byte \<Rightarrow> ('a memlib_scheme, unit) cmd" where
  "store8 a v = (\<lambda>s. if accessible s a 1 then Inr ((), s\<lparr>mem := (mem s)(a := v)\<rparr>)
     else Inl (Fault a))"

definition store32 :: "int \<Rightarrow> uint32 \<Rightarrow> ('a memlib_scheme, unit) cmd" where
  "store32 a v = (\<lambda>s. if accessible s a 4 then Inr ((), s\<lparr>mem := put32 (mem s) a v\<rparr>)
     else Inl (Fault a))"

definition store64 :: "int \<Rightarrow> uint64 \<Rightarrow> ('a memlib_scheme, unit) cmd" where
  "store64 a v = (\<lambda>s. if accessible s a 8 then Inr ((), s\<lparr>mem := put64 (mem s) a v\<rparr>)
     else Inl (Fault a))"

text \<open>\<open>memset\<close> and \<open>memcpy\<close> of libc, byte by byte from the lowest address.\<close>

fun memset :: "int \<Rightarrow> byte \<Rightarrow> nat \<Rightarrow> ('a memlib_scheme, unit) cmd" where
  "memset p c 0 = retE ()"
| "memset p c (Suc n) = bindE (store8 p c) (\<lambda>_. memset (p + 1) c n)"

fun memcpy :: "int \<Rightarrow> int \<Rightarrow> nat \<Rightarrow> ('a memlib_scheme, unit) cmd" where
  "memcpy dst src 0 = retE ()"
| "memcpy dst src (Suc n) =
     bindE (load8 src) (\<lambda>c. bindE (store8 dst c) (\<lambda>_. memcpy (dst + 1) (src + 1) n))"

lemmas access_defs = load8_def load32_def load64_def store8_def store32_def store64_def

lemma load32_Inr_iff: "load32 a s = Inr (w, t) \<longleftrightarrow> accessible s a 4 \<and> t = s \<and> w = get32 (mem s) a"
  by (auto simp: load32_def)

lemma load64_Inr_iff: "load64 a s = Inr (w, t) \<longleftrightarrow> accessible s a 8 \<and> t = s \<and> w = get64 (mem s) a"
  by (auto simp: load64_def)

text \<open>The arena never moves: what the driver relies on when it compares heap addresses.\<close>

definition same_arena :: "'a memlib_scheme \<Rightarrow> 'a memlib_scheme \<Rightarrow> bool" where
  "same_arena s t \<longleftrightarrow> mem_start_brk t = mem_start_brk s \<and> mem_max_addr t = mem_max_addr s
     \<and> mem_brk s \<le> mem_brk t"

lemma same_arena_refl [simp]: "reflp same_arena" "same_arena s s"
  by (auto simp: same_arena_def reflp_def)

lemma same_arena_trans: "transp same_arena"
  by (auto simp: same_arena_def transp_def)

lemma same_arena_accessible: "same_arena s t \<Longrightarrow> accessible t a n = accessible s a n"
  by (simp add: same_arena_def accessible_def)

named_theorems arena_intros "commands that keep the arena"

lemma access_same_arena [arena_intros]:
  "keeps same_arena (load8 a)" "keeps same_arena (load32 a)" "keeps same_arena (load64 a)"
  "keeps same_arena (store8 a b)" "keeps same_arena (store32 a v)" "keeps same_arena (store64 a w)"
  by (auto simp: keeps_def access_defs same_arena_def split: if_splits)

lemma mem_sbrk_same_arena [arena_intros]: "keeps same_arena (mem_sbrk incr)"
  by (auto simp: keeps_def mem_sbrk_def same_arena_def split: if_splits)

lemma same_arena_cmds [arena_intros]:
  "keeps same_arena (retE x)" "keeps same_arena (throwE e)" "keeps same_arena (getsE g)"
  "keeps same_arena m \<Longrightarrow> (\<And>x. keeps same_arena (f x)) \<Longrightarrow> keeps same_arena (bindE m f)"
  "keeps same_arena n \<Longrightarrow> keeps same_arena (whenE b n)"
  by (simp_all add: keeps_basic keeps_bindE keeps_whenE same_arena_trans)

text \<open>
  \<open>mem_sbrk\<close> either hands out the next \<open>incr\<close> bytes, starting at the old break, with the
  new break still inside the arena, or (for a negative increment or when the arena is used
  up) fails with \<open>(void *)-1\<close> and \<open>ENOMEM\<close> and moves nothing; the memory is never touched.
\<close>

theorem mem_sbrk_extends:
  assumes "mem_brk s \<le> mem_max_addr s"
  shows "\<exists>p t. mem_sbrk incr s = Inr (p, t) \<and> mem t = mem s \<and> mem_brk t \<le> mem_max_addr t
    \<and> (if 0 \<le> sint incr \<and> mem_brk s + sint incr \<le> mem_max_addr s
       then p = mem_brk s \<and> mem_brk t = mem_brk s + sint incr
       else p = SBRK_FAILED \<and> t = s\<lparr>errno := ENOMEM\<rparr>)"
  using assms by (auto simp: mem_sbrk_def)

theorem mem_sbrk_extends_witness:
  "\<exists>p t. mem_sbrk 16 \<lparr>mem_start_brk = 4096, mem_brk = 4096, mem_max_addr = 8192, errno = 0,
      mem = (\<lambda>_. 0)\<rparr> = Inr (p, t) \<and> p = 4096 \<and> mem_brk t = 4112"
  using mem_sbrk_extends [of "\<lparr>mem_start_brk = 4096, mem_brk = 4096, mem_max_addr = 8192,
    errno = 0, mem = (\<lambda>_. 0)\<rparr>" 16] by auto

end
