(* ===== verification/MmBlocks.thy ===== *)
theory MmBlocks
  imports Memlib
begin

section \<open>Boundary tags and the heap checker (mm.c, macros and diagnostics)\<close>

text \<open>
  The state of \<^verbatim>\<open>labs/malloclab/mm.c\<close>, its macros on block tags, and \<open>printblock\<close>,
  \<open>checkblock\<close> and \<open>mm_checkheap\<close>. A macro that reads memory is a command; one that only
  computes is a function of words or addresses. The checkers return the lines they print
  (\<open>msg\<close>); the constant progress lines printed elsewhere in mm.c are not modelled.
\<close>

subsection \<open>Constants, state, printed lines\<close>

definition WSIZE :: int where "WSIZE = 4"
definition DSIZE :: int where "DSIZE = 8"
definition CHUNKSIZE :: uint32 where "CHUNKSIZE = 2 ^ 16"
definition OVERHEAD :: int where "OVERHEAD = 8"
definition FREEBLOCKSIZE :: int where "FREEBLOCKSIZE = 24"

lemmas mm_consts = WSIZE_def DSIZE_def CHUNKSIZE_def OVERHEAD_def FREEBLOCKSIZE_def

datatype msg =
    HeapAt int
  | BlockLine int uint32 bool uint32 bool int int
  | EOL int
  | BadPrologue
  | BadEpilogue
  | NotAligned int
  | TagMismatch

record mm = memlib +
  heap_listp :: int
  heap_basefree :: int
  out :: "msg list"

definition emit :: "msg list \<Rightarrow> ('a mm_scheme, unit) cmd" where
  "emit ms = modifyE (\<lambda>s. s\<lparr>out := out s @ ms\<rparr>)"

subsection \<open>The macros\<close>

definition PACK :: "uint32 \<Rightarrow> uint32 \<Rightarrow> uint32" where
  "PACK sz alloc = sz OR alloc"

abbreviation GET :: "int \<Rightarrow> ('a memlib_scheme, uint32) cmd" where
  "GET p \<equiv> load32 p"

abbreviation PUT :: "int \<Rightarrow> uint32 \<Rightarrow> ('a memlib_scheme, unit) cmd" where
  "PUT p v \<equiv> store32 p v"

definition size_of :: "uint32 \<Rightarrow> uint32" where
  "size_of w = w AND NOT 0x7"

definition alloc_of :: "uint32 \<Rightarrow> uint32" where
  "alloc_of w = w AND 0x1"

definition GET_SIZE :: "int \<Rightarrow> ('a memlib_scheme, uint32) cmd" where
  "GET_SIZE p = bindE (GET p) (\<lambda>w. retE (size_of w))"

definition GET_ALLOC :: "int \<Rightarrow> ('a memlib_scheme, uint32) cmd" where
  "GET_ALLOC p = bindE (GET p) (\<lambda>w. retE (alloc_of w))"

definition HDRP :: "int \<Rightarrow> int" where
  "HDRP bp = bp - WSIZE"

definition FTRP :: "int \<Rightarrow> ('a memlib_scheme, int) cmd" where
  "FTRP bp = bindE (GET_SIZE (HDRP bp)) (\<lambda>sz. retE (bp + uint sz - DSIZE))"

definition NEXT_BLKP :: "int \<Rightarrow> ('a memlib_scheme, int) cmd" where
  "NEXT_BLKP bp = bindE (GET_SIZE (bp - WSIZE)) (\<lambda>sz. retE (bp + uint sz))"

definition PREV_BLKP :: "int \<Rightarrow> ('a memlib_scheme, int) cmd" where
  "PREV_BLKP bp = bindE (GET_SIZE (bp - DSIZE)) (\<lambda>sz. retE (bp - uint sz))"

definition BLK_NXTP :: "int \<Rightarrow> int" where
  "BLK_NXTP bp = bp"

definition BLK_PRVP :: "int \<Rightarrow> int" where
  "BLK_PRVP bp = bp + DSIZE"

text \<open>
  \<open>PRED(bp)\<close> and \<open>SUCC(bp)\<close> are 8-byte pointers at \<open>bp\<close> and at \<open>bp + WSIZE\<close>: on a
  64-bit machine the two overlap by four bytes. \<open>SUCC\<close> is also assigned to.
\<close>

definition PRED :: "int \<Rightarrow> ('a memlib_scheme, int) cmd" where
  "PRED bp = bindE (load64 bp) (\<lambda>w. retE (uint w))"

definition SUCC :: "int \<Rightarrow> ('a memlib_scheme, int) cmd" where
  "SUCC bp = bindE (load64 (bp + WSIZE)) (\<lambda>w. retE (uint w))"

definition set_SUCC :: "int \<Rightarrow> int \<Rightarrow> ('a memlib_scheme, unit) cmd" where
  "set_SUCC bp v = store64 (bp + WSIZE) (word_of_int v)"

definition PUT_NXT :: "int \<Rightarrow> int \<Rightarrow> ('a memlib_scheme, unit) cmd" where
  "PUT_NXT bp newp = bindE (SUCC bp) (\<lambda>p. store64 p (word_of_int newp))"

definition PUT_PREV :: "int \<Rightarrow> int \<Rightarrow> ('a memlib_scheme, unit) cmd" where
  "PUT_PREV bp newp = bindE (PRED bp) (\<lambda>p. store64 p (word_of_int newp))"

definition PUT_64VAL :: "int \<Rightarrow> int \<Rightarrow> ('a memlib_scheme, unit) cmd" where
  "PUT_64VAL ptr value = store64 ptr (word_of_int value)"

lemmas macro_defs = GET_SIZE_def GET_ALLOC_def HDRP_def FTRP_def NEXT_BLKP_def PREV_BLKP_def
  BLK_NXTP_def BLK_PRVP_def PRED_def SUCC_def set_SUCC_def PUT_NXT_def PUT_PREV_def PUT_64VAL_def

subsection \<open>printblock, checkblock, mm_checkheap\<close>

definition printblock :: "int \<Rightarrow> ('a memlib_scheme, msg list) cmd" where
  "printblock bp =
     bindE (GET_SIZE (HDRP bp)) (\<lambda>hsize.
     bindE (GET_ALLOC (HDRP bp)) (\<lambda>halloc.
     bindE (bindE (FTRP bp) GET_SIZE) (\<lambda>fsize.
     bindE (bindE (FTRP bp) GET_ALLOC) (\<lambda>falloc.
       if hsize = 0 then retE [EOL bp]
       else
         bindE (SUCC bp) (\<lambda>succ.
         bindE (PRED bp) (\<lambda>pred.
           retE [BlockLine bp hsize (halloc \<noteq> 0) fsize (falloc \<noteq> 0) succ pred]))))))"

definition checkblock :: "int \<Rightarrow> ('a memlib_scheme, msg list) cmd" where
  "checkblock bp =
     bindE (GET (HDRP bp)) (\<lambda>h.
     bindE (bindE (FTRP bp) GET) (\<lambda>f.
       retE ((if (word_of_int bp :: uint32) mod 8 \<noteq> 0 then [NotAligned bp] else []) @
             (if h \<noteq> f then [TagMismatch] else []))))"

text \<open>
  The loop of \<open>mm_checkheap\<close> walks from block to block. A block sz is not negative and
  the walk stops at sz 0 or outside the arena, so it always ends.
\<close>

function checkheap_loop ::
    "bool \<Rightarrow> int \<Rightarrow> 'a memlib_scheme \<Rightarrow> err + int \<times> msg list" where
  "checkheap_loop verbose bp s =
     (case GET_SIZE (HDRP bp) s of
        Inl e \<Rightarrow> Inl e
      | Inr (sz, _) \<Rightarrow>
          if sz = 0 then Inr (bp, [])
          else
            (case (if verbose then printblock bp else retE []) s of
               Inl e \<Rightarrow> Inl e
             | Inr (shown, _) \<Rightarrow>
                 (case checkblock bp s of
                    Inl e \<Rightarrow> Inl e
                  | Inr (found, _) \<Rightarrow>
                      (case checkheap_loop verbose (bp + uint sz) s of
                         Inl e \<Rightarrow> Inl e
                       | Inr (lastbp, rest) \<Rightarrow> Inr (lastbp, shown @ found @ rest)))))"
  by pat_completeness auto

lemma GET_SIZE_Inr: "GET_SIZE p s = Inr (sz, t) \<longleftrightarrow>
    accessible s p 4 \<and> t = s \<and> sz = size_of (get32 (mem s) p)"
  by (auto simp: GET_SIZE_def load32_def bindE_def)

text \<open>The distance to the end of the arena decreases in every step of a walk.\<close>

lemma walk_progress:
  assumes "GET_SIZE (HDRP bp) s = Inr (sz, t)" and "sz \<noteq> 0"
  shows "bp \<le> mem_max_addr s \<and> 0 < uint sz"
proof
  from assms(1) show "bp \<le> mem_max_addr s"
    by (simp add: GET_SIZE_Inr accessible_def HDRP_def WSIZE_def)
  from assms(2) show "0 < uint sz" by (simp add: word_neq_0_conv word_less_def)
qed

termination checkheap_loop
  by (relation "measure (\<lambda>(verbose, bp, s). nat (mem_max_addr s + 1 - bp))")
    (auto dest: walk_progress)

declare checkheap_loop.simps [simp del]

definition mm_checkheap :: "bool \<Rightarrow> ('a mm_scheme, msg list) cmd" where
  "mm_checkheap verbose =
     bindE (getsE heap_listp) (\<lambda>start.
     bindE (GET_SIZE (HDRP start)) (\<lambda>psize.
     bindE (GET_ALLOC (HDRP start)) (\<lambda>palloc.
     bindE (checkblock start) (\<lambda>found.
     bindE (\<lambda>s. case checkheap_loop verbose start s of Inl e \<Rightarrow> Inl e | Inr r \<Rightarrow> Inr (r, s)) (\<lambda>(bp, rest).
     bindE (if verbose then printblock bp else retE []) (\<lambda>lastline.
     bindE (GET_SIZE (HDRP bp)) (\<lambda>esize.
     bindE (GET_ALLOC (HDRP bp)) (\<lambda>ealloc.
       retE ((if verbose then [HeapAt start] else []) @
             (if psize \<noteq> 24 \<or> palloc = 0 then [BadPrologue] else []) @
             found @ rest @ lastline @
             (if esize \<noteq> 0 \<or> ealloc = 0 then [BadEpilogue] else []))))))))))"

end
