(* ===== verification/MmInvariant.thy ===== *)
theory MmInvariant
  imports MmBlocks
begin

section \<open>Well-formed heaps\<close>

text \<open>
  The abstract view of the heap of \<^verbatim>\<open>labs/malloclab/mm.c\<close>: a list of blocks
  \<open>(size, allocated)\<close> laid out one after the other from \<open>heap_listp\<close>, each with equal header
  and footer words, closed by the epilogue word (size 0, allocated). The first part evaluates
  the tag macros on such words, the second the macros that read memory; then come segments of
  blocks, their frame rules, and the invariant \<open>wf_heap\<close> with the rule that replaces a
  stretch of blocks by another of the same total size.
\<close>

subsection \<open>Tags\<close>

named_theorems tag_simps "evaluation of packed tags"
named_theorems run_simps "evaluation of the macros on a given state"

lemma size_of_mask: "size_of w = w AND NOT (mask 3)"
  by (simp add: size_of_def mask_eq_exp_minus_1)

lemma alloc_of_take_bit: "alloc_of w = take_bit 1 w"
  by (simp add: alloc_of_def take_bit_eq_mask mask_eq_exp_minus_1)

definition tag :: "int \<Rightarrow> bool \<Rightarrow> uint32" where
  "tag sz al = PACK (word_of_int sz) (if al then 1 else 0)"

definition size_ok :: "int \<Rightarrow> bool" where
  "size_ok sz \<longleftrightarrow> 8 dvd sz \<and> 0 \<le> sz \<and> sz < 2 ^ 32"

lemma low_bits_0: "8 dvd sz \<Longrightarrow> n < 3 \<Longrightarrow> \<not> bit sz n" for sz :: int
proof -
  assume "8 dvd sz" and n: "n < 3"
  then have "take_bit 3 sz = 0" by (simp add: take_bit_eq_mod mod_0_imp_dvd)
  then have "\<not> bit (take_bit 3 sz) n" by simp
  with n show ?thesis by (simp add: bit_take_bit_iff)
qed

lemma size_of_tag [tag_simps]: "size_ok sz \<Longrightarrow> size_of (tag sz al) = word_of_int sz"
  unfolding size_of_mask tag_def PACK_def
  by (rule bit_word_eqI) (auto simp: bit_simps size_ok_def not_less low_bits_0 split: if_splits intro!: leI)

lemma alloc_of_tag [tag_simps]: "size_ok sz \<Longrightarrow> alloc_of (tag sz al) = (if al then 1 else 0)"
  unfolding alloc_of_take_bit tag_def PACK_def
  by (rule bit_word_eqI) (auto simp: bit_simps size_ok_def low_bits_0 [of _ 0, simplified])

lemma uint_word_of_size [tag_simps]: "size_ok sz \<Longrightarrow> uint (word_of_int sz :: uint32) = sz"
  by (simp add: size_ok_def uint_word_of_int)

lemma PACK_tag [tag_simps]: "PACK (word_of_int sz) 1 = tag sz True" "PACK (word_of_int sz) 0 = tag sz False"
  by (simp_all add: tag_def)

lemma uint64_word_of_size: "size_ok sz \<Longrightarrow> uint (word_of_int sz :: uint64) = sz"
  by (simp add: size_ok_def uint_word_of_int)

lemma ucast_word_of_size: "size_ok sz \<Longrightarrow> (ucast (word_of_int sz :: uint32) :: uint64) = word_of_int sz"
  "size_ok sz \<Longrightarrow> (ucast (word_of_int sz :: uint64) :: uint32) = word_of_int sz"
  by (simp_all add: ucast_eq uint_word_of_size uint64_word_of_size)

lemma le_word_of_size: "size_ok sz \<Longrightarrow> (16 :: uint64) \<le> word_of_int sz \<longleftrightarrow> 16 \<le> sz"
  by (simp add: word_le_def uint64_word_of_size)

lemma put32_commute: "a + 4 \<le> b \<or> b + 4 \<le> a \<Longrightarrow> put32 (put32 m a v) b w = put32 (put32 m b w) a v"
  by (rule ext) (auto simp: put32_def)

lemma add_word_sizes: "word_of_int a + word_of_int b = (word_of_int (a + b) :: uint32)"
  by simp

subsection \<open>Running the macros\<close>

lemma accessible_frame [run_simps]:
  "accessible (s\<lparr>mem := m\<rparr>) p n = accessible s p n"
  by (simp add: accessible_def)

lemma load32_run [run_simps]: "accessible s p 4 \<Longrightarrow> load32 p s = Inr (get32 (mem s) p, s)"
  by (simp add: load32_def)

lemma store32_run [run_simps]: "accessible s p 4 \<Longrightarrow> store32 p v s = Inr ((), s\<lparr>mem := put32 (mem s) p v\<rparr>)"
  by (simp add: store32_def)

lemma GET_SIZE_run [run_simps]: "accessible s p 4 \<Longrightarrow> GET_SIZE p s = Inr (size_of (get32 (mem s) p), s)"
  by (simp add: GET_SIZE_def bindE_def load32_run)

lemma GET_ALLOC_run [run_simps]: "accessible s p 4 \<Longrightarrow> GET_ALLOC p s = Inr (alloc_of (get32 (mem s) p), s)"
  by (simp add: GET_ALLOC_def bindE_def load32_run)

lemma FTRP_run [run_simps]: "accessible s (bp - 4) 4 \<Longrightarrow>
   FTRP bp s = Inr (bp + uint (size_of (get32 (mem s) (bp - 4))) - 8, s)"
  by (simp add: FTRP_def HDRP_def bindE_def GET_SIZE_run mm_consts)

lemma NEXT_BLKP_run [run_simps]: "accessible s (bp - 4) 4 \<Longrightarrow>
   NEXT_BLKP bp s = Inr (bp + uint (size_of (get32 (mem s) (bp - 4))), s)"
  by (simp add: NEXT_BLKP_def bindE_def GET_SIZE_run mm_consts)

lemma PREV_BLKP_run [run_simps]: "accessible s (bp - 8) 4 \<Longrightarrow>
   PREV_BLKP bp s = Inr (bp - uint (size_of (get32 (mem s) (bp - 8))), s)"
  by (simp add: PREV_BLKP_def bindE_def GET_SIZE_run mm_consts)

lemma HDRP_run [run_simps]: "HDRP bp = bp - 4"
  by (simp add: HDRP_def WSIZE_def)

lemma bindE_step [run_simps]: "m s = Inr (x, t) \<Longrightarrow> bindE m f s = f x t"
  by (simp add: bindE_def)

subsection \<open>Segments of blocks\<close>

type_synonym block = "int \<times> bool"

definition block_ok :: "memory \<Rightarrow> int \<Rightarrow> block \<Rightarrow> bool" where
  "block_ok m a b \<longleftrightarrow> size_ok (fst b) \<and> 16 \<le> fst b
     \<and> get32 m (a - 4) = tag (fst b) (snd b) \<and> get32 m (a + fst b - 8) = tag (fst b) (snd b)"

primrec seg :: "memory \<Rightarrow> int \<Rightarrow> block list \<Rightarrow> bool" where
  "seg m a [] \<longleftrightarrow> True"
| "seg m a (b # bs) \<longleftrightarrow> block_ok m a b \<and> seg m (a + fst b) bs"

definition bsum :: "block list \<Rightarrow> int" where
  "bsum bs = sum_list (map fst bs)"

lemma bsum_simps [simp]: "bsum [] = 0" "bsum (b # bs) = fst b + bsum bs" "bsum (xs @ ys) = bsum xs + bsum ys"
  by (simp_all add: bsum_def)

lemma seg_append [simp]: "seg m a (xs @ ys) \<longleftrightarrow> seg m a xs \<and> seg m (a + bsum xs) ys"
  by (induction xs arbitrary: a) (auto simp: add.assoc)

lemma bsum_nonneg: "seg m a bs \<Longrightarrow> 16 * int (length bs) \<le> bsum bs"
  by (induction bs arbitrary: a) (force simp: block_ok_def algebra_simps)+

lemma block_ok_frame:
  assumes "\<And>x. a - 4 \<le> x \<Longrightarrow> x < a + fst b - 4 \<Longrightarrow> m x = m' x" 
  shows "block_ok m a b \<Longrightarrow> block_ok m' a b"
proof -
  assume ok: "block_ok m a b"
  then have "16 \<le> fst b" by (simp add: block_ok_def)
  then have "get32 m (a - 4) = get32 m' (a - 4)" "get32 m (a + fst b - 8) = get32 m' (a + fst b - 8)"
    using assms by (intro get32_local; simp)+
  with ok show ?thesis by (simp add: block_ok_def)
qed

lemma seg_frame:
  assumes "seg m a bs" and "\<And>x. a - 4 \<le> x \<Longrightarrow> x < a + bsum bs - 4 \<Longrightarrow> m x = m' x"
  shows "seg m' a bs"
  using assms
proof (induction bs arbitrary: a)
  case (Cons b bs)
  have n: "0 \<le> bsum bs" "16 \<le> fst b" using Cons.prems(1) bsum_nonneg [of m "a + fst b" bs] by (auto simp: block_ok_def)
  from Cons.prems(1) have "block_ok m' a b"
    using block_ok_frame [of a b m m'] Cons.prems(2) n by simp
  moreover have "seg m' (a + fst b) bs" 
    using Cons.prems n by (intro Cons.IH) auto
  ultimately show ?case by simp
qed simp

lemma seg_put32 [intro]:
  "seg m a bs \<Longrightarrow> p + 4 \<le> a - 4 \<or> a + bsum bs - 4 \<le> p \<Longrightarrow> seg (put32 m p v) a bs"
  by (erule seg_frame, rule put32_outside [symmetric]) auto

lemma block_header: "block_ok m bp b \<Longrightarrow> get32 m (bp - 4) = tag (fst b) (snd b)"
  "block_ok m bp b \<Longrightarrow> size_ok (fst b)" "block_ok m bp b \<Longrightarrow> 16 \<le> fst b"
  by (simp_all add: block_ok_def)

lemma seg_sizes_pos: "seg m a bs \<Longrightarrow> \<forall>b\<in>set bs. 0 < fst b"
  by (induction bs arbitrary: a) (force simp: block_ok_def)+

subsection \<open>Writing the two tags of a block\<close>

definition set_block :: "memory \<Rightarrow> int \<Rightarrow> block \<Rightarrow> memory" where
  "set_block m bp b = put32 (put32 m (bp - 4) (tag (fst b) (snd b))) (bp + fst b - 8) (tag (fst b) (snd b))"

lemma set_block_ok: "size_ok (fst b) \<Longrightarrow> 16 \<le> fst b \<Longrightarrow> block_ok (set_block m bp b) bp b"
  by (simp add: set_block_def block_ok_def word_mem_simps)

lemma set_block_outside: "16 \<le> fst b \<Longrightarrow> x < bp - 4 \<or> bp + fst b - 4 \<le> x \<Longrightarrow> set_block m bp b x = m x"
  by (auto simp: set_block_def put32_outside)

lemma set_block_payload: "bp \<le> x \<Longrightarrow> x < bp + fst b - 8 \<Longrightarrow> set_block m bp b x = m x"
  by (auto simp: set_block_def put32_outside)

definition in_arena :: "'a memlib_scheme \<Rightarrow> int \<Rightarrow> int \<Rightarrow> bool" where
  "in_arena s lo hi \<longleftrightarrow> mem_start_brk s \<le> lo \<and> hi \<le> mem_max_addr s"

lemma in_arenaD: "in_arena s lo hi \<Longrightarrow> lo \<le> p \<Longrightarrow> p + n \<le> hi \<Longrightarrow> accessible s p n"
  by (auto simp: in_arena_def accessible_def)

lemma put_block_run:
  assumes "in_arena s (bp - 4) (bp + sz - 4)" "size_ok sz" "16 \<le> sz"
  shows "bindE (PUT (bp - 4) (tag sz al)) (\<lambda>_. bindE (FTRP bp) (\<lambda>f. PUT f (tag sz al))) s
     = Inr ((), s\<lparr>mem := set_block (mem s) bp (sz, al)\<rparr>)"
    "bindE (PUT (bp - 4) (tag sz al)) (\<lambda>_. bindE (FTRP bp) (\<lambda>f. bindE (PUT f (tag sz al)) g)) s
     = g () (s\<lparr>mem := set_block (mem s) bp (sz, al)\<rparr>)"
proof -
  have a: "accessible s (bp - 4) 4" "accessible s (bp + sz - 8) 4"
    using assms by (auto intro: in_arenaD)
  let ?s = "s\<lparr>mem := put32 (mem s) (bp - 4) (tag sz al)\<rparr>"
  have 1: "PUT (bp - 4) (tag sz al) s = Inr ((), ?s)" using a by (simp add: run_simps)
  have 2: "FTRP bp ?s = Inr (bp + sz - 8, ?s)"
    using a assms by (simp add: run_simps word_mem_simps tag_simps)
  have 3: "PUT (bp + sz - 8) (tag sz al) ?s = Inr ((), s\<lparr>mem := set_block (mem s) bp (sz, al)\<rparr>)"
    using a by (simp add: run_simps set_block_def)
  show "bindE (PUT (bp - 4) (tag sz al)) (\<lambda>_. bindE (FTRP bp) (\<lambda>f. PUT f (tag sz al))) s
     = Inr ((), s\<lparr>mem := set_block (mem s) bp (sz, al)\<rparr>)"
    by (simp only: bindE_step 1 2 3)
  show "bindE (PUT (bp - 4) (tag sz al)) (\<lambda>_. bindE (FTRP bp) (\<lambda>f. bindE (PUT f (tag sz al)) g)) s
     = g () (s\<lparr>mem := set_block (mem s) bp (sz, al)\<rparr>)"
    by (simp only: bindE_step 1 2 3)
qed

subsection \<open>The whole heap\<close>

text \<open>
  The prologue is an allocated block of 24 bytes; the whole heap lies below the break, the
  arena is smaller than \<open>2 ^ 32\<close> bytes, and payload addresses are multiples of 8.
\<close>

definition wf_heap :: "'a mm_scheme \<Rightarrow> block list \<Rightarrow> bool" where
  "wf_heap s bs \<longleftrightarrow> 
     8 dvd heap_listp s \<and> 0 \<le> mem_start_brk s \<and> mem_start_brk s \<le> heap_listp s - 4 \<and>
     (\<exists>rest. bs = (24, True) # rest) \<and>
     seg (mem s) (heap_listp s) bs \<and>
     get32 (mem s) (heap_listp s + bsum bs - 4) = tag 0 True \<and>
     heap_listp s + bsum bs \<le> mem_brk s \<and> mem_brk s \<le> mem_max_addr s \<and>
     mem_max_addr s < mem_start_brk s + 2 ^ 32"

lemma wf_heap_arena:
  assumes "wf_heap s bs"
  shows "in_arena s (heap_listp s - 4) (heap_listp s + bsum bs)" "bsum bs < 2 ^ 32" "0 < heap_listp s"
  using assms by (auto simp: wf_heap_def in_arena_def)

lemma wf_heap_free_split:
  assumes "wf_heap s (xs @ (sz, False) # ys)"
  obtains xs' psz pal where "xs = xs' @ [(psz, pal)]"
proof -
  from assms have "xs \<noteq> []" by (auto simp: wf_heap_def)
  then obtain xs' b where "xs = xs' @ [b]" by (meson rev_exhaust)
  then show ?thesis using that by (cases b) auto
qed

lemma wf_heap_replace:
  assumes wf: "wf_heap s (xs @ zs @ ys)" and xs: "xs \<noteq> []"
    and zs': "bsum zs' = bsum zs" "seg m' (heap_listp s + bsum xs) zs'"
    and frame: "\<And>x. x < heap_listp s + bsum xs - 4 \<or> heap_listp s + bsum xs + bsum zs - 4 \<le> x \<Longrightarrow> m' x = mem s x"
  shows "wf_heap (s\<lparr>mem := m'\<rparr>) (xs @ zs' @ ys)"
proof -
  let ?p = "heap_listp s"
  have seg: "seg (mem s) ?p xs" "seg (mem s) (?p + bsum xs + bsum zs) ys"
    using wf by (simp_all add: wf_heap_def add.assoc)
  have nn: "0 \<le> bsum ys" "0 \<le> bsum zs'" using bsum_nonneg [OF seg(2)] bsum_nonneg [OF zs'(2)] by auto
  have 1: "seg m' ?p xs" using seg(1) frame by (auto elim!: seg_frame)
  have 2: "seg m' (?p + bsum xs + bsum zs) ys" using seg(2) frame by (auto elim!: seg_frame)
  have 3: "get32 m' (?p + bsum (xs @ zs' @ ys) - 4) = get32 (mem s) (?p + bsum (xs @ zs @ ys) - 4)"
    using nn zs'(1) frame by (simp, intro get32_local) simp
  have "\<exists>rest. xs @ zs' @ ys = (24, True) # rest"
    using wf xs by (cases xs) (auto simp: wf_heap_def)
  with wf 1 2 3 zs' show ?thesis by (simp add: wf_heap_def add.assoc)
qed

lemma wf_heap_block:
  assumes "wf_heap s (xs @ b # ys)"
  shows "block_ok (mem s) (heap_listp s + bsum xs) b"
    "in_arena s (heap_listp s + bsum xs - 4) (heap_listp s + bsum xs + fst b)"
proof -
  have n: "0 \<le> bsum xs" "0 \<le> bsum ys" 
    using assms bsum_nonneg [of "mem s" "heap_listp s" xs] bsum_nonneg [of "mem s" "heap_listp s + bsum xs + fst b" ys]
    by (auto simp: wf_heap_def)
  show "block_ok (mem s) (heap_listp s + bsum xs) b" using assms by (simp add: wf_heap_def)
  show "in_arena s (heap_listp s + bsum xs - 4) (heap_listp s + bsum xs + fst b)"
    using wf_heap_arena(1) [OF assms] n by (simp add: in_arena_def)
qed

lemma in_arena_sub: "in_arena s lo hi \<Longrightarrow> lo \<le> lo' \<Longrightarrow> hi' \<le> hi \<Longrightarrow> in_arena s lo' hi'"
  by (simp add: in_arena_def)

lemma size_ok_add: "size_ok a \<Longrightarrow> size_ok b \<Longrightarrow> a + b < 2 ^ 32 \<Longrightarrow> size_ok (a + b)"
  by (simp add: size_ok_def)

lemma wf_heap_sum: assumes "wf_heap s (xs @ zs @ ys)" shows "bsum zs < 2 ^ 32"
  using wf_heap_arena(2) [OF assms] assms bsum_nonneg [of "mem s" "heap_listp s" xs] 
    bsum_nonneg [of "mem s" "heap_listp s + (bsum xs + bsum zs)" ys] by (simp add: wf_heap_def add.assoc)

lemma wf_heap_next_header:
  assumes wf: "wf_heap s (xs @ ys)"
  shows "get32 (mem s) (heap_listp s + bsum xs - 4) = (case ys of [] \<Rightarrow> tag 0 True | b # _ \<Rightarrow> tag (fst b) (snd b))"
  using wf by (cases ys) (auto simp: wf_heap_def block_ok_def)

subsection \<open>A heap to run the code on\<close>

definition sample_blocks :: "block list" where
  "sample_blocks = [(24, True), (64, False), (32, True), (48, False), (16, False)]"

definition sample_heap :: mm where
  "sample_heap =
     \<lparr>mem_start_brk = 4096, mem_brk = 8192, mem_max_addr = 8192, errno = 0,
      mem = put32 (set_block (set_block (set_block (set_block (set_block (\<lambda>_. 0)
              4104 (24, True)) 4128 (64, False)) 4192 (32, True)) 4224 (48, False))
              4272 (16, False)) 4284 (tag 0 True),
      heap_listp = 4104, heap_basefree = 4128, out = []\<rparr>"

lemma sample_heap_wf: "wf_heap sample_heap sample_blocks"
  by (simp add: wf_heap_def sample_heap_def sample_blocks_def block_ok_def set_block_def
    word_mem_simps size_ok_def)

lemma sample_heap_listp [simp]: "heap_listp sample_heap = 4104"
  by (simp add: sample_heap_def)

end
