(* ===== verification/MmCheck.thy ===== *)
theory MmCheck
  imports MmInvariant
begin

section \<open>What a silent mm_checkheap certifies (mm.c)\<close>

text \<open>
  \<open>mm_checkheap\<close> walks over the header words. \<open>checked\<close> is the specification of the walk: the
  list of the header words it sees, each with an equal footer and an aligned payload. The
  checker (not verbose) prints nothing exactly on such heaps, and it prints nothing on every
  well-formed heap.
\<close>

definition ptr_aligned :: "int \<Rightarrow> bool" where
  "ptr_aligned a \<longleftrightarrow> (word_of_int a :: uint32) mod 8 = 0"

fun checked :: "'a memlib_scheme \<Rightarrow> int \<Rightarrow> uint32 list \<Rightarrow> bool" where
  "checked s a [] \<longleftrightarrow> accessible s (a - 4) 4 \<and> size_of (get32 (mem s) (a - 4)) = 0"
| "checked s a (h # hs) \<longleftrightarrow> accessible s (a - 4) 4 \<and> get32 (mem s) (a - 4) = h \<and> size_of h \<noteq> 0
     \<and> accessible s (a + uint (size_of h) - 8) 4 \<and> get32 (mem s) (a + uint (size_of h) - 8) = h
     \<and> ptr_aligned a \<and> checked s (a + uint (size_of h)) hs"

definition span :: "uint32 list \<Rightarrow> int" where
  "span hs = sum_list (map (\<lambda>h. uint (size_of h)) hs)"

lemma span_simps [simp]: "span [] = 0" "span (h # hs) = uint (size_of h) + span hs"
  by (simp_all add: span_def)

lemma load32_eq_Inr: "load32 a s = Inr r \<longleftrightarrow> accessible s a 4 \<and> r = (get32 (mem s) a, s)"
  by (auto simp: load32_def)

lemma checkblock_silent: "checkblock bp s = Inr ([], t) \<longleftrightarrow> t = s \<and> accessible s (bp - 4) 4 
   \<and> accessible s (bp + uint (size_of (get32 (mem s) (bp - 4))) - 8) 4
   \<and> get32 (mem s) (bp + uint (size_of (get32 (mem s) (bp - 4))) - 8) = get32 (mem s) (bp - 4)
   \<and> ptr_aligned bp"
proof (cases "accessible s (bp - 4) 4")
  case True
  show ?thesis
  proof (cases "accessible s (bp + uint (size_of (get32 (mem s) (bp - 4))) - 8) 4")
    case a2: True
    with True show ?thesis
      by (auto simp: checkblock_def run_simps retE_def ptr_aligned_def simp del: cmd_run split: if_splits)
  next
    case False
    with True show ?thesis by (auto simp: checkblock_def run_simps bindE_def load32_def)
  qed
next
  case False
  then show ?thesis by (auto simp: checkblock_def HDRP_run bindE_def load32_def)
qed

lemma checkheap_loop_silent:
  "checkheap_loop False a s = Inr (l, []) \<longleftrightarrow> (\<exists>hs. checked s a hs \<and> l = a + span hs)"
proof (induction False a s arbitrary: l rule: checkheap_loop.induct)
  case (1 a s)
  let ?h = "get32 (mem s) (a - 4)"
  show ?case
  proof (cases "accessible s (a - 4) 4")
    case False
    then have "\<not> checked s a hs" for hs by (cases hs) auto
    with False show ?thesis by (simp add: checkheap_loop.simps [of _ a] GET_SIZE_def HDRP_run load32_def bindE_def)
  next
    case acc: True
    show ?thesis
    proof (cases "size_of ?h = 0")
      case True
      have "checked s a hs \<longleftrightarrow> hs = []" for hs using acc True by (cases hs) auto
      with acc True show ?thesis by (auto simp: checkheap_loop.simps [of _ a] run_simps)
    next
      case False
      have IH: "checkheap_loop False (a + uint (size_of ?h)) s = Inr (l, []) \<longleftrightarrow> (\<exists>hs. checked s (a + uint (size_of ?h)) hs \<and> l = a + uint (size_of ?h) + span hs)"
        if "checkblock a s = Inr (found, s)" for found l
        using acc False that 1 by (simp add: run_simps)
      have ex: "(\<exists>hs. checked s a hs \<and> l = a + span hs) \<longleftrightarrow> checkblock a s = Inr ([], s) \<and> (\<exists>hs. checked s (a + uint (size_of ?h)) hs \<and> l = a + uint (size_of ?h) + span hs)"
      proof -
        have "checked s a hs \<longleftrightarrow> (\<exists>hs'. hs = ?h # hs' \<and> checkblock a s = Inr ([], s) \<and> checked s (a + uint (size_of ?h)) hs')" for hs
          using acc False by (cases hs) (auto simp: checkblock_silent)
        then show ?thesis by (force simp: add.assoc)
      qed
      have same: "t = s" if "checkblock a s = Inr (found, t)" for found t
        using that by (auto simp: checkblock_def FTRP_def GET_SIZE_def load32_def bindE_def retE_def split: if_splits sum.splits)
      show ?thesis
      proof (cases "checkblock a s")
        case (Inl e)
        with acc False ex show ?thesis by (simp add: checkheap_loop.simps [of _ a] run_simps)
      next
        case (Inr r)
        then obtain found where r: "checkblock a s = Inr (found, s)" using same by (cases r) auto
        show ?thesis
          unfolding ex IH [OF r, symmetric] using acc False r
          by (auto simp: checkheap_loop.simps [of _ a] run_simps split: sum.splits)
      qed
    qed
  qed
qed

lemma checked_end: "checked s a hs \<Longrightarrow> accessible s (a + span hs - 4) 4 \<and> size_of (get32 (mem s) (a + span hs - 4)) = 0"
proof (induction hs arbitrary: a)
  case (Cons h hs)
  then show ?case using Cons.IH [of "a + uint (size_of h)"] by (simp add: add.assoc)
qed simp

lemma mm_checkheap_silent:
  "mm_checkheap False s = Inr ([], t) \<longleftrightarrow> t = s \<and> (\<exists>hs. checked s (heap_listp s) hs
     \<and> size_of (get32 (mem s) (heap_listp s - 4)) = 24 \<and> alloc_of (get32 (mem s) (heap_listp s - 4)) \<noteq> 0
     \<and> alloc_of (get32 (mem s) (heap_listp s + span hs - 4)) \<noteq> 0)" (is "?L \<longleftrightarrow> ?R")
proof
  assume ?L
  then have l: "mm_checkheap False s = Inr ([], t)" .
  have acc: "accessible s (heap_listp s - 4) 4"
    using l by (auto simp: mm_checkheap_def GET_SIZE_def HDRP_run load32_def bindE_def split: if_splits)
  obtain found u where cb: "checkblock (heap_listp s) s = Inr (found, u)"
    using l acc by (cases "checkblock (heap_listp s) s") (auto simp: mm_checkheap_def run_simps bindE_def)
  have u: "u = s"
    using cb by (auto simp: checkblock_def FTRP_def GET_SIZE_def load32_def bindE_def retE_def split: if_splits sum.splits)
  obtain bp rest where lp: "checkheap_loop False (heap_listp s) s = Inr (bp, rest)"
    using l acc cb u by (cases "checkheap_loop False (heap_listp s) s") (auto simp: mm_checkheap_def run_simps bindE_def)
  have acc': "accessible s (bp - 4) 4"
    using l acc cb u lp by (auto simp: mm_checkheap_def run_simps bindE_def GET_SIZE_def load32_def split: if_splits)
  have e: "rest = []" "size_of (get32 (mem s) (heap_listp s - 4)) = 24" "alloc_of (get32 (mem s) (heap_listp s - 4)) \<noteq> 0"
     "alloc_of (get32 (mem s) (bp - 4)) \<noteq> 0" "t = s"
    using l acc cb u lp acc' by (auto simp: mm_checkheap_def run_simps split: if_splits)
  then show ?R using lp checkheap_loop_silent [of "heap_listp s" s bp] by auto
next
  assume r: ?R
  then obtain hs where hs: "checked s (heap_listp s) hs" "size_of (get32 (mem s) (heap_listp s - 4)) = 24" "alloc_of (get32 (mem s) (heap_listp s - 4)) \<noteq> 0"
     "alloc_of (get32 (mem s) (heap_listp s + span hs - 4)) \<noteq> 0" by blast
  have 1: "checkheap_loop False (heap_listp s) s = Inr (heap_listp s + span hs, [])" using hs checkheap_loop_silent by blast
  obtain h hs' where h: "hs = h # hs'" using hs by (cases hs) auto
  have 2: "checkblock (heap_listp s) s = Inr ([], s)" using hs h by (simp add: checkblock_silent)
  show ?L using r hs checked_end [OF hs(1)] h 1 2 by (simp add: mm_checkheap_def run_simps)
qed

lemma size_of_eq_0: "size_ok n \<Longrightarrow> (word_of_int n :: uint32) = 0 \<longleftrightarrow> n = 0"
  using uint_word_of_size [of n] by auto

lemma ptr_aligned_iff: "ptr_aligned a \<longleftrightarrow> 8 dvd a"
proof -
  have "uint ((word_of_int a :: uint32) mod 8) = a mod 8"
    by (simp add: uint_mod uint_word_of_int mod_mod_cancel)
  then show ?thesis by (simp add: ptr_aligned_def word_uint_eq_iff dvd_eq_mod_eq_0)
qed

lemma seg_checked:
  assumes "seg (mem s) a bs" "get32 (mem s) (a + bsum bs - 4) = tag 0 True" "in_arena s (a - 4) (a + bsum bs)" "8 dvd a"
  shows "checked s a (map (\<lambda>(sz, al). tag sz al) bs)" and "span (map (\<lambda>(sz, al). tag sz al) bs) = bsum bs"
proof -
  show "checked s a (map (\<lambda>(sz, al). tag sz al) bs)"
    using assms
  proof (induction bs arbitrary: a)
    case Nil
    then show ?case by (auto simp: tag_simps size_ok_def intro: in_arenaD)
  next
    case (Cons b bs)
    have n: "0 \<le> bsum bs" using Cons.prems(1) bsum_nonneg [of "mem s" "a + fst b" bs] by auto
    have k: "size_ok (fst b)" "16 \<le> fst b" "8 dvd fst b" using Cons.prems(1) by (auto simp: block_ok_def size_ok_def)
    have "in_arena s (a + fst b - 4) (a + fst b + bsum bs)" using Cons.prems(3) k by (simp add: in_arena_def)
    then have "checked s (a + fst b) (map (\<lambda>(sz, al). tag sz al) bs)"
      using Cons.prems k by (intro Cons.IH) (auto simp: add.assoc)
    moreover have "accessible s (a - 4) 4" "accessible s (a + fst b - 8) 4"
      using Cons.prems(3) k n by (auto intro: in_arenaD)
    ultimately show ?case using Cons.prems k
      by (cases b) (auto simp: block_ok_def tag_simps size_of_eq_0 ptr_aligned_iff)
  qed
  show "span (map (\<lambda>(sz, al). tag sz al) bs) = bsum bs"
    using assms(1) by (induction bs arbitrary: a) (auto simp: block_ok_def tag_simps)
qed

text \<open>
  C4: The checker is exact: it returns without a complaint if and only if the chain of header
  words from \<open>heap_listp\<close> on reaches a word of size 0, every word on the way is repeated in the
  footer of its block at an aligned address, the first block has size 24 and is allocated and
  the last word is marked allocated; and it changes nothing.
\<close>

theorem mm_checkheap_exact:
  "mm_checkheap False s = Inr ([], t) \<longleftrightarrow> t = s \<and> (\<exists>hs. checked s (heap_listp s) hs
     \<and> size_of (get32 (mem s) (heap_listp s - 4)) = 24 \<and> alloc_of (get32 (mem s) (heap_listp s - 4)) \<noteq> 0
     \<and> alloc_of (get32 (mem s) (heap_listp s + span hs - 4)) \<noteq> 0)"
  by (rule mm_checkheap_silent)

text \<open>No false alarms: on a well-formed heap the checker terminates normally and prints nothing.\<close>

lemma wf_heap_silent:
  assumes "wf_heap s bs"
  shows "mm_checkheap False s = Inr ([], s)"
proof -
  let ?hs = "map (\<lambda>(sz, al). tag sz al) bs"
  have ar: "in_arena s (heap_listp s - 4) (heap_listp s + bsum bs)" using wf_heap_arena [OF assms] by simp
  have c: "checked s (heap_listp s) ?hs" "span ?hs = bsum bs"
    using seg_checked [OF _ _ ar] assms by (auto simp: wf_heap_def)
  have h: "get32 (mem s) (heap_listp s - 4) = tag 24 True" "get32 (mem s) (heap_listp s + bsum bs - 4) = tag 0 True"
    using assms by (auto simp: wf_heap_def block_ok_def)
  have "size_of (tag 24 True) = 24" "alloc_of (tag 24 True) = 1" "alloc_of (tag 0 True) = 1"
    by (simp_all add: tag_simps size_ok_def)
  then show ?thesis using c h mm_checkheap_silent [of s s] by auto
qed

lemma wf_heap_silent_sample: "mm_checkheap False sample_heap = Inr ([], sample_heap)"
  by (rule wf_heap_silent [OF sample_heap_wf])

end
