(* ===== verification/MmImplicit.thy ===== *)
theory MmImplicit
  imports MmInvariant
begin

section \<open>The implicit free list: find_fit, place, coalesce (mm.c)\<close>

text \<open>
  The three routines of \<^verbatim>\<open>labs/malloclab/mm.c\<close> that work on boundary tags alone, and
  their refinement to operations on the block list: first fit, splitting a block, and merging
  a free block with its free neighbours. The progress lines they print are not modelled.
\<close>

subsection \<open>The code\<close>

function find_fit_loop :: "uint64 \<Rightarrow> int \<Rightarrow> 'a memlib_scheme \<Rightarrow> err + int" where
  "find_fit_loop asize bp s =
     (case GET (HDRP bp) s of
        Inl e \<Rightarrow> Inl e
      | Inr (h, _) \<Rightarrow>
          if size_of h = 0 then Inr NULL
          else if alloc_of h = 0 \<and> asize \<le> ucast (size_of h) then Inr bp
          else find_fit_loop asize (bp + uint (size_of h)) s)"
  by pat_completeness auto

lemma walk_progress':
  assumes "load32 (HDRP bp) s = Inr (h, t)" and "size_of h \<noteq> 0"
  shows "bp \<le> mem_max_addr s \<and> 0 < uint (size_of h)"
  using walk_progress [of bp s "size_of h" s] assms by (simp add: load32_Inr_iff GET_SIZE_Inr)

termination find_fit_loop
  by (relation "measure (\<lambda>(asize, bp, s). nat (mem_max_addr s + 1 - bp))") (auto dest: walk_progress')

declare find_fit_loop.simps [simp del]

definition find_fit :: "uint64 \<Rightarrow> ('a mm_scheme, int) cmd" where
  "find_fit asize =
     (\<lambda>s. case find_fit_loop asize (heap_listp s) s of Inl e \<Rightarrow> Inl e | Inr p \<Rightarrow> Inr (p, s))"

definition place :: "int \<Rightarrow> uint64 \<Rightarrow> ('a memlib_scheme, unit) cmd" where
  "place bp asize =
     bindE (GET_SIZE (HDRP bp)) (\<lambda>csize.
       if (16 :: uint64) \<le> ucast csize - asize
       then
         bindE (PUT (HDRP bp) (PACK (ucast asize) 1)) (\<lambda>_.
         bindE (FTRP bp) (\<lambda>f. bindE (PUT f (PACK (ucast asize) 1)) (\<lambda>_.
         bindE (NEXT_BLKP bp) (\<lambda>bp.
         bindE (PUT (HDRP bp) (PACK (ucast (ucast csize - asize)) 0)) (\<lambda>_.
         bindE (FTRP bp) (\<lambda>f. PUT f (PACK (ucast (ucast csize - asize)) 0))))))) 
       else
         bindE (PUT (HDRP bp) (PACK csize 1)) (\<lambda>_.
         bindE (FTRP bp) (\<lambda>f. PUT f (PACK csize 1))))"

definition coalesce :: "int \<Rightarrow> ('a memlib_scheme, int) cmd" where
  "coalesce bp =
     bindE (bindE (bindE (PREV_BLKP bp) FTRP) GET_ALLOC) (\<lambda>prev_alloc.
     bindE (bindE (NEXT_BLKP bp) (\<lambda>n. GET_ALLOC (HDRP n))) (\<lambda>next_alloc.
     bindE (GET_SIZE (HDRP bp)) (\<lambda>sz.
       if prev_alloc \<noteq> 0 \<and> next_alloc \<noteq> 0 then retE bp
       else if prev_alloc \<noteq> 0 \<and> next_alloc = 0 then
         bindE (bindE (NEXT_BLKP bp) (\<lambda>n. GET_SIZE (HDRP n))) (\<lambda>nsz.
         bindE (retE (sz + nsz)) (\<lambda>sz.
         bindE (PUT (HDRP bp) (PACK sz 0)) (\<lambda>_.
         bindE (bindE (FTRP bp) (\<lambda>f. PUT f (PACK sz 0))) (\<lambda>_.
         retE bp))))
       else if prev_alloc = 0 \<and> next_alloc \<noteq> 0 then
         bindE (bindE (PREV_BLKP bp) (\<lambda>p. GET_SIZE (HDRP p))) (\<lambda>psz.
         bindE (retE (sz + psz)) (\<lambda>sz.
         bindE (bindE (FTRP bp) (\<lambda>f. PUT f (PACK sz 0))) (\<lambda>_.
         bindE (bindE (PREV_BLKP bp) (\<lambda>p. PUT (HDRP p) (PACK sz 0))) (\<lambda>_.
         PREV_BLKP bp))))
       else
         bindE (bindE (PREV_BLKP bp) (\<lambda>p. GET_SIZE (HDRP p))) (\<lambda>psz.
         bindE (bindE (bindE (NEXT_BLKP bp) FTRP) GET_SIZE) (\<lambda>nsz.
         bindE (retE (sz + (psz + nsz))) (\<lambda>sz.
         bindE (bindE (PREV_BLKP bp) (\<lambda>p. PUT (HDRP p) (PACK sz 0))) (\<lambda>_.
         bindE (bindE (bindE (NEXT_BLKP bp) FTRP) (\<lambda>f. PUT f (PACK sz 0))) (\<lambda>_.
         PREV_BLKP bp)))))
       )))"

subsection \<open>The specification: operations on the block list\<close>

fun first_fit :: "int \<Rightarrow> block list \<Rightarrow> int \<Rightarrow> int" where
  "first_fit a [] n = NULL"
| "first_fit a ((sz, al) # bs) n = (if \<not> al \<and> n \<le> sz then a else first_fit (a + sz) bs n)"

definition split_block :: "int \<Rightarrow> int \<Rightarrow> block list" where
  "split_block csz n = (if n + 16 \<le> csz then [(n, True), (csz - n, False)] else [(csz, True)])"

definition merge_left :: "block list \<Rightarrow> block list \<times> int" where
  "merge_left xs = (if xs \<noteq> [] \<and> \<not> snd (last xs) then (butlast xs, fst (last xs)) else (xs, 0))"

fun merge_right :: "block list \<Rightarrow> block list \<times> int" where
  "merge_right ((sz, False) # ys) = (ys, sz)"
| "merge_right ys = (ys, 0)"

subsection \<open>find_fit\<close>

lemma find_fit_loop_seg:
  assumes "seg (mem s) a bs" "get32 (mem s) (a + bsum bs - 4) = tag 0 True"
    "in_arena s (a - 4) (a + bsum bs)" "size_ok n"
  shows "find_fit_loop (word_of_int n) a s = Inr (first_fit a bs n)"
  using assms
proof (induction bs arbitrary: a)
  case Nil
  then have "accessible s (a - 4) 4" by (auto intro: in_arenaD)
  with Nil show ?case by (simp add: find_fit_loop.simps [of _ a] HDRP_run load32_run tag_simps size_ok_def)
next
  case (Cons b bs)
  obtain sz al where b: "b = (sz, al)" by force
  have n: "0 \<le> bsum bs" using Cons.prems(1) bsum_nonneg [of "mem s" "a + fst b" bs] by auto
  have ok: "size_ok sz" "16 \<le> sz" "get32 (mem s) (a - 4) = tag sz al"
    using Cons.prems(1) b by (simp_all add: block_ok_def)
  have acc: "accessible s (a - 4) 4" using Cons.prems(3) b ok n by (auto intro: in_arenaD)
  have IH: "find_fit_loop (word_of_int n) (a + sz) s = Inr (first_fit (a + sz) bs n)"
    using Cons.prems b ok by (intro Cons.IH) (simp_all add: in_arena_def add.assoc)
  have nz: "(word_of_int sz :: uint32) \<noteq> 0"
    using ok uint_word_of_size [of sz] by auto
  have le: "(word_of_int n :: uint64) \<le> word_of_int sz \<longleftrightarrow> n \<le> sz"
    using ok Cons.prems(4) by (simp add: word_le_def uint64_word_of_size)
  show ?case
    using acc ok IH nz le by (simp add: find_fit_loop.simps [of _ a] HDRP_run load32_run b tag_simps ucast_word_of_size)
qed

lemma first_fit_cases:
  "0 < a \<Longrightarrow> \<forall>b\<in>set bs. 0 < fst b \<Longrightarrow> 
   (first_fit a bs n = NULL \<and> (\<forall>b\<in>set bs. snd b \<or> fst b < n)) \<or>
   (\<exists>xs sz ys. bs = xs @ (sz, False) # ys \<and> n \<le> sz \<and> (\<forall>b\<in>set xs. snd b \<or> fst b < n) \<and> first_fit a bs n = a + bsum xs \<and> first_fit a bs n \<noteq> NULL)"
proof (induction a bs n rule: first_fit.induct)
  case (2 a sz al bs n)
  show ?case
  proof (cases "\<not> al \<and> n \<le> sz")
    case True
    then have "(sz, al) # bs = [] @ (sz, False) # bs" by simp
    then show ?thesis using True 2(2) by (intro disjI2 exI [of _ "[]"] exI [of _ sz] exI [of _ bs]) (auto simp: NULL_def)
  next
    case False
    then have eq: "first_fit a ((sz, al) # bs) n = first_fit (a + sz) bs n" by auto
    from 2(1) [OF False] 2(2,3) consider
        "first_fit (a + sz) bs n = NULL" "\<forall>b\<in>set bs. snd b \<or> fst b < n"
      | xs z ys where "bs = xs @ (z, False) # ys" "n \<le> z" "\<forall>b\<in>set xs. snd b \<or> fst b < n"
          "first_fit (a + sz) bs n = a + sz + bsum xs" "first_fit (a + sz) bs n \<noteq> NULL"
      by auto
    then show ?thesis
    proof cases
      case 1
      then show ?thesis using False eq by auto
    next
      case (2 xs z ys)
      then show ?thesis using False eq
        by (intro disjI2 exI [of _ "(sz, al) # xs"] exI [of _ z] exI [of _ ys]) (auto simp: add.assoc)
    qed
  qed
qed (simp add: NULL_def)

lemma find_fit_refines:
  assumes wf: "wf_heap s bs" and n: "size_ok n"
  shows "find_fit (word_of_int n) s = Inr (first_fit (heap_listp s) bs n, s)"
proof -
  have "find_fit_loop (word_of_int n) (heap_listp s) s = Inr (first_fit (heap_listp s) bs n)"
    using wf_heap_arena [OF wf] wf n by (intro find_fit_loop_seg) (simp_all add: wf_heap_def)
  then show ?thesis by (simp add: find_fit_def)
qed

text \<open>
  C3: First fit. On a well-formed heap and for any request \<open>n\<close>, \<open>find_fit\<close> terminates without
  changing the state and returns either the payload address of the first free block of at
  least \<open>n\<close> bytes, or \<open>NULL\<close>, and then every block is allocated or too small.
\<close>

theorem find_fit_correct:
  assumes wf: "wf_heap s bs" and n: "size_ok n"
  shows "\<exists>p. find_fit (word_of_int n) s = Inr (p, s) \<and>
    (if p = NULL then \<forall>b\<in>set bs. snd b \<or> fst b < n
     else \<exists>xs sz ys. bs = xs @ (sz, False) # ys \<and> n \<le> sz \<and> p = heap_listp s + bsum xs
            \<and> (\<forall>b\<in>set xs. snd b \<or> fst b < n))"
proof -
  have pos: "\<forall>b\<in>set bs. 0 < fst b" using wf seg_sizes_pos by (auto simp: wf_heap_def)
  show ?thesis
    using find_fit_refines [OF wf n] first_fit_cases [OF wf_heap_arena(3) [OF wf] pos, of n] by auto
qed

theorem find_fit_correct_witness: "\<exists>p. find_fit 40 sample_heap = Inr (p, sample_heap) \<and> p \<noteq> NULL"
  using find_fit_correct [OF sample_heap_wf, of 40]
  by (auto simp: size_ok_def sample_blocks_def split: if_splits)

subsection \<open>place\<close>

lemma place_split:
  assumes r: "in_arena s (bp - 4) (bp + csz - 4)" 
   and b: "block_ok (mem s) bp (csz, al)" 
   and a: "size_ok asz" "16 \<le> asz" "asz + 16 \<le> csz"
  shows "place bp (word_of_int asz) s =
    Inr ((), s\<lparr>mem := set_block (set_block (mem s) bp (asz, True)) (bp + asz) (csz - asz, False)\<rparr>)"
proof -
  have c: "size_ok csz" "get32 (mem s) (bp - 4) = tag csz al" using b by (simp_all add: block_ok_def)
  have d: "size_ok (csz - asz)" using a c by (auto simp: size_ok_def)
  let ?s = "s\<lparr>mem := set_block (mem s) bp (asz, True)\<rparr>"
  have 1: "GET_SIZE (bp - 4) s = Inr (word_of_int csz, s)"
    using r a c by (simp add: run_simps in_arenaD tag_simps)
  have w: "word_of_int csz - word_of_int asz = (word_of_int (csz - asz) :: uint64)" by simp
  have 2: "NEXT_BLKP bp ?s = Inr (bp + asz, ?s)"
    using block_header(1) [OF set_block_ok [of "(asz, True)" "mem s" bp]] r a
    by (simp add: run_simps in_arenaD tag_simps)
  have r1: "in_arena s (bp - 4) (bp + asz - 4)" "in_arena ?s (bp + asz - 4) (bp + asz + (csz - asz) - 4)"
    using r a by (simp_all add: in_arena_def)
  show ?thesis
    unfolding place_def HDRP_run
    using a d c(1) by (simp add: bindE_step 1 w ucast_word_of_size le_word_of_size PACK_tag 2 put_block_run(2) [OF r1(1)] put_block_run(1) [OF r1(2)] del: of_int_diff)
qed

lemma place_whole:
  assumes r: "in_arena s (bp - 4) (bp + csz - 4)" 
   and b: "block_ok (mem s) bp (csz, al)" 
   and a: "size_ok asz" "asz \<le> csz" "csz < asz + 16"
  shows "place bp (word_of_int asz) s =
    Inr ((), s\<lparr>mem := set_block (mem s) bp (csz, True)\<rparr>)"
proof -
  have c: "size_ok csz" "16 \<le> csz" "get32 (mem s) (bp - 4) = tag csz al" using b by (simp_all add: block_ok_def)
  have d: "size_ok (csz - asz)" using a c by (auto simp: size_ok_def)
  have 1: "GET_SIZE (bp - 4) s = Inr (word_of_int csz, s)"
    using r a c by (simp add: run_simps in_arenaD tag_simps)
  have w: "word_of_int csz - word_of_int asz = (word_of_int (csz - asz) :: uint64)" by simp
  show ?thesis
    unfolding place_def HDRP_run
    using a c d by (simp add: bindE_step 1 w le_word_of_size ucast_word_of_size PACK_tag put_block_run(1) [OF r] del: of_int_diff)
qed

lemma place_on_blocks:
  assumes wf: "wf_heap s (xs @ (csz, False) # ys)" and n: "size_ok n" "16 \<le> n" "n \<le> csz"
  shows "\<exists>m'. place (heap_listp s + bsum xs) (word_of_int n) s = Inr ((), s\<lparr>mem := m'\<rparr>)
    \<and> wf_heap (s\<lparr>mem := m'\<rparr>) (xs @ split_block csz n @ ys)
    \<and> (\<forall>x. x < heap_listp s + bsum xs - 4 \<or> heap_listp s + bsum xs + csz - 4 \<le> x \<longrightarrow> m' x = mem s x)"
proof -
  let ?bp = "heap_listp s + bsum xs"
  have b: "block_ok (mem s) ?bp (csz, False)" and r: "in_arena s (?bp - 4) (?bp + csz - 4)"
    using wf_heap_block [OF wf] by (auto intro: in_arena_sub)
  have xs: "xs \<noteq> []" using wf_heap_free_split [OF wf] by auto
  have wf': "wf_heap s (xs @ [(csz, False)] @ ys)" using wf by simp
  show ?thesis
  proof (cases "n + 16 \<le> csz")
    case True
    let ?m = "set_block (set_block (mem s) ?bp (n, True)) (?bp + n) (csz - n, False)"
    have d: "size_ok (csz - n)" using n b by (auto simp: size_ok_def block_ok_def)
    have out: "?m x = mem s x" if "x < ?bp - 4 \<or> ?bp + csz - 4 \<le> x" for x
      using that n(2) True by (auto simp: set_block_outside)
    have "block_ok ?m ?bp (n, True)"
      by (rule block_ok_frame [OF _ set_block_ok]) (use n True in \<open>auto simp: set_block_outside\<close>)
    moreover have "block_ok ?m (?bp + n) (csz - n, False)" using d True by (intro set_block_ok) auto
    ultimately have "wf_heap (s\<lparr>mem := ?m\<rparr>) (xs @ split_block csz n @ ys)"
      using True by (intro wf_heap_replace [OF wf' xs _ _ out]) (auto simp: split_block_def)
    with out place_split [OF r b n(1,2) True] show ?thesis by blast
  next
    case False
    let ?m = "set_block (mem s) ?bp (csz, True)"
    have k: "size_ok csz" "16 \<le> csz" using b by (simp_all add: block_ok_def)
    have out: "?m x = mem s x" if "x < ?bp - 4 \<or> ?bp + csz - 4 \<le> x" for x
      using that k by (auto simp: set_block_outside)
    have "wf_heap (s\<lparr>mem := ?m\<rparr>) (xs @ split_block csz n @ ys)"
      using False k by (intro wf_heap_replace [OF wf' xs _ _ out]) (auto simp: split_block_def set_block_ok)
    moreover have "csz < n + 16" using False by simp
    ultimately show ?thesis using out place_whole [OF r b n(1,3)] by blast
  qed
qed

text \<open>
  C2: Splitting. Placing a request of \<open>n\<close> bytes in a free block of at least that size never
  faults, writes only inside that block's own words, and turns the block into an allocated
  one: of \<open>n\<close> bytes followed by a free block with the rest if the rest can hold a block
  (16 bytes), of the whole size otherwise; the heap stays well-formed.
\<close>

theorem place_refines:
  assumes wf: "wf_heap s (xs @ (csz, False) # ys)" and n: "size_ok n" "16 \<le> n" "n \<le> csz"
  shows "\<exists>m'. place (heap_listp s + bsum xs) (word_of_int n) s = Inr ((), s\<lparr>mem := m'\<rparr>)
    \<and> wf_heap (s\<lparr>mem := m'\<rparr>) (xs @ split_block csz n @ ys)
    \<and> (\<forall>x. x < heap_listp s + bsum xs - 4 \<or> heap_listp s + bsum xs + csz - 4 \<le> x \<longrightarrow> m' x = mem s x)"
  by (rule place_on_blocks [OF assms])

theorem place_refines_witness:
  "\<exists>m'. place 4128 32 sample_heap = Inr ((), sample_heap\<lparr>mem := m'\<rparr>)
    \<and> wf_heap (sample_heap\<lparr>mem := m'\<rparr>)
        [(24, True), (32, True), (32, False), (32, True), (48, False), (16, False)]"
  using place_refines [of sample_heap "[(24, True)]" 64 "[(32, True), (48, False), (16, False)]" 32]
    sample_heap_wf by (auto simp: sample_blocks_def split_block_def size_ok_def)

subsection \<open>coalesce\<close>

lemma coalesce_reads:
  assumes r: "in_arena s (bp - psz - 4) (bp + sz + nsz)" 
   and p: "block_ok (mem s) (bp - psz) (psz, pal)" and b: "block_ok (mem s) bp (sz, al)"
   and n: "get32 (mem s) (bp + sz - 4) = tag nsz nal" "size_ok nsz"
  shows "PREV_BLKP bp s = Inr (bp - psz, s)" "NEXT_BLKP bp s = Inr (bp + sz, s)"
    "GET_SIZE (bp - 4) s = Inr (word_of_int sz, s)" "FTRP (bp - psz) s = Inr (bp - 8, s)" "FTRP bp s = Inr (bp + sz - 8, s)"
    "GET_ALLOC (bp - 8) s = Inr (if pal then 1 else 0, s)" 
    "GET_ALLOC (bp + sz - 4) s = Inr (if nal then 1 else 0, s)"
    "GET_SIZE (bp - psz - 4) s = Inr (word_of_int psz, s)"
    "GET_SIZE (bp + sz - 4) s = Inr (word_of_int nsz, s)"
proof -
  have k: "size_ok sz" "16 \<le> sz" "size_ok psz" "16 \<le> psz" "0 \<le> nsz" using p b n by (simp_all add: block_ok_def size_ok_def)
  have a: "accessible s (bp - 4) 4" "accessible s (bp - 8) 4" "accessible s (bp + sz - 4) 4" "accessible s (bp - psz - 4) 4"
    using r k by (auto intro!: in_arenaD)
  have g: "get32 (mem s) (bp - 4) = tag sz al" "get32 (mem s) (bp - 8) = tag psz pal" "get32 (mem s) (bp - psz - 4) = tag psz pal"
    using p b by (simp_all add: block_ok_def)
  show "PREV_BLKP bp s = Inr (bp - psz, s)" "NEXT_BLKP bp s = Inr (bp + sz, s)"
    "GET_SIZE (bp - 4) s = Inr (word_of_int sz, s)" "FTRP (bp - psz) s = Inr (bp - 8, s)" "FTRP bp s = Inr (bp + sz - 8, s)"
    "GET_ALLOC (bp - 8) s = Inr (if pal then 1 else 0, s)" 
    "GET_ALLOC (bp + sz - 4) s = Inr (if nal then 1 else 0, s)"
    "GET_SIZE (bp - psz - 4) s = Inr (word_of_int psz, s)"
    "GET_SIZE (bp + sz - 4) s = Inr (word_of_int nsz, s)"
    using a g n k by (simp_all add: PREV_BLKP_run NEXT_BLKP_run GET_SIZE_run GET_ALLOC_run FTRP_run tag_simps)
qed

lemma coalesce_none:
  assumes "in_arena s (bp - psz - 4) (bp + sz + nsz)" 
   and "block_ok (mem s) (bp - psz) (psz, True)" and "block_ok (mem s) bp (sz, al)"
   and "get32 (mem s) (bp + sz - 4) = tag nsz True" "size_ok nsz"
  shows "coalesce bp s = Inr (bp, s)"
  unfolding coalesce_def HDRP_run bindE_assoc by (simp add: bindE_step coalesce_reads [OF assms])

lemma coalesce_next:
  assumes r: "in_arena s (bp - psz - 4) (bp + sz + nsz)" 
   and p: "block_ok (mem s) (bp - psz) (psz, True)" and b: "block_ok (mem s) bp (sz, al)"
   and n: "block_ok (mem s) (bp + sz) (nsz, False)" and tot: "size_ok (sz + nsz)"
  shows "coalesce bp s = Inr (bp, s\<lparr>mem := set_block (mem s) bp (sz + nsz, False)\<rparr>)"
proof -
  have n': "get32 (mem s) (bp + sz - 4) = tag nsz False" "size_ok nsz" using n by (simp_all add: block_ok_def)
  have k: "16 \<le> sz + nsz" "0 \<le> psz" using b n p by (simp_all add: block_ok_def)
  have r1: "in_arena s (bp - 4) (bp + (sz + nsz) - 4)" using r k by (simp add: in_arena_def)
  show ?thesis
    unfolding coalesce_def HDRP_run bindE_assoc 
    by (simp add: bindE_step coalesce_reads [OF r p b n'] add_word_sizes PACK_tag put_block_run(2) [OF r1 tot k(1)] del: of_int_add)
qed

lemma coalesce_prev:
  assumes r: "in_arena s (bp - psz - 4) (bp + sz + nsz)" 
   and p: "block_ok (mem s) (bp - psz) (psz, False)" and b: "block_ok (mem s) bp (sz, al)"
   and n: "get32 (mem s) (bp + sz - 4) = tag nsz True" "size_ok nsz" and tot: "size_ok (sz + psz)"
  shows "coalesce bp s = Inr (bp - psz, s\<lparr>mem := set_block (mem s) (bp - psz) (sz + psz, False)\<rparr>)"
proof -
  let ?t = "tag (sz + psz) False"
  let ?s = "s\<lparr>mem := put32 (mem s) (bp + sz - 8) ?t\<rparr>"
  let ?u = "s\<lparr>mem := put32 (put32 (mem s) (bp + sz - 8) ?t) (bp - psz - 4) ?t\<rparr>"
  have k: "16 \<le> sz" "16 \<le> psz" "size_ok psz" "0 \<le> nsz" "get32 (mem s) (bp - 8) = tag psz False"
    using b p n by (simp_all add: block_ok_def size_ok_def)
  have a: "accessible s (bp + sz - 8) 4" "accessible s (bp - psz - 4) 4" "accessible s (bp - 8) 4"
    using r k by (auto intro!: in_arenaD)
  have 1: "PUT (bp + sz - 8) ?t s = Inr ((), ?s)" "PUT (bp - psz - 4) ?t ?s = Inr ((), ?u)"
    using a by (simp_all add: run_simps)
  have 2: "PREV_BLKP bp ?s = Inr (bp - psz, ?s)" "PREV_BLKP bp ?u = Inr (bp - psz, ?u)"
    using a k by (simp_all add: run_simps word_mem_simps tag_simps)
  have 3: "put32 (put32 (mem s) (bp + sz - 8) ?t) (bp - psz - 4) ?t = set_block (mem s) (bp - psz) (sz + psz, False)"
    unfolding set_block_def using k by (subst put32_commute) (simp_all add: algebra_simps)
  show ?thesis
    unfolding coalesce_def HDRP_run bindE_assoc 
    by (simp add: bindE_step coalesce_reads [OF r p b n] add_word_sizes PACK_tag 1 2 3 [symmetric] del: of_int_add)
qed

lemma coalesce_both:
  assumes r: "in_arena s (bp - psz - 4) (bp + sz + nsz)" 
   and p: "block_ok (mem s) (bp - psz) (psz, False)" and b: "block_ok (mem s) bp (sz, al)"
   and n: "block_ok (mem s) (bp + sz) (nsz, False)" and tot: "size_ok (sz + (psz + nsz))"
  shows "coalesce bp s = Inr (bp - psz, s\<lparr>mem := set_block (mem s) (bp - psz) (sz + (psz + nsz), False)\<rparr>)"
proof -
  let ?t = "tag (sz + (psz + nsz)) False"
  let ?s = "s\<lparr>mem := put32 (mem s) (bp - psz - 4) ?t\<rparr>"
  let ?u = "s\<lparr>mem := put32 (put32 (mem s) (bp - psz - 4) ?t) (bp + sz + nsz - 8) ?t\<rparr>"
  have n': "get32 (mem s) (bp + sz - 4) = tag nsz False" "size_ok nsz" using n by (simp_all add: block_ok_def)
  have k: "16 \<le> sz" "16 \<le> psz" "16 \<le> nsz" "size_ok psz" "size_ok sz" "get32 (mem s) (bp - 8) = tag psz False" "get32 (mem s) (bp - 4) = tag sz al"
     "get32 (mem s) (bp + sz + nsz - 8) = tag nsz False"
    using b p n by (simp_all add: block_ok_def size_ok_def)
  have a: "accessible s (bp + sz + nsz - 8) 4" "accessible s (bp - psz - 4) 4" "accessible s (bp - 8) 4" "accessible s (bp - 4) 4" "accessible s (bp + sz - 4) 4"
    using r k by (auto intro!: in_arenaD)
  have 1: "PUT (bp - psz - 4) ?t s = Inr ((), ?s)" "PUT (bp + sz + nsz - 8) ?t ?s = Inr ((), ?u)"
    using a by (simp_all add: run_simps)
  have 2: "PREV_BLKP bp ?u = Inr (bp - psz, ?u)" "NEXT_BLKP bp ?s = Inr (bp + sz, ?s)" "FTRP (bp + sz) ?s = Inr (bp + sz + nsz - 8, ?s)" 
    using a k n' by (simp_all add: run_simps word_mem_simps tag_simps)
  have 4: "FTRP (bp + sz) s = Inr (bp + sz + nsz - 8, s)" "GET_SIZE (bp + sz + nsz - 8) s = Inr (word_of_int nsz, s)"
    using a k n' by (simp_all add: run_simps word_mem_simps tag_simps)
  have 3: "put32 (put32 (mem s) (bp - psz - 4) ?t) (bp + sz + nsz - 8) ?t = set_block (mem s) (bp - psz) (sz + (psz + nsz), False)"
    unfolding set_block_def by (simp add: algebra_simps)
  show ?thesis
    unfolding coalesce_def HDRP_run bindE_assoc 
    by (simp add: bindE_step coalesce_reads [OF r p b n'] add_word_sizes PACK_tag 1 2 3 [symmetric] 4 del: of_int_add)
qed

lemma coalesce_refines:
  assumes wf: "wf_heap s (xs @ (sz, False) # ys)"
  defines "ls \<equiv> fst (merge_left xs)" and "psz \<equiv> snd (merge_left xs)"
    and "rs \<equiv> fst (merge_right ys)" and "nsz \<equiv> snd (merge_right ys)"
  shows "\<exists>m'. coalesce (heap_listp s + bsum xs) s = Inr (heap_listp s + bsum ls, s\<lparr>mem := m'\<rparr>)
    \<and> wf_heap (s\<lparr>mem := m'\<rparr>) (ls @ (psz + sz + nsz, False) # rs)
    \<and> (\<forall>x. x < heap_listp s + bsum ls - 4 \<or> heap_listp s + bsum xs + sz + nsz - 4 \<le> x \<longrightarrow> m' x = mem s x)"
proof -
  let ?bp = "heap_listp s + bsum xs"
  obtain xs' p pal where xs: "xs = xs' @ [(p, pal)]" using wf_heap_free_split [OF wf] by blast
  have b: "block_ok (mem s) ?bp (sz, False)" using wf_heap_block [OF wf] by simp
  have wfp: "wf_heap s (xs' @ (p, pal) # (sz, False) # ys)" using wf xs by simp
  have pb: "block_ok (mem s) (?bp - p) (p, pal)" "in_arena s (?bp - p - 4) ?bp"
    using wf_heap_block [OF wfp] xs by (simp_all add: algebra_simps)
  have rall: "in_arena s (?bp - p - 4) (heap_listp s + bsum (xs @ (sz, False) # ys))"
    using wf_heap_arena(1) [OF wf] pb by (simp add: in_arena_def)
  have k: "size_ok p" "16 \<le> p" "size_ok sz" "16 \<le> sz" using pb b by (simp_all add: block_ok_def)
  have xs'ne: "xs' \<noteq> []" if "\<not> pal" using wfp that by (auto simp: wf_heap_def)
  have wf1: "wf_heap s (xs @ [(sz, False)] @ ys)" and wf2: "wf_heap s ((xs @ [(sz, False)]) @ ys)" using wf by simp_all
  have nh: "get32 (mem s) (?bp + sz - 4) = (case ys of [] \<Rightarrow> tag 0 True | b # _ \<Rightarrow> tag (fst b) (snd b))"
    using wf_heap_next_header [OF wf2] by (simp add: add.assoc)
  have finish: ?thesis
    if run: "coalesce ?bp s = Inr (heap_listp s + bsum ls, s\<lparr>mem := set_block (mem s) (heap_listp s + bsum ls) (psz + sz + nsz, False)\<rparr>)"
      and parts: "xs @ (sz, False) # ys = ls @ zs @ rs" "bsum zs = psz + sz + nsz" and ls: "ls \<noteq> []" "bsum ls = bsum xs - psz" and pos: "0 \<le> psz" "0 \<le> nsz" "8 dvd psz" "8 dvd nsz"
    for zs
  proof -
    let ?m = "set_block (mem s) (heap_listp s + bsum ls) (psz + sz + nsz, False)"
    have w: "wf_heap s (ls @ zs @ rs)" using wf parts(1) by simp
    have ok: "size_ok (psz + sz + nsz)" "16 \<le> psz + sz + nsz"
      using wf_heap_sum [OF w] parts(2) pos k by (auto simp: size_ok_def)
    have out: "?m x = mem s x" if "x < heap_listp s + bsum ls - 4 \<or> heap_listp s + bsum ls + bsum zs - 4 \<le> x" for x
      using that ok parts(2) by (auto simp: set_block_outside)
    have "wf_heap (s\<lparr>mem := ?m\<rparr>) (ls @ [(psz + sz + nsz, False)] @ rs)"
      by (rule wf_heap_replace [OF w ls(1) _ _ out]) (use ok parts(2) in \<open>auto simp: set_block_ok\<close>)
    moreover have "heap_listp s + bsum ls + bsum zs = ?bp + sz + nsz" using parts(2) ls(2) by simp
    ultimately show ?thesis using run out by auto
  qed
  have all: "in_arena s (?bp - p - 4) (heap_listp s + bsum xs + sz + bsum ys)"
    using rall by (simp add: add.assoc)
  have nn: "0 \<le> bsum rs'" if "ys = b # rs'" for b rs'
    using wf that bsum_nonneg [of "mem s" "heap_listp s + (bsum xs + (sz + fst b))" rs'] by (simp add: wf_heap_def add.assoc)
  have right: "(\<exists>n. get32 (mem s) (?bp + sz - 4) = tag n True \<and> size_ok n \<and> in_arena s (?bp - p - 4) (?bp + sz + n))
      \<and> merge_right ys = (ys, 0)" if side: "ys = [] \<or> snd (hd ys)"
  proof (cases ys)
    case Nil
    then show ?thesis using nh all by (auto simp: size_ok_def)
  next
    case (Cons b rs')
    obtain n where bn: "b = (n, True)" using side Cons by (cases b) auto
    have "block_ok (mem s) (heap_listp s + bsum (xs @ [(sz, False)])) (n, True)"
      by (rule wf_heap_block) (use wf Cons bn in simp)
    then show ?thesis using nh all Cons bn nn [OF Cons]
      by (intro conjI exI [of _ n]) (auto simp: block_ok_def in_arena_def)
  qed
  have rfree: "block_ok (mem s) (?bp + sz) (n, False)" "in_arena s (?bp - p - 4) (?bp + sz + n)" if "ys = (n, False) # rs'" for n rs'
  proof -
    have "block_ok (mem s) (heap_listp s + bsum (xs @ [(sz, False)])) (n, False)"
      by (rule wf_heap_block) (use wf that in simp)
    then show "block_ok (mem s) (?bp + sz) (n, False)" by (simp add: add.assoc)
    show "in_arena s (?bp - p - 4) (?bp + sz + n)" using all nn [OF that] that by (simp add: in_arena_def)
  qed
  have ml: "merge_left xs = (if pal then (xs, 0) else (xs', p))" using xs by (simp add: merge_left_def)
  consider (none) "pal" "ys = [] \<or> snd (hd ys)" | (right) n rs' where "pal" "ys = (n, False) # rs'"
    | (left) "\<not> pal" "ys = [] \<or> snd (hd ys)" | (both) n rs' where "\<not> pal" "ys = (n, False) # rs'"
    by (cases ys) (auto, metis (full_types) eq_snd_iff)
  then show ?thesis
  proof cases
    case none
    then have "coalesce ?bp s = Inr (?bp, s)" 
      using right coalesce_none [OF _ _ b] pb by metis
    then show ?thesis using none right ml wf unfolding ls_def psz_def rs_def nsz_def
      by (intro exI [of _ "mem s"]) simp
  next
    case (right n rs')
    have tot: "size_ok (sz + n)" using wf_heap_sum [of s xs "[(sz, False), (n, False)]" rs'] wf right rfree [OF right(2)] k
      by (auto simp: size_ok_def block_ok_def)
    show ?thesis
      using coalesce_next [OF rfree(2) [OF right(2)] _ b rfree(1) [OF right(2)] tot] pb right ml xs rfree [OF right(2)] 
      unfolding ls_def psz_def rs_def nsz_def
      by (intro finish [unfolded ls_def psz_def rs_def nsz_def, of "[(sz, False), (n, False)]"]) (auto simp: block_ok_def size_ok_def)
  next
    case left
    then obtain n where n: "get32 (mem s) (?bp + sz - 4) = tag n True" "size_ok n" "in_arena s (?bp - p - 4) (?bp + sz + n)"
      "merge_right ys = (ys, 0)" using right by blast
    have tot: "size_ok (sz + p)" using wf_heap_sum [of s xs' "[(p, False), (sz, False)]" ys] wf left xs k
      by (auto simp: size_ok_def)
    show ?thesis
      using coalesce_prev [OF n(3) _ b n(1,2) tot] pb left ml xs n(4) k xs'ne
      by (intro finish [unfolded ls_def psz_def rs_def nsz_def, of "[(p, False), (sz, False)]", folded ls_def psz_def rs_def nsz_def])
        (auto simp: ls_def psz_def rs_def nsz_def size_ok_def add.commute add.left_commute algebra_simps)
  next
    case (both n rs')
    have tot: "size_ok (sz + (p + n))" using wf_heap_sum [of s xs' "[(p, False), (sz, False), (n, False)]" rs'] wf both xs k rfree [OF both(2)]
      by (auto simp: size_ok_def block_ok_def)
    show ?thesis
      using coalesce_both [OF rfree(2) [OF both(2)] _ b rfree(1) [OF both(2)] tot] pb both ml xs k xs'ne rfree [OF both(2)]
      by (intro finish [of "[(p, False), (sz, False), (n, False)]"])
        (auto simp: ls_def psz_def rs_def nsz_def size_ok_def block_ok_def algebra_simps)
  qed
qed

text \<open>No two neighbouring blocks are free: what immediate coalescing is for.\<close>

fun no_free_pair :: "block list \<Rightarrow> bool" where
  "no_free_pair (x # y # bs) \<longleftrightarrow> (snd x \<or> snd y) \<and> no_free_pair (y # bs)"
| "no_free_pair bs \<longleftrightarrow> True"

lemma no_free_pair_Cons:
  "no_free_pair (b # bs) \<longleftrightarrow> no_free_pair bs \<and> (bs \<noteq> [] \<longrightarrow> snd b \<or> snd (hd bs))"
  by (cases bs) auto

lemma no_free_pair_append:
  "no_free_pair (xs @ ys) \<longleftrightarrow> no_free_pair xs \<and> no_free_pair ys
     \<and> (xs \<noteq> [] \<and> ys \<noteq> [] \<longrightarrow> snd (last xs) \<or> snd (hd ys))"
  by (induction xs) (auto simp: no_free_pair_Cons)

lemma merge_no_free_pair:
  assumes "no_free_pair xs" "no_free_pair ys"
  shows "no_free_pair (fst (merge_left xs) @ (sz, False) # fst (merge_right ys))"
proof -
  have l: "no_free_pair (fst (merge_left xs)) \<and> (fst (merge_left xs) \<noteq> [] \<longrightarrow> snd (last (fst (merge_left xs))))"
    using assms(1) by (cases xs rule: rev_cases) (auto simp: merge_left_def no_free_pair_append)
  have r: "no_free_pair (fst (merge_right ys)) \<and> (fst (merge_right ys) \<noteq> [] \<longrightarrow> snd (hd (fst (merge_right ys))))"
    using assms(2) by (cases ys rule: merge_right.cases) (auto simp: no_free_pair_Cons)
  from l r show ?thesis by (auto simp: no_free_pair_append no_free_pair_Cons)
qed

text \<open>
  C1: Coalescing. For a free block of a well-formed heap, \<open>coalesce\<close> never faults, returns the
  payload address of the block merged with its free neighbours on either side, writes only
  inside the merged blocks, and keeps the heap well-formed; if the blocks on either side had
  no two free neighbours, the whole heap has none afterwards.
\<close>

theorem coalesce_correct:
  assumes wf: "wf_heap s (xs @ (sz, False) # ys)"
  defines "ls \<equiv> fst (merge_left xs)" and "psz \<equiv> snd (merge_left xs)"
    and "rs \<equiv> fst (merge_right ys)" and "nsz \<equiv> snd (merge_right ys)"
  shows "\<exists>m'. coalesce (heap_listp s + bsum xs) s = Inr (heap_listp s + bsum ls, s\<lparr>mem := m'\<rparr>)
    \<and> wf_heap (s\<lparr>mem := m'\<rparr>) (ls @ (psz + sz + nsz, False) # rs)
    \<and> (no_free_pair xs \<and> no_free_pair ys \<longrightarrow> no_free_pair (ls @ (psz + sz + nsz, False) # rs))
    \<and> (\<forall>x. x < heap_listp s + bsum ls - 4 \<or> heap_listp s + bsum xs + sz + nsz - 4 \<le> x \<longrightarrow> m' x = mem s x)"
  using coalesce_refines [OF wf] merge_no_free_pair [of xs ys]
  unfolding ls_def psz_def rs_def nsz_def by blast

theorem coalesce_correct_witness:
  "\<exists>m'. coalesce 4224 sample_heap = Inr (4224, sample_heap\<lparr>mem := m'\<rparr>)
    \<and> wf_heap (sample_heap\<lparr>mem := m'\<rparr>) [(24, True), (64, False), (32, True), (64, False)]"
  using coalesce_correct [of sample_heap "[(24, True), (64, False), (32, True)]" 48 "[(16, False)]"]
    sample_heap_wf by (auto simp: sample_blocks_def merge_left_def)

end
