(* ===== verification/MmExplicit.thy ===== *)
theory MmExplicit
  imports MmInvariant
begin

section \<open>The explicit free list: the allocator itself (mm.c)\<close>

text \<open>
  \<open>mm_init\<close>, \<open>mm_malloc\<close>, \<open>mm_free\<close> and \<open>mm_realloc\<close> of \<^verbatim>\<open>labs/malloclab/mm.c\<close> with
  the routines on the explicit free list they call. A stored pointer is the 8-byte word at its
  address, \<open>*p = q\<close> is \<open>store64\<close>, and a diagnostic that reads the heap while it prints
  (\<open>mm_checkheap(1)\<close>, \<open>printblock\<close>, the two reads of \<open>heap_basefree\<close> in \<open>exp_coalesce\<close>)
  is part of the command, since it can fault; its lines go to \<open>out\<close>.
\<close>

subsection \<open>The code\<close>

definition coalesce_helper :: "int \<Rightarrow> ('a mm_scheme, unit) cmd" where
  "coalesce_helper bp =
     whenE (bp \<noteq> NULL)
       (bindE (PRED bp) (\<lambda>pred.
        bindE (if pred \<noteq> NULL
               then bindE (PRED bp) (\<lambda>pred. bindE (SUCC bp) (\<lambda>succ. set_SUCC pred succ))
               else bindE (SUCC bp) (\<lambda>succ. modifyE (\<lambda>s. s\<lparr>heap_basefree := succ\<rparr>))) (\<lambda>_.
        bindE (SUCC bp) (\<lambda>succ.
        whenE (succ \<noteq> NULL)
          (bindE (bindE (SUCC bp) PRED) (\<lambda>target.
           bindE (PRED bp) (\<lambda>pred. PUT_64VAL target pred)))))))"

text \<open>The tail of \<open>exp_coalesce\<close> that puts a block at the front of the free list.\<close>

definition push_front :: "int \<Rightarrow> ('a mm_scheme, int) cmd" where
  "push_front bp =
     bindE (getsE heap_basefree) (\<lambda>base.
     bindE (bindE (PRED base) (\<lambda>p. PUT_64VAL p bp)) (\<lambda>_.
     bindE (bindE (SUCC bp) (\<lambda>p. PUT_64VAL p base)) (\<lambda>_.
     bindE (bindE (PRED bp) (\<lambda>p. PUT_64VAL p NULL)) (\<lambda>_.
     bindE (modifyE (\<lambda>s. s\<lparr>heap_basefree := bp\<rparr>)) (\<lambda>_.
       retE bp)))))"

definition put_tags :: "int \<Rightarrow> uint32 \<Rightarrow> ('a memlib_scheme, unit) cmd" where
  "put_tags bp w = bindE (PUT (HDRP bp) w) (\<lambda>_. bindE (FTRP bp) (\<lambda>f. PUT f w))"

definition exp_coalesce :: "int \<Rightarrow> ('a mm_scheme, int) cmd" where
  "exp_coalesce bp =
     bindE (bindE (mm_checkheap True) emit) (\<lambda>_.
     bindE (bindE (bindE (PREV_BLKP bp) FTRP) GET_ALLOC) (\<lambda>prev_alloc.
     bindE (retE (if bp = NULL then 1 else prev_alloc)) (\<lambda>prev_alloc.
     bindE (bindE (NEXT_BLKP bp) (\<lambda>n. GET_ALLOC (HDRP n))) (\<lambda>next_alloc.
     bindE (GET_SIZE (HDRP bp)) (\<lambda>sz.
       if prev_alloc \<noteq> 0 \<and> next_alloc \<noteq> 0 then push_front bp
       else
         bindE
          (if prev_alloc \<noteq> 0 \<and> next_alloc = 0 then
             bindE (bindE (NEXT_BLKP bp) (\<lambda>n. GET_SIZE (HDRP n))) (\<lambda>nsz.
             bindE (retE (sz + nsz)) (\<lambda>sz.
             bindE (bindE (NEXT_BLKP bp) coalesce_helper) (\<lambda>_.
             bindE (put_tags bp (PACK sz 0)) (\<lambda>_.
               retE bp))))
           else if prev_alloc = 0 \<and> next_alloc \<noteq> 0 then
             bindE (bindE (PREV_BLKP bp) (\<lambda>p. GET_SIZE (HDRP p))) (\<lambda>psz.
             bindE (retE (sz + psz)) (\<lambda>sz.
             bindE (PREV_BLKP bp) (\<lambda>bp.
             bindE (coalesce_helper bp) (\<lambda>_.
             bindE (put_tags bp (PACK sz 0)) (\<lambda>_.
               retE bp)))))
           else
             bindE (bindE (PREV_BLKP bp) (\<lambda>p. GET_SIZE (HDRP p))) (\<lambda>psz.
             bindE (bindE (bindE (NEXT_BLKP bp) FTRP) GET_SIZE) (\<lambda>nsz.
             bindE (retE (sz + (psz + nsz))) (\<lambda>sz.
             bindE (bindE (PREV_BLKP bp) coalesce_helper) (\<lambda>_.
             bindE (bindE (NEXT_BLKP bp) coalesce_helper) (\<lambda>_.
             bindE (PREV_BLKP bp) (\<lambda>bp.
             bindE (put_tags bp (PACK sz 0)) (\<lambda>_.
               retE bp))))))))
          (\<lambda>bp.
           bindE (bindE (mm_checkheap True) emit) (\<lambda>_.
           bindE (bindE (getsE heap_basefree) load8) (\<lambda>_.
           bindE (bindE (getsE heap_basefree) load64) (\<lambda>_.
             push_front bp))))))))) "

definition exp_place :: "int \<Rightarrow> uint64 \<Rightarrow> ('a mm_scheme, unit) cmd" where
  "exp_place bp asize =
     bindE (GET_SIZE (HDRP bp)) (\<lambda>csize.
     bindE (retE (BLK_PRVP bp)) (\<lambda>prev.
     bindE (retE (BLK_NXTP bp)) (\<lambda>nxt.
     bindE (bindE (PREV_BLKP bp) (\<lambda>p. PUT_NXT p nxt)) (\<lambda>_.
     bindE (bindE (NEXT_BLKP bp) (\<lambda>n. PUT_PREV n prev)) (\<lambda>_.
       if (24 :: uint64) \<le> ucast csize - asize
       then
         bindE (put_tags bp (PACK (ucast asize) 1)) (\<lambda>_.
         bindE (coalesce_helper bp) (\<lambda>_.
         bindE (NEXT_BLKP bp) (\<lambda>bp.
         bindE (put_tags bp (PACK (ucast (ucast csize - asize)) 0)) (\<lambda>_.
         bindE (exp_coalesce bp) (\<lambda>_. retE ())))))
       else
         bindE (put_tags bp (PACK csize 1)) (\<lambda>_.
           coalesce_helper bp))))))"

text \<open>The number of bytes \<open>extend_heap\<close> asks for, in \<open>uint32_t\<close> arithmetic.\<close>

definition extend_size :: "uint64 \<Rightarrow> uint32" where
  "extend_size words =
     (let sz = ucast (if words mod 2 \<noteq> 0 then (words + 1) * 4 else words * 4) :: uint32
      in if sz < 24 then 24 else sz)"

definition extend_heap :: "uint64 \<Rightarrow> ('a mm_scheme, int) cmd" where
  "extend_heap words =
     bindE (retE (extend_size words)) (\<lambda>sz.
     bindE (mem_sbrk sz) (\<lambda>bp.
       if bp = SBRK_FAILED then retE NULL
       else
         bindE (PUT (HDRP bp) (PACK sz 0)) (\<lambda>_.
         bindE (bindE (FTRP bp) (\<lambda>f. PUT f (PACK sz 0))) (\<lambda>_.
         bindE (bindE (NEXT_BLKP bp) (\<lambda>n. PUT (HDRP n) (PACK 0 1))) (\<lambda>_.
           exp_coalesce bp)))))"

text \<open>
  The search loop of \<open>find_fit_exp\<close>. Its condition looks at the block \<open>heap_basefree\<close>, not
  at \<open>bp\<close>, so nothing in the loop makes it false: the loop need not end, and \<open>None\<close> stands
  for that.
\<close>

partial_function (option) find_fit_exp_loop ::
    "uint64 \<Rightarrow> int \<Rightarrow> 'a mm_scheme \<Rightarrow> (err + int) option" where
  "find_fit_exp_loop asize bp s =
     (case GET_ALLOC (HDRP (heap_basefree s)) s of
        Inl e \<Rightarrow> Some (Inl e)
      | Inr (al, _) \<Rightarrow>
          if al \<noteq> 0 then Some (Inr NULL)
          else
            (case GET_SIZE (HDRP bp) s of
               Inl e \<Rightarrow> Some (Inl e)
             | Inr (sz, _) \<Rightarrow>
                 if asize \<le> ucast sz then Some (Inr bp)
                 else (case SUCC bp s of
                         Inl e \<Rightarrow> Some (Inl e)
                       | Inr (p, _) \<Rightarrow> find_fit_exp_loop asize p s)))"

definition find_fit_exp :: "uint64 \<Rightarrow> ('a mm_scheme, int) cmd" where
  "find_fit_exp asize =
     (\<lambda>s. case find_fit_exp_loop asize (heap_basefree s) s of
            None \<Rightarrow> Inl Diverge
          | Some (Inl e) \<Rightarrow> Inl e
          | Some (Inr p) \<Rightarrow> Inr (p, s))"

text \<open>
  \<open>mm_init\<close>. The line \<open>heap_listp += WSIZE;d\<close> makes the next \<open>PUT\<close> the argument of a call
  of a function \<open>d\<close> that the repository does not define: \<open>d\<close> is an argument here.
\<close>

definition mm_init :: "(uint32 \<Rightarrow> ('a mm_scheme, cint) cmd) \<Rightarrow> ('a mm_scheme, cint) cmd" where
  "mm_init d =
     bindE (mem_sbrk 16) (\<lambda>p.
     bindE (modifyE (\<lambda>s. s\<lparr>heap_listp := p\<rparr>)) (\<lambda>_.
       if p = NULL then retE (- 1)
       else
         bindE (bindE (getsE heap_listp) (\<lambda>l. PUT l 0)) (\<lambda>_.
         bindE (modifyE (\<lambda>s. s\<lparr>heap_listp := heap_listp s + WSIZE\<rparr>)) (\<lambda>_.
         bindE (bindE (getsE heap_listp) (\<lambda>l. PUT l (PACK 24 1))) (\<lambda>_.
         bindE (d (PACK 24 1)) (\<lambda>_.
         bindE (modifyE (\<lambda>s. s\<lparr>heap_listp := heap_listp s + WSIZE\<rparr>)) (\<lambda>_.
         bindE (getsE heap_listp) (\<lambda>l.
         bindE (bindE (printblock l) emit) (\<lambda>_.
         bindE (PUT (l + DSIZE * 2) (PACK 24 1)) (\<lambda>_.
         bindE (PUT (l + DSIZE * 2 + WSIZE) (PACK 0 1)) (\<lambda>_.
         bindE (modifyE (\<lambda>s. s\<lparr>heap_basefree := l\<rparr>)) (\<lambda>_.
         bindE (PUT_64VAL l NULL) (\<lambda>_.
         bindE (PUT_64VAL (l + DSIZE) NULL) (\<lambda>_.
         bindE (GET_SIZE (HDRP l)) (\<lambda>hsize.
         bindE (GET_ALLOC (HDRP l)) (\<lambda>halloc.
         bindE (bindE (FTRP l) GET_SIZE) (\<lambda>fsize.
         bindE (bindE (FTRP l) GET_ALLOC) (\<lambda>falloc.
         bindE (SUCC l) (\<lambda>succ.
         bindE (PRED l) (\<lambda>pred.
         bindE (emit [BlockLine l hsize (halloc \<noteq> 0) fsize (falloc \<noteq> 0) succ pred]) (\<lambda>_.
         bindE (bindE (mm_checkheap True) emit) (\<lambda>_.
         bindE (extend_heap (ucast (CHUNKSIZE div 4))) (\<lambda>e.
           retE (if e = NULL then - 1 else 0))))))))))))))))))))))))"

text \<open>The block size for a request of \<open>n\<close> bytes, computed in \<open>size_t\<close> and kept in \<open>uint32_t\<close>.\<close>

definition adjust_size :: "uint64 \<Rightarrow> uint32" where
  "adjust_size n = (if n \<le> 8 then 16 else ucast (8 * ((n + 8 + (8 - 1)) div 8)))"

definition mm_malloc :: "uint64 \<Rightarrow> ('a mm_scheme, int) cmd" where
  "mm_malloc n =
     (if n = 0 then retE NULL
      else
        bindE (retE (adjust_size n)) (\<lambda>asize.
        bindE (find_fit_exp (ucast asize)) (\<lambda>bp.
          if bp \<noteq> NULL then bindE (exp_place bp (ucast asize)) (\<lambda>_. retE bp)
          else
            bindE (retE (max asize CHUNKSIZE)) (\<lambda>extendsize.
            bindE (extend_heap (ucast (extendsize div 4))) (\<lambda>bp.
              if bp = NULL then retE NULL
              else bindE (exp_place bp (ucast asize)) (\<lambda>_. retE bp))))))"

definition mm_free :: "int \<Rightarrow> ('a mm_scheme, unit) cmd" where
  "mm_free bp =
     bindE (GET_SIZE (HDRP bp)) (\<lambda>sz.
     bindE (put_tags bp (PACK sz 0)) (\<lambda>_.
     bindE (getsE heap_basefree) (\<lambda>base.
     bindE (PUT_NXT bp base) (\<lambda>_.
     bindE (PUT_PREV base bp) (\<lambda>_.
     bindE (modifyE (\<lambda>s. s\<lparr>heap_basefree := bp\<rparr>)) (\<lambda>_.
     bindE (exp_coalesce bp) (\<lambda>_.
       retE ())))))))"

definition mm_realloc :: "int \<Rightarrow> uint64 \<Rightarrow> ('a mm_scheme, int) cmd" where
  "mm_realloc ptr n =
     bindE (mm_malloc n) (\<lambda>newp.
       if newp = NULL then throwE (Exit 1)
       else
         bindE (GET_SIZE (HDRP ptr)) (\<lambda>sz.
         bindE (retE (if n < ucast sz then n else ucast sz)) (\<lambda>copySize.
         bindE (memcpy newp ptr (unat copySize)) (\<lambda>_.
         bindE (mm_free ptr) (\<lambda>_.
           retE newp)))))"

subsection \<open>The arena\<close>

text \<open>No operation of the allocator moves the arena or lowers the break.\<close>

lemma modify_same_arena [arena_intros]:
  "keeps same_arena (modifyE (\<lambda>s. s\<lparr>heap_basefree := f s\<rparr>))"
  "keeps same_arena (modifyE (\<lambda>s. s\<lparr>heap_listp := f s\<rparr>))"
  "keeps same_arena (emit ms)"
  by (simp_all add: keeps_def same_arena_def emit_def)

lemma macro_same_arena [arena_intros]:
  "keeps same_arena (GET_SIZE p)" "keeps same_arena (GET_ALLOC p)" "keeps same_arena (FTRP bp)"
  "keeps same_arena (NEXT_BLKP bp)" "keeps same_arena (PREV_BLKP bp)" "keeps same_arena (PRED bp)"
  "keeps same_arena (SUCC bp)" "keeps same_arena (set_SUCC bp v)" "keeps same_arena (PUT_NXT bp v)"
  "keeps same_arena (PUT_PREV bp v)" "keeps same_arena (PUT_64VAL bp v)"
  "keeps same_arena (put_tags bp w)" "keeps same_arena (printblock bp)"
  "keeps same_arena (checkblock bp)"
  by (auto simp: macro_defs put_tags_def printblock_def checkblock_def intro!: arena_intros)

lemma checkheap_same_arena [arena_intros]: "keeps same_arena (mm_checkheap v)"
proof -
  have "keeps same_arena
     (\<lambda>s. case checkheap_loop v p s of Inl e \<Rightarrow> Inl e | Inr r \<Rightarrow> Inr (r, s))" for p
    by (rule keepsI) (auto split: sum.splits)
  then show ?thesis by (auto simp: mm_checkheap_def intro!: arena_intros split: prod.splits)
qed

lemma memcpy_same_arena [arena_intros]: "keeps same_arena (memcpy dst src n)"
  by (induction n arbitrary: dst src) (auto intro!: arena_intros)

lemma exp_same_arena [arena_intros]:
  "keeps same_arena (coalesce_helper bp)" "keeps same_arena (push_front bp)"
  by (auto simp: coalesce_helper_def push_front_def intro!: arena_intros)

lemma exp_coalesce_same_arena [arena_intros]: "keeps same_arena (exp_coalesce bp)"
  unfolding exp_coalesce_def by (auto intro!: arena_intros)

lemma find_fit_exp_same [arena_intros]: "keeps same_arena (find_fit_exp n)"
  by (rule keepsI) (auto simp: find_fit_exp_def split: option.splits sum.splits)

lemma place_extend_same_arena [arena_intros]:
  "keeps same_arena (exp_place bp n)" "keeps same_arena (extend_heap w)"
  by (auto simp: exp_place_def extend_heap_def intro!: arena_intros)

lemma mm_same_arena [arena_intros]:
  "keeps same_arena (mm_malloc n)" "keeps same_arena (mm_free bp)"
  by (auto simp: mm_malloc_def mm_free_def intro!: arena_intros)

end
