(* ===== verification/MmOperations.thy ===== *)
theory MmOperations
  imports MmExplicit
begin

section \<open>What the allocator's operations do (mm.c)\<close>

text \<open>
  The behaviour of the operations of \<open>MmExplicit\<close>: the block size computed for a request, the
  search of the explicit list, the error paths of \<open>mm_malloc\<close> and \<open>mm_realloc\<close>, and the runs of
  \<open>mm_init\<close>, \<open>extend_heap\<close> and \<open>mm_free\<close> that fault.
\<close>

subsection \<open>Request sizes\<close>

lemma adjust_size_uint:
  fixes n :: uint64
  assumes "uint n + 15 < 2 ^ 64"
  shows "uint (8 * ((n + 8 + (8 - 1)) div 8)) = 8 * ((uint n + 15) div 8)"
proof -
  have 1: "uint (n + 15) = uint n + 15"
    using assms by (simp add: uint_word_ariths)
  have 2: "uint ((n + 15) div 8) = (uint n + 15) div 8"
    by (simp add: uint_div 1)
  have 3: "8 * ((uint n + 15) div 8) < 2 ^ 64" using assms by linarith
  have 4: "n + 8 + (8 - 1) = n + 15" by simp
  show ?thesis unfolding 4 using 2 mod_pos_pos_trivial [OF _ 3] 
    by (simp add: uint_word_ariths pos_imp_zdiv_nonneg_iff)
qed

lemma adjust_size_mod:
  fixes n :: uint64
  assumes "\<not> n \<le> 8"
  shows "uint (adjust_size n) = uint (8 * ((n + 8 + (8 - 1)) div 8)) mod 2 ^ 32"
proof -
  have "adjust_size n = ucast (8 * ((n + 8 + (8 - 1)) div 8))"
    unfolding adjust_size_def using assms by (simp only: if_False)
  then show ?thesis by (simp only: unsigned_ucast_eq take_bit_eq_mod) simp
qed

lemma eight_times_mod:
  fixes w :: uint64
  shows "8 dvd uint (8 * w) mod 2 ^ 32"
proof -
  have "uint (8 * w) = 8 * uint w mod 2 ^ 64" by (simp add: uint_word_ariths)
  then have "8 dvd uint (8 * w)" by (simp add: dvd_mod)
  then show ?thesis by (simp add: dvd_mod)
qed

lemma adjust_size_dvd: "8 dvd uint (adjust_size n)"
proof (cases "n \<le> 8")
  case True
  then show ?thesis by (simp add: adjust_size_def)
next
  case False
  then show ?thesis unfolding adjust_size_mod [OF False] by (intro eight_times_mod)
qed

lemma adjust_size_bounds:
  fixes n :: uint64
  assumes "n \<noteq> 0"
  shows "8 dvd uint (adjust_size n)
     \<and> (uint n + 8 \<le> uint (adjust_size n) \<longleftrightarrow> uint n \<le> 2 ^ 32 - 16)
     \<and> (uint n \<le> 2 ^ 32 - 16 \<longrightarrow> uint (adjust_size n) < uint n + 16)"
proof (cases "n \<le> 8")
  case True
  then have "uint n \<le> 8" by (simp add: word_le_def)
  moreover have "0 < uint n" using assms by (simp add: word_neq_0_conv word_less_def)
  ultimately show ?thesis using True by (simp add: adjust_size_def)
next
  case False
  then have big: "8 < uint n" by (simp add: word_le_def)
  have dvd: "8 dvd uint (adjust_size n)"
    unfolding adjust_size_mod [OF False] by (rule eight_times_mod)
  show ?thesis
  proof (cases "uint n \<le> 2 ^ 32 - 16")
    case small: True
    have "uint (adjust_size n) = 8 * ((uint n + 15) div 8)"
      unfolding adjust_size_mod [OF False]
      by (subst adjust_size_uint) (use small mod_pos_pos_trivial [of "8 * ((uint n + 15) div 8)" "2 ^ 32"] in \<open>linarith | simp add: pos_imp_zdiv_nonneg_iff\<close>)+
    then show ?thesis using dvd small big by presburger
  next
    case large: False
    have "uint (adjust_size n) \<le> 2 ^ 32 - 8"
      using dvd uint_lt2p [of "adjust_size n"] by (simp del: uint_lt2p) presburger
    then show ?thesis using dvd large by simp
  qed
qed

text \<open>
  C13: For a request of \<open>n > 0\<close> bytes the computed block size is a multiple of 8; it has room
  for the payload and the two tags exactly if \<open>n \<le> 2 ^ 32 - 16\<close> (beyond that the
  \<open>uint32_t\<close> wraps and the block is too small), and then it is less than \<open>n + 16\<close>.
\<close>

theorem adjust_size_fits:
  fixes n :: uint64
  assumes "n \<noteq> 0"
  shows "8 dvd uint (adjust_size n)
     \<and> (uint n + 8 \<le> uint (adjust_size n) \<longleftrightarrow> uint n \<le> 2 ^ 32 - 16)
     \<and> (uint n \<le> 2 ^ 32 - 16 \<longrightarrow> uint (adjust_size n) < uint n + 16)"
  by (rule adjust_size_bounds [OF assms])

theorem adjust_size_fits_witness:
  "8 dvd uint (adjust_size 100) \<and> 108 \<le> uint (adjust_size 100) \<and> uint (adjust_size 100) < 116"
  using adjust_size_fits [of 100] by simp

lemma extend_size_exact:
  assumes "8 dvd uint k" "24 \<le> uint k"
  shows "extend_size (ucast (k div 4)) = k"
proof -
  let ?w = "ucast (k div 4) :: uint64"
  obtain q where q: "uint k = 8 * q" using assms(1) by (auto elim: dvdE)
  have b: "0 \<le> q" "q < 536870912" using uint_lt2p [of k] uint_ge_0 [of k] q by auto
  have "uint (k div 4) = 2 * q" using q by (simp add: uint_div)
  then have w: "uint ?w = 2 * q"
    using b by (simp add: unsigned_ucast_eq take_bit_int_eq_self_iff)
  have "uint (?w mod 2) = 0" by (simp add: uint_mod w)
  then have m: "?w mod 2 = 0" by (simp add: uint_0_iff)
  have "uint (?w * 4) = uint k"
    using b by (simp add: uint_word_ariths w q)
  then have "(ucast (?w * 4) :: uint32) = k"
    by (metis ucast_eq word_of_int_uint)
  then show ?thesis using m assms(2) by (simp add: extend_size_def word_less_def)
qed

subsection \<open>The search of the explicit list\<close>

lemma find_fit_exp_loop_result:
  assumes "find_fit_exp_loop n bp s = Some r"
  shows "alloc_of (get32 (mem s) (heap_basefree s - 4)) = 0 \<longrightarrow>
     (\<forall>p. r = Inr p \<longrightarrow> accessible s (p - 4) 4 \<and> n \<le> ucast (size_of (get32 (mem s) (p - 4))))"
proof (rule find_fit_exp_loop.raw_induct [OF _ assms], intro impI allI)
  fix loop asize bp p and s :: "'a mm_scheme" and r
  assume IH: "\<And>asize bp (s :: 'a mm_scheme) r. loop asize bp s = Some r \<Longrightarrow>
       alloc_of (get32 (mem s) (heap_basefree s - 4)) = 0 \<longrightarrow>
       (\<forall>p. r = Inr p \<longrightarrow> accessible s (p - 4) 4 \<and> asize \<le> ucast (size_of (get32 (mem s) (p - 4))))"
    and body: "(case GET_ALLOC (HDRP (heap_basefree s)) s of Inl e \<Rightarrow> Some (Inl e)
          | Inr (al, _) \<Rightarrow> if al \<noteq> 0 then Some (Inr NULL)
            else case GET_SIZE (HDRP bp) s of Inl e \<Rightarrow> Some (Inl e)
               | Inr (sz, _) \<Rightarrow> if asize \<le> ucast sz then Some (Inr bp)
                 else case SUCC bp s of Inl e \<Rightarrow> Some (Inl e) | Inr (p, _) \<Rightarrow> loop asize p s) = Some r"
    and free: "alloc_of (get32 (mem s) (heap_basefree s - 4)) = 0" and r: "r = Inr p"
  have acc: "accessible s (heap_basefree s - 4) 4" and acc': "accessible s (bp - 4) 4"
    using body r free by (auto simp: GET_ALLOC_def GET_SIZE_def HDRP_run load32_def bindE_def split: if_splits)
  show "accessible s (p - 4) 4 \<and> asize \<le> ucast (size_of (get32 (mem s) (p - 4)))"
  proof (cases "asize \<le> ucast (size_of (get32 (mem s) (bp - 4)))")
    case True
    with body acc acc' free r show ?thesis by (simp add: run_simps)
  next
    case False
    with body acc acc' free r obtain q where "loop asize q s = Some r"
      by (auto simp: run_simps SUCC_def load64_def bindE_def split: if_splits)
    with IH free r show ?thesis by blast
  qed
qed

text \<open>
  The search as a relation: from \<open>bp\<close> along the next pointers, over blocks that are too small,
  to the first one of at least \<open>n\<close> bytes; every header and pointer on the way is in the arena.
\<close>

inductive search_path :: "uint64 \<Rightarrow> 'a mm_scheme \<Rightarrow> int \<Rightarrow> int \<Rightarrow> bool" for n s where
  search_hit: "accessible s (bp - 4) 4 \<Longrightarrow> n \<le> ucast (size_of (get32 (mem s) (bp - 4))) \<Longrightarrow> search_path n s bp bp"
| search_next: "accessible s (bp - 4) 4 \<Longrightarrow> ucast (size_of (get32 (mem s) (bp - 4))) < n \<Longrightarrow>
     accessible s (bp + 4) 8 \<Longrightarrow> search_path n s (uint (get64 (mem s) (bp + 4))) p \<Longrightarrow> search_path n s bp p"

lemma find_fit_exp_loop_path:
  assumes "find_fit_exp_loop n bp s = Some r"
  shows "alloc_of (get32 (mem s) (heap_basefree s - 4)) = 0 \<longrightarrow> (\<forall>p. r = Inr p \<longrightarrow> search_path n s bp p)"
proof (rule find_fit_exp_loop.raw_induct [OF _ assms], intro impI allI)
  fix loop asize bp p and s :: "'a mm_scheme" and r
  assume IH: "\<And>asize bp (s :: 'a mm_scheme) r. loop asize bp s = Some r \<Longrightarrow>
       alloc_of (get32 (mem s) (heap_basefree s - 4)) = 0 \<longrightarrow> (\<forall>p. r = Inr p \<longrightarrow> search_path asize s bp p)"
    and body: "(case GET_ALLOC (HDRP (heap_basefree s)) s of Inl e \<Rightarrow> Some (Inl e)
          | Inr (al, _) \<Rightarrow> if al \<noteq> 0 then Some (Inr NULL)
            else case GET_SIZE (HDRP bp) s of Inl e \<Rightarrow> Some (Inl e)
               | Inr (sz, _) \<Rightarrow> if asize \<le> ucast sz then Some (Inr bp)
                 else case SUCC bp s of Inl e \<Rightarrow> Some (Inl e) | Inr (p, _) \<Rightarrow> loop asize p s) = Some r"
    and free: "alloc_of (get32 (mem s) (heap_basefree s - 4)) = 0" and r: "r = Inr p"
  have acc: "accessible s (heap_basefree s - 4) 4" and acc': "accessible s (bp - 4) 4"
    using body r free by (auto simp: GET_ALLOC_def GET_SIZE_def HDRP_run load32_def bindE_def split: if_splits)
  show "search_path asize s bp p"
  proof (cases "asize \<le> ucast (size_of (get32 (mem s) (bp - 4)))")
    case True
    with body acc acc' free r show ?thesis by (simp add: run_simps search_hit)
  next
    case False
    with body acc acc' free r have "accessible s (bp + 4) 8" "loop asize (uint (get64 (mem s) (bp + 4))) s = Some r"
      by (auto simp: run_simps SUCC_def WSIZE_def load64_def bindE_def split: if_splits)
    then show ?thesis using search_next [OF acc' _ \<open>accessible s (bp + 4) 8\<close>] IH [rule_format, OF _ free r] False by auto
  qed
qed

lemma search_path_found:
  assumes "search_path n s bp p" "accessible s (heap_basefree s - 4) 4" "alloc_of (get32 (mem s) (heap_basefree s - 4)) = 0"
  shows "find_fit_exp_loop n bp s = Some (Inr p)"
  using assms(1)
proof induction
  case (search_hit bp)
  then show ?case using assms(2,3) by (subst find_fit_exp_loop.simps) (simp add: run_simps)
next
  case (search_next bp p)
  have "(n \<le> ucast (size_of (get32 (mem s) (bp - 4)))) = False" using search_next.hyps(2) by (simp add: not_le)
  with search_next show ?case using assms(2,3)
    by (subst find_fit_exp_loop.simps) (simp add: run_simps SUCC_def WSIZE_def load64_def)
qed

text \<open>
  C15: The search of the explicit list, exactly. \<open>find_fit_exp\<close> returns \<open>p\<close> if and only if either
  the block \<open>heap_basefree\<close> is marked allocated and \<open>p\<close> is \<open>NULL\<close>, or the next pointers lead
  from \<open>heap_basefree\<close> over blocks that are too small to \<open>p\<close>, the first one whose header says at
  least \<open>n\<close> bytes (whether it is free is not checked). The heap is unchanged. In particular the
  search returns whenever such a block exists.
\<close>

theorem find_fit_exp_exact:
  "find_fit_exp n s = Inr (p, t) \<longleftrightarrow> t = s \<and> accessible s (heap_basefree s - 4) 4 \<and>
     (if alloc_of (get32 (mem s) (heap_basefree s - 4)) \<noteq> 0 then p = NULL else search_path n s (heap_basefree s) p)"
proof (cases "accessible s (heap_basefree s - 4) 4")
  case acc: True
  show ?thesis
  proof (cases "alloc_of (get32 (mem s) (heap_basefree s - 4)) = 0")
    case True
    have "find_fit_exp_loop n (heap_basefree s) s = Some (Inr p) \<longleftrightarrow> search_path n s (heap_basefree s) p"
      using search_path_found [OF _ acc True] find_fit_exp_loop_path True by blast
    then show ?thesis using acc True
      by (auto simp: find_fit_exp_def split: option.splits sum.splits)
  next
    case False
    then show ?thesis using acc
      by (auto simp: find_fit_exp_def find_fit_exp_loop.simps [of _ "heap_basefree s"] run_simps)
  qed
next
  case False
  then show ?thesis
    by (auto simp: find_fit_exp_def find_fit_exp_loop.simps [of _ "heap_basefree s"] GET_ALLOC_def HDRP_run load32_def bindE_def)
qed

text \<open>
  When \<open>find_fit_exp\<close> returns, it has changed nothing; if the block \<open>heap_basefree\<close> is
  marked allocated the result is \<open>NULL\<close>, and otherwise it is a block whose header says at
  least \<open>n\<close> bytes (whether that block is free is not checked).
\<close>

theorem find_fit_exp_correct:
  assumes run: "find_fit_exp n s = Inr (p, t)"
  shows "t = s \<and> accessible s (heap_basefree s - 4) 4 \<and>
     (if alloc_of (get32 (mem s) (heap_basefree s - 4)) \<noteq> 0 then p = NULL
      else accessible s (p - 4) 4 \<and> n \<le> ucast (size_of (get32 (mem s) (p - 4))))"
proof -
  from run have l: "find_fit_exp_loop n (heap_basefree s) s = Some (Inr p)" "t = s"
    by (auto simp: find_fit_exp_def split: option.splits sum.splits)
  have acc: "accessible s (heap_basefree s - 4) 4"
    using l(1) by (subst (asm) find_fit_exp_loop.simps) (auto simp: GET_ALLOC_def HDRP_run load32_def bindE_def split: if_splits)
  show ?thesis
  proof (cases "alloc_of (get32 (mem s) (heap_basefree s - 4)) = 0")
    case True
    then show ?thesis using find_fit_exp_loop_result [OF l(1)] acc l(2) by auto
  next
    case False
    with l acc show ?thesis
      by (subst (asm) find_fit_exp_loop.simps) (auto simp: run_simps)
  qed
qed

lemma sample_words:
  "get32 (mem sample_heap) 4124 = tag 64 False" "get32 (mem sample_heap) 4188 = tag 32 True"
  "get32 (mem sample_heap) 4216 = tag 32 True" "get64 (mem sample_heap) 4196 = 0"
  by (simp_all add: sample_heap_def set_block_def word_mem_simps)
    (simp add: get64_def get32_def put32_def)

lemma sample_tags: "size_of (tag 64 False) = 64" "alloc_of (tag 64 False) = 0"
  "size_of (tag 32 True) = 32" "alloc_of (tag 32 True) = 1"
  by (simp_all add: tag_simps size_ok_def)

lemma sample_accessible: "accessible sample_heap a n \<longleftrightarrow> 4096 \<le> a \<and> a + n \<le> 8192"
  by (simp add: accessible_def sample_heap_def)

lemma sample_base: "heap_basefree sample_heap = 4128"
  by (simp add: sample_heap_def)

lemma sample_find_fit: "find_fit_exp 40 sample_heap = Inr (4128, sample_heap)"
  by (simp add: find_fit_exp_def find_fit_exp_loop.simps [of _ 4128] sample_base sample_words
    sample_tags sample_accessible run_simps)

theorem find_fit_exp_correct_witness:
  "accessible sample_heap 4124 4 \<and> 40 \<le> (ucast (size_of (get32 (mem sample_heap) 4124)) :: uint64)"
  using find_fit_exp_correct [OF sample_find_fit] by (simp add: sample_base sample_words sample_tags)

text \<open>
  C14: The search need not end. If \<open>heap_basefree\<close> is free and lies in a set of blocks that is
  closed under the next pointer and has no block of the requested size (a list that runs back
  into itself), \<open>find_fit_exp\<close> does not return.
\<close>

theorem find_fit_exp_diverges:
  assumes ring: "heap_basefree s \<in> S"
      "\<And>bp. bp \<in> S \<Longrightarrow> accessible s (bp - 4) 4 \<and> accessible s (bp + 4) 8 \<and> uint (get64 (mem s) (bp + 4)) \<in> S
         \<and> ucast (size_of (get32 (mem s) (bp - 4))) < n"
    and free: "alloc_of (get32 (mem s) (heap_basefree s - 4)) = 0"
  shows "find_fit_exp n s = Inl Diverge"
proof -
  have never: "s' = s \<longrightarrow> m = n \<longrightarrow> bp \<notin> S" if "find_fit_exp_loop m bp s' = Some r" for m bp s' r
  proof (rule find_fit_exp_loop.raw_induct [OF _ that], intro impI notI)
    fix loop m bp s' r
    assume IH: "\<And>m bp s' r. loop m bp s' = Some r \<Longrightarrow> s' = s \<longrightarrow> m = n \<longrightarrow> bp \<notin> S"
      and body: "(case GET_ALLOC (HDRP (heap_basefree s')) s' of Inl e \<Rightarrow> Some (Inl e)
          | Inr (al, _) \<Rightarrow> if al \<noteq> 0 then Some (Inr NULL)
            else case GET_SIZE (HDRP bp) s' of Inl e \<Rightarrow> Some (Inl e)
               | Inr (sz, _) \<Rightarrow> if m \<le> ucast sz then Some (Inr bp)
                 else case SUCC bp s' of Inl e \<Rightarrow> Some (Inl e) | Inr (p, _) \<Rightarrow> loop m p s') = Some r"
      and eqs: "s' = s" "m = n" and bp: "bp \<in> S"
    have k: "accessible s (heap_basefree s - 4) 4" "accessible s (bp - 4) 4" "accessible s (bp + 4) 8"
        "uint (get64 (mem s) (bp + 4)) \<in> S" "\<not> n \<le> ucast (size_of (get32 (mem s) (bp - 4)))"
      using ring(2) [OF ring(1)] ring(2) [OF bp] by auto
    from body have "loop n (uint (get64 (mem s) (bp + 4))) s = Some r"
      unfolding eqs using k free by (simp add: run_simps SUCC_def WSIZE_def load64_def)
    then show False using IH k(4) by blast
  qed
  then have "find_fit_exp_loop n (heap_basefree s) s = None"
    using ring(1) never by (cases "find_fit_exp_loop n (heap_basefree s) s") auto
  then show ?thesis by (simp add: find_fit_exp_def)
qed

theorem find_fit_exp_diverges_witness:
  "find_fit_exp 100 (sample_heap\<lparr>mem := put64 (mem sample_heap) 4132 4128\<rparr>) = Inl Diverge"
proof (rule find_fit_exp_diverges [where S = "{4128}"])
  let ?s = "sample_heap\<lparr>mem := put64 (mem sample_heap) 4132 4128\<rparr>"
  have h: "get32 (mem ?s) 4124 = tag 64 False" by (simp add: word_mem_simps sample_words)
  show "heap_basefree ?s \<in> {4128}" by (simp add: sample_base)
  show "alloc_of (get32 (mem ?s) (heap_basefree ?s - 4)) = 0"
    using h by (simp add: sample_base sample_tags)
  show "accessible ?s (bp - 4) 4 \<and> accessible ?s (bp + 4) 8 \<and> uint (get64 (mem ?s) (bp + 4)) \<in> {4128}
      \<and> (ucast (size_of (get32 (mem ?s) (bp - 4))) :: uint64) < 100" if "bp \<in> {4128}" for bp
    using that h by (simp add: accessible_frame sample_accessible word_mem_simps sample_tags)
qed

subsection \<open>Error paths of mm_malloc and mm_realloc\<close>

text \<open>
  A request of 0 bytes: \<open>mm_malloc\<close> returns \<open>NULL\<close> in any state, and \<open>mm_realloc\<close> takes
  that for a failed allocation and exits with status 1.
\<close>

theorem mm_malloc_zero: "mm_malloc 0 s = Inr (NULL, s) \<and> mm_realloc p 0 s = Inl (Exit 1)"
  by (simp add: mm_malloc_def mm_realloc_def)

lemma mem_sbrk_fails:
  assumes "mem_max_addr s < mem_brk s + uint k" 
  shows "mem_sbrk k s = Inr (SBRK_FAILED, s\<lparr>errno := ENOMEM\<rparr>)"
proof -
  have "sint k < 0 \<or> sint k = uint k"
    using uint_lt2p [of k] take_bit_int_less_exp [of 32 "uint k"]
    by (cases "bit (uint k) 31") (auto simp: sint_uint signed_take_bit_eq_take_bit_minus take_bit_int_eq_self_iff)
  with assms show ?thesis by (auto simp: mem_sbrk_def)
qed

text \<open>
  C35: Out of memory. If the free list has no free base block and less than a chunk of the arena
  is left, \<open>mm_malloc\<close> returns \<open>NULL\<close> for every size, with \<open>errno\<close> set and the heap untouched.
\<close>

theorem mm_malloc_exhausted:
  assumes n: "n \<noteq> 0" 
    and full: "accessible s (heap_basefree s - 4) 4" "alloc_of (get32 (mem s) (heap_basefree s - 4)) \<noteq> 0"
    and room: "mem_max_addr s < mem_brk s + 65536"
  shows "mm_malloc n s = Inr (NULL, s\<lparr>errno := ENOMEM\<rparr>)"
proof -
  let ?k = "max (adjust_size n) CHUNKSIZE"
  have "find_fit_exp_loop m (heap_basefree s) s = Some (Inr NULL)" for m
    using full by (simp add: find_fit_exp_loop.simps run_simps)
  then have f: "find_fit_exp m s = Inr (NULL, s)" for m by (simp add: find_fit_exp_def)
  have k: "8 dvd uint ?k" "65536 \<le> uint ?k"
    using adjust_size_dvd [of n] n by (auto simp: max_def CHUNKSIZE_def word_le_def)
  have e: "extend_size (ucast (?k div 4)) = ?k" using k by (intro extend_size_exact) auto
  have "mem_sbrk ?k s = Inr (SBRK_FAILED, s\<lparr>errno := ENOMEM\<rparr>)" using k room by (intro mem_sbrk_fails) auto
  then have "extend_heap (ucast (?k div 4)) s = Inr (NULL, s\<lparr>errno := ENOMEM\<rparr>)"
    unfolding extend_heap_def e by (simp add: bindE_step)
  then show ?thesis using n f by (simp add: mm_malloc_def bindE_step)
qed

theorem mm_malloc_exhausted_witness:
  "mm_malloc 24 (sample_heap\<lparr>heap_basefree := 4192\<rparr>)
     = Inr (NULL, sample_heap\<lparr>heap_basefree := 4192, errno := ENOMEM\<rparr>)"
proof -
  have "mm_malloc 24 (sample_heap\<lparr>heap_basefree := 4192\<rparr>)
     = Inr (NULL, sample_heap\<lparr>heap_basefree := 4192\<rparr>\<lparr>errno := ENOMEM\<rparr>)"
    by (rule mm_malloc_exhausted)
      (simp_all add: accessible_def sample_words sample_tags, simp_all add: sample_heap_def)
  then show ?thesis by simp
qed

subsection \<open>mm_free and the payload\<close>

text \<open>
  C16: \<open>mm_free\<close> reads its next pointer from the payload the user has just given back. If the
  8 bytes at \<open>bp + 4\<close> are no address inside the arena, freeing the block faults there.
\<close>

theorem mm_free_follows_payload:
  fixes s :: "'a mm_scheme" and bp :: int
  defines "sz \<equiv> size_of (get32 (mem s) (bp - 4))" and "q \<equiv> uint (get64 (mem s) (bp + 4))"
  assumes acc: "accessible s (bp - 4) 4" "accessible s (bp + uint sz - 8) 4" and sz: "24 \<le> uint sz"
    and wild: "\<not> accessible s q 8"
  shows "mm_free bp s = Inl (Fault q)"
proof -
  have sz': "size_of (PACK sz 0) = sz" 
    by (simp add: PACK_def sz_def size_of_def)
  let ?t = "s\<lparr>mem := put32 (put32 (mem s) (bp - 4) (PACK sz 0)) (bp + uint sz - 8) (PACK sz 0)\<rparr>"
  have run: "put_tags bp (PACK sz 0) s = Inr ((), ?t)"
    using acc by (simp add: put_tags_def run_simps word_mem_simps sz')
  have "accessible s (bp + 4) 8" using acc sz by (simp add: accessible_def)
  moreover have "get64 (mem ?t) (bp + 4) = get64 (mem s) (bp + 4)"
    using sz by (simp add: word_mem_simps)
  ultimately have "PUT_NXT bp b ?t = Inl (Fault q)" for b
    using wild by (simp add: PUT_NXT_def SUCC_def WSIZE_def bindE_def load64_def store64_def q_def run_simps)
  moreover have "GET_SIZE (HDRP bp) s = Inr (sz, s)" using acc by (simp add: run_simps sz_def)
  ultimately show ?thesis using run by (simp add: mm_free_def bindE_def)
qed

theorem mm_free_follows_payload_witness: "mm_free 4192 sample_heap = Inl (Fault 0)"
  using mm_free_follows_payload [of sample_heap 4192]
  by (simp add: sample_words sample_tags sample_accessible)

subsection \<open>mm_init\<close>

text \<open>
  C34: The failure test of \<open>mm_init\<close> compares with \<open>NULL\<close>, but \<open>mem_sbrk\<close> fails with
  \<open>(void *)-1\<close>: when the arena has fewer than 16 bytes left, \<open>mm_init\<close> does not return -1 but
  writes to that address. This happens before the stray \<open>d\<close> is reached, so whatever \<open>d\<close> does.
\<close>

theorem mm_init_sbrk_failure:
  assumes "mem_max_addr s < mem_brk s + 16" "mem_max_addr s < 2 ^ 64"
  shows "mm_init d s = Inl (Fault (2 ^ 64 - 1))"
proof -
  let ?s = "s\<lparr>errno := ENOMEM\<rparr>"
  have 1: "mem_sbrk 16 s = Inr (SBRK_FAILED, ?s)" using assms by (simp add: mem_sbrk_def)
  have 2: "SBRK_FAILED \<noteq> NULL" by (simp add: SBRK_FAILED_def NULL_def)
  have 3: "PUT SBRK_FAILED 0 (?s\<lparr>heap_listp := SBRK_FAILED\<rparr>) = Inl (Fault (2 ^ 64 - 1))"
    using assms by (simp add: store32_def accessible_def SBRK_FAILED_def)
  show ?thesis unfolding mm_init_def by (simp add: bindE_step bindE_cases(2) 1 2 3)
qed

theorem mm_init_sbrk_failure_witness:
  "mm_init (\<lambda>_. retE 0) sample_heap = Inl (Fault (2 ^ 64 - 1))"
  by (rule mm_init_sbrk_failure) (simp_all add: sample_heap_def)

lemma load64_run [run_simps]: "accessible s p 8 \<Longrightarrow> load64 p s = Inr (get64 (mem s) p, s)"
  by (simp add: load64_def)

lemma store64_run [run_simps]: "accessible s p 8 \<Longrightarrow> store64 p v s = Inr ((), s\<lparr>mem := put64 (mem s) p v\<rparr>)"
  by (simp add: store64_def)

lemma pointer_run [run_simps]:
  "accessible s bp 8 \<Longrightarrow> PRED bp s = Inr (uint (get64 (mem s) bp), s)"
  "accessible s (bp + 4) 8 \<Longrightarrow> SUCC bp s = Inr (uint (get64 (mem s) (bp + 4)), s)"
  by (simp_all add: PRED_def SUCC_def WSIZE_def run_simps)

lemma tag_values [simp]: "size_of 25 = 24" "size_of 1 = 0" "alloc_of 25 = 1" "alloc_of 1 = 1" "size_of 0 = 0" "alloc_of 0 = 0"
  "size_of 65536 = 65536" "alloc_of 65536 = 0"
  by (simp_all add: size_of_def alloc_of_def)

lemma printblock_returns:
  assumes "accessible s (bp - 4) 16" "accessible s (bp + uint (size_of (get32 (mem s) (bp - 4))) - 8) 4"
  shows "\<exists>ms. printblock bp s = Inr (ms, s)"
proof -
  have "accessible s (bp - 4) 4" "accessible s bp 8" "accessible s (bp + 4) 8"
    using assms by (auto simp: accessible_def)
  then show ?thesis using assms by (simp add: printblock_def run_simps)
qed

lemma checkblock_returns:
  assumes "accessible s (bp - 4) 4" "accessible s (bp + uint (size_of (get32 (mem s) (bp - 4))) - 8) 4"
  shows "\<exists>ms. checkblock bp s = Inr (ms, s)"
  using assms by (simp add: checkblock_def run_simps)

lemma checkheap_prologue:
  assumes l: "heap_listp s = l" and a: "accessible s (l - 4) 40" and h: "get32 (mem s) (l - 4) = 25" "get32 (mem s) (l + 20) = 1"
  shows "\<exists>ms. mm_checkheap True s = Inr (ms, s)"
proof -
  have acc: "accessible s (l - 4) 4" "accessible s (l + 20) 4" "accessible s (l + 16) 4" "accessible s (l - 4) 16"
    "accessible s (l + 20) 16"
    using a by (auto simp: accessible_def)
  have a1: "l + 24 - 4 = l + 20" by simp
  have u: "l + uint (size_of 25) - 8 = l + 16" by simp
  obtain p1 where p1: "printblock l s = Inr (p1, s)" using printblock_returns [of s l, unfolded h u] acc by auto
  obtain p2 where p2: "printblock (l + 24) s = Inr (p2, s)" using printblock_returns [of s "l + 24"] acc h by (auto simp: add_ac)
  obtain c where c: "checkblock l s = Inr (c, s)" using checkblock_returns [of s l, unfolded h u] acc by auto
  have e: "checkheap_loop True (l + 24) s = Inr (l + 24, [])"
    using acc h by (simp add: checkheap_loop.simps [of _ "l + 24"] run_simps a1)
  then have "checkheap_loop True l s = Inr (l + 24, p1 @ c)"
    using acc h p1 c by (simp add: checkheap_loop.simps [of _ l] run_simps a1)
  then show ?thesis using l acc h p1 p2 c by (simp add: mm_checkheap_def run_simps a1)
qed

lemma checkheap_emit:
  assumes "heap_listp s = l" and "accessible s (l - 4) 40" and "get32 (mem s) (l - 4) = 25" "get32 (mem s) (l + 20) = 1"
  shows "\<exists>ms. bindE (mm_checkheap True) emit s = Inr ((), s\<lparr>out := ms\<rparr>)"
  using checkheap_prologue [OF assms] by (auto simp: emit_def bindE_def)

lemma coalesce_helper_wild:
  fixes s :: "'a mm_scheme"
  assumes "bp \<noteq> 0" "accessible s bp 8" "accessible s (bp + 4) 8" "get64 (mem s) bp = 0"
    "get64 (mem s) (bp + 4) = q" "q \<noteq> 0" "\<not> accessible s (uint q) 8"
  shows "coalesce_helper bp s = Inl (Fault (uint q))"
proof -
  let ?s = "s\<lparr>heap_basefree := uint q\<rparr>"
  have 1: "accessible ?s p n = accessible s p n" for p n by (simp add: accessible_def)
  have 2: "uint q \<noteq> 0" using assms(6) by (simp add: uint_0_iff)
  have 3: "PRED (uint q) ?s = Inl (Fault (uint q))" using assms(7) by (simp add: PRED_def bindE_def load64_def 1)
  have 4: "SUCC bp ?s = Inr (uint q, ?s)" using assms by (simp add: pointer_run 1)
  show ?thesis using assms 2 unfolding coalesce_helper_def
    by (simp add: NULL_def bindE_step pointer_run 4 whenE_def) (simp add: bindE_def 3 4)
qed

lemma exp_coalesce_wild:
  assumes "heap_listp s = b + 8" and b: "0 < b" and a: "accessible s b 65552"
    and m: "get32 (mem s) (b + 4) = 25" "get32 (mem s) (b + 28) = 1" "get32 (mem s) (b + 8) = 0"
      "get32 (mem s) (b + 12) = 65536" "get64 (mem s) (b + 16) = 0" "get64 (mem s) (b + 20) = 0x1900000000"
      "get32 (mem s) (b + 65544) = 65536" "get32 (mem s) (b + 65548) = 1"
    and wild: "\<not> accessible s 0x1900000000 8"
  shows "exp_coalesce (b + 16) s = Inl (Fault 0x1900000000)"
proof -
  have acc: "accessible s (b + 4) 40" "accessible s (b + 4) 4" "accessible s (b + 28) 4" "accessible s (b + 8) 4" "accessible s (b + 12) 4"
    "accessible s (b + 16) 8" "accessible s (b + 20) 8" "accessible s (b + 65544) 4" "accessible s (b + 65548) 4"
    using a by (auto simp: accessible_def)
  obtain ms where ms: "bindE (mm_checkheap True) emit s = Inr ((), s\<lparr>out := ms\<rparr>)"
    using checkheap_emit [of s "b + 8"] assms acc by (auto simp: add_ac)
  let ?s = "s\<lparr>out := ms\<rparr>"
  have f: "accessible ?s p n = accessible s p n" for p n by (simp add: accessible_def)
  have helper: "coalesce_helper (b + 16) ?s = Inl (Fault 0x1900000000)"
    using coalesce_helper_wild [of "b + 16" ?s "0x1900000000"] acc m b wild by (simp add: f add.assoc)
  have a1: "b + 16 - 8 = b + 8" "b + 16 - 4 = b + 12" "b + 65552 - 4 = b + 65548" "b + 16 + 65536 = b + 65552" "b + 65552 - 8 = b + 65544" by simp_all
  have reads: "PREV_BLKP (b + 16) ?s = Inr (b + 16, ?s)" "FTRP (b + 16) ?s = Inr (b + 65544, ?s)"
    "GET_ALLOC (b + 65544) ?s = Inr (0, ?s)" "NEXT_BLKP (b + 16) ?s = Inr (b + 65552, ?s)"
    "GET_ALLOC (b + 65548) ?s = Inr (1, ?s)" "GET_SIZE (b + 12) ?s = Inr (65536, ?s)"
    using acc m by (simp_all add: PREV_BLKP_run NEXT_BLKP_run FTRP_run GET_ALLOC_run GET_SIZE_run f a1)
  have nn: "b + 16 \<noteq> NULL" using b by (simp add: NULL_def)
  have h: "HDRP (b + 16) = b + 12" "HDRP (b + 65552) = b + 65548" by (simp_all add: HDRP_run)
  show ?thesis
    unfolding exp_coalesce_def bindE_step [of "bindE (mm_checkheap True) emit" s, OF ms]
    unfolding bindE_assoc [of "PREV_BLKP (b + 16)"] bindE_assoc [of "NEXT_BLKP (b + 16)"] bindE_assoc [of "bindE (PREV_BLKP (b + 16)) FTRP"]
    by (simp add: bindE_step reads nn h) (simp add: bindE_def helper reads h)
qed

lemma put64_as_put32: "put64 m a 0 = put32 (put32 m a 0) (a + 4) 0"
  by (simp add: put64_def)

lemma extend_size_chunk: "extend_size 16384 = 65536"
  by (simp add: extend_size_def)

lemma extend_heap_wild:
  assumes "heap_listp s = b + 8" "mem_brk s = b + 16" and b: "0 < b" "mem_start_brk s \<le> b" "b + 65552 \<le> mem_max_addr s"
    and top: "mem_max_addr s < 2 ^ 64"
    and m: "get32 (mem s) (b + 4) = 25" "get32 (mem s) (b + 28) = 1" "get32 (mem s) (b + 8) = 0"
      "get32 (mem s) (b + 16) = 0" "get32 (mem s) (b + 20) = 0" "get32 (mem s) (b + 24) = 25"
    and wild: "\<not> accessible s 0x1900000000 8"
  shows "extend_heap 16384 s = Inl (Fault 0x1900000000)"
proof -
  let ?s1 = "s\<lparr>mem_brk := b + 65552\<rparr>"
  let ?s2 = "?s1\<lparr>mem := put32 (mem s) (b + 12) 65536\<rparr>"
  let ?s3 = "?s1\<lparr>mem := put32 (put32 (mem s) (b + 12) 65536) (b + 65544) 65536\<rparr>"
  let ?m = "put32 (put32 (put32 (mem s) (b + 12) 65536) (b + 65544) 65536) (b + 65548) 1"
  let ?s4 = "?s1\<lparr>mem := ?m\<rparr>"
  have a: "accessible s (b + 12) 4" "accessible s (b + 65544) 4" "accessible s (b + 65548) 4" "accessible s b 65552"
    using b by (auto simp: accessible_def)
  have f: "accessible (s\<lparr>mem_brk := k, mem := q\<rparr>) p n = accessible s p n" "accessible (s\<lparr>mem_brk := k\<rparr>) p n = accessible s p n"
    for k q p n by (simp_all add: accessible_def)
  have a1: "b + 16 - 4 = b + 12" "b + 65552 - 4 = b + 65548" "b + 16 + 65536 = b + 65552" "b + 65552 - 8 = b + 65544" "b + 20 + 4 = b + 24" "b + 16 + 4 = b + 20" by simp_all
  have k: "b + 16 \<noteq> SBRK_FAILED"
    using b top by (simp add: SBRK_FAILED_def)
  have 1: "mem_sbrk 65536 s = Inr (b + 16, ?s1)" using assms by (simp add: mem_sbrk_def)
  have 2: "PUT (b + 12) 65536 ?s1 = Inr ((), ?s2)" using a by (simp add: run_simps f)
  have 3: "FTRP (b + 16) ?s2 = Inr (b + 65544, ?s2)" using a by (simp add: FTRP_run f a1 word_mem_simps)
  have 4: "PUT (b + 65544) 65536 ?s2 = Inr ((), ?s3)" using a by (simp add: run_simps f)
  have 5: "NEXT_BLKP (b + 16) ?s3 = Inr (b + 65552, ?s3)" using a by (simp add: NEXT_BLKP_run f a1 word_mem_simps)
  have 6: "PUT (b + 65548) 1 ?s3 = Inr ((), ?s4)" using a by (simp add: run_simps f)
  have 7: "exp_coalesce (b + 16) ?s4 = Inl (Fault 0x1900000000)"
    using assms a by (intro exp_coalesce_wild) (auto simp: word_mem_simps f get64_def a1)
  have h: "HDRP (b + 16) = b + 12" "HDRP (b + 65552) = b + 65548" by (simp_all add: HDRP_run)
  show ?thesis
    unfolding extend_heap_def extend_size_chunk bindE_assoc using k
    by (simp add: bindE_step 1 2 3 4 5 6 7 h PACK_def)
qed

text \<open>The states \<open>mm_init\<close> goes through after its call of \<open>mem_sbrk\<close>.\<close>

definition init_state ::
    "'a mm_scheme \<Rightarrow> int \<Rightarrow> memory \<Rightarrow> int \<Rightarrow> msg list \<Rightarrow> 'a mm_scheme" where
  "init_state s lp m bf os = s\<lparr>mem_brk := mem_brk s + 16, mem := m, heap_listp := lp,
     heap_basefree := bf, out := os\<rparr>"

lemma init_state_simps [simp]:
  "(init_state s lp m bf os)\<lparr>mem := m'\<rparr> = init_state s lp m' bf os"
  "(init_state s lp m bf os)\<lparr>heap_listp := lp'\<rparr> = init_state s lp' m bf os"
  "(init_state s lp m bf os)\<lparr>heap_basefree := bf'\<rparr> = init_state s lp m bf' os"
  "(init_state s lp m bf os)\<lparr>out := os'\<rparr> = init_state s lp m bf os'"
  "mem (init_state s lp m bf os) = m" "heap_listp (init_state s lp m bf os) = lp"
  "out (init_state s lp m bf os) = os" "mem_brk (init_state s lp m bf os) = mem_brk s + 16"
  "mem_start_brk (init_state s lp m bf os) = mem_start_brk s"
  "mem_max_addr (init_state s lp m bf os) = mem_max_addr s"
  "accessible (init_state s lp m bf os) p n = accessible s p n"
  by (cases s; simp add: init_state_def accessible_def)+

lemma prologue_reads:
  assumes a: "accessible s (b + 4) 40" and g: "get32 (mem s) (b + 4) = 25" "get32 (mem s) (b + 24) = 25"
      "get32 (mem s) (b + 28) = 1" and l: "heap_listp s = b + 8"
  shows "GET_SIZE (b + 4) s = Inr (24, s)" "GET_ALLOC (b + 4) s = Inr (1, s)"
    "FTRP (b + 8) s = Inr (b + 24, s)" "GET_SIZE (b + 24) s = Inr (24, s)"
    "GET_ALLOC (b + 24) s = Inr (1, s)" "\<exists>x. SUCC (b + 8) s = Inr (x, s)"
    "\<exists>x. PRED (b + 8) s = Inr (x, s)"
    "\<exists>ms. bindE (mm_checkheap True) emit s = Inr ((), s\<lparr>out := ms\<rparr>)"
proof -
  have acc: "accessible s (b + 4) 4" "accessible s (b + 24) 4" "accessible s (b + 8) 8"
    "accessible s (b + 12) 8"
    using a by (simp_all add: accessible_def)
  have a1: "b + 8 - 4 = b + 4" "b + 8 + 24 - 8 = b + 24" "b + 8 + 4 = b + 12" "b + 8 + 20 = b + 28"
    by simp_all
  show "GET_SIZE (b + 4) s = Inr (24, s)" "GET_ALLOC (b + 4) s = Inr (1, s)"
    "FTRP (b + 8) s = Inr (b + 24, s)" "GET_SIZE (b + 24) s = Inr (24, s)"
    "GET_ALLOC (b + 24) s = Inr (1, s)" "\<exists>x. SUCC (b + 8) s = Inr (x, s)"
    "\<exists>x. PRED (b + 8) s = Inr (x, s)"
    using acc g by (simp_all add: GET_SIZE_run GET_ALLOC_run FTRP_run pointer_run a1)
  show "\<exists>ms. bindE (mm_checkheap True) emit s = Inr ((), s\<lparr>out := ms\<rparr>)"
    using checkheap_emit [OF l] a g by (simp add: a1)
qed

lemma mm_init_faults:
  assumes d: "\<And>w t. \<exists>r. d w t = Inr (r, t)"
    and b: "0 < mem_start_brk s" "mem_start_brk s \<le> mem_brk s"
    and room: "mem_brk s + 65552 \<le> mem_max_addr s" "mem_max_addr s < 2 ^ 64"
    and wild: "\<not> accessible s 0x1900000000 8"
  shows "mm_init d s = Inl (Fault 0x1900000000)"
proof -
  define b where "b = mem_brk s"
  have b0: "0 < b" "mem_start_brk s \<le> b" "b + 65552 \<le> mem_max_addr s" using assms by (auto simp: b_def)
  obtain r where r: "\<And>w s. d w s = Inr (r w s, s)" using d by metis
  let ?T = "init_state s"
  have a: "accessible s b 4" "accessible s (b + 4) 4" "accessible s (b + 4) 16" "accessible s (b + 24) 4" "accessible s (24 + b) 4" "accessible s (b + 28) 4" "accessible s (b + 8) 8" "accessible s (b + 16) 8" "accessible s (b + 12) 8" "accessible s (b + 4) 40"
    using b0 by (simp_all add: accessible_def)
  have a1: "b + 8 - 4 = b + 4" "b + 8 + uint (size_of 25) - 8 = b + 24" "b + 8 + 24 - 8 = b + 24" "b + 8 + 16 = b + 24" "b + 24 + 4 = b + 28" "b + 4 + 4 = b + 8" "b + 8 + 8 = b + 16"
    "b + 8 + 4 = b + 12" "b + 8 + 20 = b + 28" "b + 16 + 4 = b + 20" "b + 8 + 16 + 4 = b + 28" "28 + b = b + 28" by simp_all
  let ?m1 = "put32 (put32 (mem s) b 0) (b + 4) 25"
  let ?m2 = "put32 (put32 ?m1 (b + 24) 25) (b + 28) 1"
  let ?m3 = "put64 (put64 ?m2 (b + 8) 0) (b + 16) 0"
  let ?bf = "heap_basefree s" and ?os = "out s"
  have 1: "mem_sbrk 16 s = Inr (b, s\<lparr>mem_brk := b + 16\<rparr>)" using b0 by (simp add: mem_sbrk_def b_def)
  have 2: "s\<lparr>mem_brk := b + 16, heap_listp := b\<rparr> = ?T b (mem s) ?bf ?os" by (cases s) (simp add: init_state_def b_def)
  have 3: "PUT b 0 (?T b (mem s) ?bf ?os) = Inr ((), ?T b (put32 (mem s) b 0) ?bf ?os)" using a by (simp add: run_simps)
  have 4: "PUT (b + 4) 25 (?T (b + 4) (put32 (mem s) b 0) ?bf ?os) = Inr ((), ?T (b + 4) ?m1 ?bf ?os)" using a by (simp add: run_simps)
  obtain p1 where "printblock (b + 8) (?T (b + 8) ?m1 ?bf ?os) = Inr (p1, ?T (b + 8) ?m1 ?bf ?os)"
    using printblock_returns [of "?T (b + 8) ?m1 ?bf ?os" "b + 8"] a by (auto simp: word_mem_simps a1)
  then have 5: "bindE (printblock (b + 8)) emit (?T (b + 8) ?m1 ?bf ?os) = Inr ((), ?T (b + 8) ?m1 ?bf (?os @ p1))"
    by (simp add: bindE_step emit_def)
  have 6: "PUT (b + 24) 25 (?T (b + 8) ?m1 ?bf os) = Inr ((), ?T (b + 8) (put32 ?m1 (b + 24) 25) ?bf os)" for os using a by (simp add: run_simps)
  have 7: "PUT (b + 28) 1 (?T (b + 8) (put32 ?m1 (b + 24) 25) ?bf os) = Inr ((), ?T (b + 8) ?m2 ?bf os)" for os using a by (simp add: run_simps)
  have 8: "PUT_64VAL (b + 8) 0 (?T (b + 8) ?m2 bf os) = Inr ((), ?T (b + 8) (put64 ?m2 (b + 8) 0) bf os)" for bf os using a by (simp add: PUT_64VAL_def NULL_def run_simps)
  have 9: "PUT_64VAL (b + 16) 0 (?T (b + 8) (put64 ?m2 (b + 8) 0) bf os) = Inr ((), ?T (b + 8) ?m3 bf os)" for bf os using a by (simp add: PUT_64VAL_def NULL_def run_simps)
  have g: "get32 ?m3 (b + 4) = 25" "get32 ?m3 (b + 28) = 1" "get32 ?m3 (b + 24) = 25" by (simp_all add: word_mem_simps)
  have g': "get32 ?m3 (b + 8) = 0" "get32 ?m3 (b + 16) = 0" "get32 ?m3 (b + 20) = 0"
    by (simp_all add: put64_as_put32 word_mem_simps a1)
  have reads: "accessible (?T (b + 8) ?m3 bf os) (b + 4) 40" "get32 (mem (?T (b + 8) ?m3 bf os)) (b + 4) = 25"
    "get32 (mem (?T (b + 8) ?m3 bf os)) (b + 24) = 25" "get32 (mem (?T (b + 8) ?m3 bf os)) (b + 28) = 1"
    "heap_listp (?T (b + 8) ?m3 bf os) = b + 8" for bf os
    using a g by simp_all
  note 10 = prologue_reads [OF reads]
  have 13: "extend_heap 16384 (?T (b + 8) ?m3 bf os) = Inl (Fault 0x1900000000)" for bf os
    using b0 room g g' wild by (intro extend_heap_wild) (simp_all add: b_def)
  obtain su pr where sp: "SUCC (b + 8) (?T (b + 8) ?m3 (b + 8) os) = Inr (su os, ?T (b + 8) ?m3 (b + 8) os)"
     "PRED (b + 8) (?T (b + 8) ?m3 (b + 8) os) = Inr (pr os, ?T (b + 8) ?m3 (b + 8) os)" for os
    using 10(6,7) by metis
  obtain ck where ck: "bindE (mm_checkheap True) emit (?T (b + 8) ?m3 (b + 8) os)
     = Inr ((), ?T (b + 8) ?m3 (b + 8) (ck os))" for os
    using 10(8) [unfolded init_state_simps] by metis
  have h: "HDRP (b + 8) = b + 4" by (simp add: HDRP_run)
  have e: "emit ms (?T lp m bf os) = Inr ((), ?T lp m bf (os @ ms))" for ms lp m bf os by (simp add: emit_def)
  show ?thesis unfolding mm_init_def
    using b0 by (simp add: bindE_step bindE_cases(2) 1 2 3 4 5 6 7 8 9 10(1-5) 13 sp ck h e a1 r PACK_def NULL_def WSIZE_def DSIZE_def CHUNKSIZE_def)
qed

text \<open>
  The layout \<open>mm_init\<close> writes: its stores from the padding word to the two null pointers, in order,
  on any memory \<open>m\<close>, for the break \<open>b\<close> it found. (\<open>mm_init_faults\<close> above goes through
  these stores when the undeclared \<open>d\<close> does nothing.)
\<close>

definition init_layout :: "memory \<Rightarrow> int \<Rightarrow> memory" where
  "init_layout m b =
     put64 (put64 (put32 (put32 (put32 (put32 m b 0) (b + 4) (PACK 24 1)) (b + 24) (PACK 24 1)) (b + 28) (PACK 0 1))
       (b + 8) 0) (b + 16) 0"

lemma init_layout_words:
  "get32 (init_layout m b) (b + 4) = 25" "get32 (init_layout m b) (b + 28) = 1" "get32 (init_layout m b) (b + 24) = 25"
  "get32 (init_layout m b) (b + 8) = 0" "get32 (init_layout m b) (b + 16) = 0" "get32 (init_layout m b) (b + 20) = 0"
proof -
  have a: "b + 8 + 4 = b + 12" "b + 16 + 4 = b + 20" by simp_all
  show "get32 (init_layout m b) (b + 4) = 25" "get32 (init_layout m b) (b + 28) = 1" "get32 (init_layout m b) (b + 24) = 25"
    "get32 (init_layout m b) (b + 8) = 0" "get32 (init_layout m b) (b + 16) = 0" "get32 (init_layout m b) (b + 20) = 0"
    by (simp_all add: init_layout_def put64_as_put32 word_mem_simps a PACK_def)
qed

text \<open>
  C33: The first \<open>extend_heap\<close> on the layout \<open>mm_init\<close> writes. \<open>mm_init\<close> asks for 16 bytes but lays
  out 32, so the first block starts inside the prologue. On a 64-bit arena with room for
  \<open>CHUNKSIZE\<close> more bytes its previous block is read as itself, free, and \<open>coalesce_helper\<close> takes the 8
  bytes at \<open>bp + 4\<close>, half of them the prologue's footer 25, for a pointer: the run faults at
  \<open>25 * 2 ^ 32\<close>, whatever the memory held before, unless the arena contains that address.
\<close>

theorem extend_heap_on_init_layout:
  assumes "heap_listp s = b + 8" "mem_brk s = b + 16" "mem s = init_layout m b"
    and "0 < b" "mem_start_brk s \<le> b" "mem_brk s + uint CHUNKSIZE \<le> mem_max_addr s" "mem_max_addr s < 2 ^ 64"
    and "\<not> accessible s (25 * 2 ^ 32) 8"
  shows "extend_heap (ucast (CHUNKSIZE div 4)) s = Inl (Fault (25 * 2 ^ 32))"
proof -
  have c: "ucast (CHUNKSIZE div 4) = (16384 :: uint64)" "uint CHUNKSIZE = 65536" by (simp_all add: CHUNKSIZE_def)
  have "extend_heap 16384 s = Inl (Fault 0x1900000000)"
    by (rule extend_heap_wild [where b = b]) (use assms in \<open>simp_all add: init_layout_words c(2)\<close>)
  then show ?thesis unfolding c(1) by simp
qed

theorem extend_heap_on_init_layout_witness:
  "extend_heap 16384 \<lparr>mem_start_brk = 4096, mem_brk = 4112, mem_max_addr = 4096 + MAX_HEAP,
      errno = 0, mem = init_layout (\<lambda>_. 0) 4096, heap_listp = 4104, heap_basefree = 4104, out = []\<rparr>
     = Inl (Fault 0x1900000000)"
  using extend_heap_on_init_layout [of "\<lparr>mem_start_brk = 4096, mem_brk = 4112, mem_max_addr = 4096 + MAX_HEAP,
      errno = 0, mem = init_layout (\<lambda>_. 0) 4096, heap_listp = 4104, heap_basefree = 4104, out = []\<rparr>" 4096 "\<lambda>_. 0"]
  by (simp add: MAX_HEAP_def CHUNKSIZE_def accessible_def)

end
