(* ===== verification/Ranges.thy ===== *)
theory Ranges
  imports Memlib
begin

section \<open>The driver's state and its range list (mdriver.c)\<close>

text \<open>
  The data types of \<^verbatim>\<open>labs/malloclab/mdriver.c\<close>, its global state, and the three routines on
  the list of live payload ranges. The linked list of \<open>range_t\<close> is a list, head first. The
  allocator and the arena it works on are the field \<open>heap\<close>: a command on the heap is lifted
  with \<open>on_heap\<close>, so by construction no allocator can touch the driver's own data. An error
  report is an entry of \<open>reports\<close> (trace number, line number, message). The driver's own
  \<open>malloc\<close> calls (list nodes, trace arrays) are taken to succeed.
\<close>

subsection \<open>Types\<close>

record range_t =
  range_lo :: int
  range_hi :: int

datatype request_type = ALLOC | FREE | REALLOC

record traceop_t =
  op_type :: request_type
  op_index :: cint
  op_size :: cint

record trace_t =
  sugg_heapsize :: cint
  num_ids :: cint
  num_ops :: cint
  weight :: cint
  trace_ops :: "traceop_t list"
  blocks :: "int list"
  block_sizes :: "uint64 list"

datatype report =
    NotAlignedPayload int
  | OutsideHeap int int
  | Overlaps int int int int
  | MmInitFailed
  | MmMallocFailed
  | MmReallocFailed
  | DataNotPreserved
  | LibcMallocFailed
  | LibcReallocFailed

record 'm driver =
  heap :: "'m memlib_scheme"
  ranges :: "range_t list"
  trace :: trace_t
  errors :: cint
  reports :: "(cint \<times> cint \<times> report) list"

definition ALIGNMENT :: uint32 where "ALIGNMENT = 8"

definition IS_ALIGNED :: "int \<Rightarrow> bool" where
  "IS_ALIGNED p \<longleftrightarrow> (word_of_int p :: uint32) mod ALIGNMENT = 0"

definition LINENUM :: "cint \<Rightarrow> cint" where
  "LINENUM i = i + 5"

subsection \<open>Reports and lifting\<close>

definition malloc_error :: "cint \<Rightarrow> cint \<Rightarrow> report \<Rightarrow> ('m driver, unit) cmd" where
  "malloc_error tracenum opnum what =
     bindE (modifyE (\<lambda>s. s\<lparr>errors := errors s + 1\<rparr>)) (\<lambda>_.
       modifyE (\<lambda>s. s\<lparr>reports := reports s @ [(tracenum, LINENUM opnum, what)]\<rparr>))"

lemma malloc_error_run [simp]:
  "malloc_error tn op w s
     = Inr ((), s\<lparr>errors := errors s + 1, reports := reports s @ [(tn, LINENUM op, w)]\<rparr>)"
  "bindE (malloc_error tn op w) f s
     = f () (s\<lparr>errors := errors s + 1, reports := reports s @ [(tn, LINENUM op, w)]\<rparr>)"
  by (simp_all add: malloc_error_def bindE_assoc)

definition app_error :: "('s, 'a) cmd" where
  "app_error = throwE (Exit 1)"

definition unix_error :: "('s, 'a) cmd" where
  "unix_error = throwE (Exit 1)"

definition on_heap :: "('m memlib_scheme, 'a) cmd \<Rightarrow> ('m driver, 'a) cmd" where
  "on_heap c = (\<lambda>s. case c (heap s) of Inl e \<Rightarrow> Inl e | Inr (x, h) \<Rightarrow> Inr (x, s\<lparr>heap := h\<rparr>))"

subsection \<open>add_range, remove_range, clear_ranges\<close>

text \<open>The first range of the list with an end point of the new range inside, as the loop finds it.\<close>

fun find_overlap :: "int \<Rightarrow> int \<Rightarrow> range_t list \<Rightarrow> range_t option" where
  "find_overlap lo hi [] = None"
| "find_overlap lo hi (p # ps) =
     (if (range_lo p \<le> lo \<and> lo \<le> range_hi p) \<or> (range_lo p \<le> hi \<and> hi \<le> range_hi p)
      then Some p else find_overlap lo hi ps)"

definition add_range :: "int \<Rightarrow> cint \<Rightarrow> cint \<Rightarrow> cint \<Rightarrow> ('m driver, cint) cmd" where
  "add_range lo sz tracenum opnum =
     (let hi = lo + sint sz - 1
      in if \<not> 0 < sint sz then throwE AssertFail
         else if \<not> IS_ALIGNED lo then
           bindE (malloc_error tracenum opnum (NotAlignedPayload lo)) (\<lambda>_. retE 0)
         else
           bindE (getsE (\<lambda>s. mem_heap_lo (heap s))) (\<lambda>hlo.
           bindE (getsE (\<lambda>s. mem_heap_hi (heap s))) (\<lambda>hhi.
             if lo < hlo \<or> hhi < lo \<or> hi < hlo \<or> hhi < hi then
               bindE (malloc_error tracenum opnum (OutsideHeap lo hi)) (\<lambda>_. retE 0)
             else
               bindE (getsE ranges) (\<lambda>rs.
                 case find_overlap lo hi rs of
                   Some p \<Rightarrow>
                     bindE (malloc_error tracenum opnum
                              (Overlaps lo hi (range_lo p) (range_hi p))) (\<lambda>_. retE 0)
                 | None \<Rightarrow>
                     bindE (modifyE (\<lambda>s. s\<lparr>ranges := \<lparr>range_lo = lo, range_hi = hi\<rparr> # rs\<rparr>))
                       (\<lambda>_. retE 1)))))"

fun drop_range :: "int \<Rightarrow> range_t list \<Rightarrow> range_t list" where
  "drop_range lo [] = []"
| "drop_range lo (p # ps) = (if range_lo p = lo then ps else p # drop_range lo ps)"

definition remove_range :: "int \<Rightarrow> ('m driver, unit) cmd" where
  "remove_range lo = modifyE (\<lambda>s. s\<lparr>ranges := drop_range lo (ranges s)\<rparr>)"

definition clear_ranges :: "('m driver, unit) cmd" where
  "clear_ranges = modifyE (\<lambda>s. s\<lparr>ranges := []\<rparr>)"

subsection \<open>What the checks establish\<close>

text \<open>A recorded range is aligned and lies below the break.\<close>

definition range_ok :: "'m memlib_scheme \<Rightarrow> range_t \<Rightarrow> bool" where
  "range_ok h r \<longleftrightarrow> IS_ALIGNED (range_lo r) \<and> range_lo r \<le> range_hi r
     \<and> mem_start_brk h \<le> range_lo r \<and> range_hi r < mem_brk h"

text \<open>
  The test of \<open>add_range\<close> looks at the end points of the new range only: \<open>clear_of\<close> is what it
  establishes, and \<open>disjoint_ranges\<close> is what it is meant to establish.
\<close>

definition clear_of :: "range_t \<Rightarrow> range_t \<Rightarrow> bool" where
  "clear_of new old \<longleftrightarrow> (range_hi new < range_lo old \<or> range_hi old < range_lo new)
     \<or> (range_lo new < range_lo old \<and> range_hi old < range_hi new)"

definition disjoint_ranges :: "range_t \<Rightarrow> range_t \<Rightarrow> bool" where
  "disjoint_ranges a b \<longleftrightarrow> range_hi a < range_lo b \<or> range_hi b < range_lo a"

fun ranges_clear :: "range_t list \<Rightarrow> bool" where
  "ranges_clear [] \<longleftrightarrow> True"
| "ranges_clear (r # rs) \<longleftrightarrow> (\<forall>q\<in>set rs. clear_of r q) \<and> ranges_clear rs"

definition ranges_ok :: "'m driver \<Rightarrow> bool" where
  "ranges_ok s \<longleftrightarrow> (\<forall>r\<in>set (ranges s). range_ok (heap s) r) \<and> ranges_clear (ranges s)"

lemma find_overlap_None:
  "find_overlap lo hi rs = None \<longleftrightarrow>
     (\<forall>p\<in>set rs. \<not> (range_lo p \<le> lo \<and> lo \<le> range_hi p) \<and> \<not> (range_lo p \<le> hi \<and> hi \<le> range_hi p))"
  by (induction rs) auto

lemma find_overlap_clear:
  assumes "find_overlap lo hi rs = None" "lo \<le> hi" "\<forall>p\<in>set rs. range_lo p \<le> range_hi p"
  shows "\<forall>p\<in>set rs. clear_of \<lparr>range_lo = lo, range_hi = hi\<rparr> p"
  using assms unfolding find_overlap_None clear_of_def by force

lemma find_overlap_Some:
  "find_overlap lo hi rs = Some p \<Longrightarrow> p \<in> set rs
     \<and> \<not> clear_of \<lparr>range_lo = lo, range_hi = hi\<rparr> p \<or> \<not> lo \<le> hi"
  by (induction rs) (auto simp: clear_of_def split: if_splits)

lemma drop_range_subset: "set (drop_range lo rs) \<subseteq> set rs"
  by (induction rs) auto

lemma drop_range_clear: "ranges_clear rs \<Longrightarrow> ranges_clear (drop_range lo rs)"
  using drop_range_subset by (induction rs) fastforce+

lemma add_range_cases:
  obtains (assert) "\<not> 0 < sint sz" "add_range lo sz tn op s = Inl AssertFail"
  | (rejected) r where "0 < sint sz" "add_range lo sz tn op s
       = Inr (0, s\<lparr>errors := errors s + 1, reports := reports s @ [(tn, LINENUM op, r)]\<rparr>)"
  | (accepted) "0 < sint sz" "IS_ALIGNED lo" "mem_start_brk (heap s) \<le> lo"
      "lo + sint sz - 1 < mem_brk (heap s)" "find_overlap lo (lo + sint sz - 1) (ranges s) = None"
      "add_range lo sz tn op s = Inr (1, s\<lparr>ranges :=
         \<lparr>range_lo = lo, range_hi = lo + sint sz - 1\<rparr> # ranges s\<rparr>)"
proof (cases "0 < sint sz")
  case pos: True
  let ?out = "lo < mem_heap_lo (heap s) \<or> mem_heap_hi (heap s) < lo
    \<or> lo + sint sz - 1 < mem_heap_lo (heap s) \<or> mem_heap_hi (heap s) < lo + sint sz - 1"
  show ?thesis
  proof (cases "IS_ALIGNED lo \<and> \<not> ?out \<and> find_overlap lo (lo + sint sz - 1) (ranges s) = None")
    case True
    then show ?thesis using pos
      by (intro accepted) (auto simp: add_range_def mem_heap_lo_def mem_heap_hi_def Let_def)
  next
    case False
    then consider (unaligned) "\<not> IS_ALIGNED lo" | (outside) "IS_ALIGNED lo" ?out
      | (overlap) p where "IS_ALIGNED lo" "\<not> ?out"
          "find_overlap lo (lo + sint sz - 1) (ranges s) = Some p"
      by (cases "find_overlap lo (lo + sint sz - 1) (ranges s)") auto
    then show ?thesis
    proof cases
      case unaligned
      then show ?thesis using pos
        by (intro rejected [of "NotAlignedPayload lo"]) (simp_all add: add_range_def Let_def)
    next
      case outside
      then show ?thesis using pos
        by (intro rejected [of "OutsideHeap lo (lo + sint sz - 1)"])
          (simp_all add: add_range_def Let_def)
    next
      case (overlap p)
      then show ?thesis using pos
        by (intro rejected [of "Overlaps lo (lo + sint sz - 1) (range_lo p) (range_hi p)"])
          (simp_all add: add_range_def Let_def)
    qed
  qed
qed (auto simp: add_range_def intro: assert)

lemma add_range_ok:
  assumes "ranges_ok s" "add_range lo sz tn op s = Inr (r, t)"
  shows "ranges_ok t \<and> heap t = heap s \<and> trace t = trace s"
proof (cases rule: add_range_cases [where lo = lo and sz = sz and tn = tn and op = op and s = s])
  case accepted
  have "\<forall>p\<in>set (ranges s). clear_of \<lparr>range_lo = lo, range_hi = lo + sint sz - 1\<rparr> p"
    using accepted(1,5) assms(1) by (intro find_overlap_clear) (auto simp: ranges_ok_def range_ok_def)
  then show ?thesis using accepted assms by (auto simp: ranges_ok_def range_ok_def)
qed (use assms in \<open>auto simp: ranges_ok_def\<close>)

lemma remove_range_ok: "ranges_ok s \<Longrightarrow> ranges_ok (s\<lparr>ranges := drop_range lo (ranges s)\<rparr>)"
  using drop_range_subset drop_range_clear unfolding ranges_ok_def by fastforce

definition no_trace :: trace_t where
  "no_trace = \<lparr>sugg_heapsize = 0, num_ids = 0, num_ops = 0, weight = 0, trace_ops = [],
     blocks = [], block_sizes = []\<rparr>"

text \<open>
  C10: \<open>add_range\<close> accepts a payload (returns 1 and records it first) exactly if it is aligned,
  lies inside the heap, and neither end point lies in a recorded range; otherwise it returns 0,
  counts one error and leaves the list alone, and a size that is not positive fails the
  assertion. So an accepted range is disjoint from every recorded range it does not enclose,
  and one that strictly encloses a recorded range is accepted.
\<close>

theorem add_range_exact:
  fixes s :: "'m driver" and lo :: int and sz :: cint
  assumes rs: "\<forall>p\<in>set (ranges s). range_lo p \<le> range_hi p"
  defines "new \<equiv> \<lparr>range_lo = lo, range_hi = lo + sint sz - 1\<rparr>"
  shows "if 0 < sint sz
    then (if range_ok (heap s) new \<and> (\<forall>p\<in>set (ranges s). clear_of new p)
          then add_range lo sz tn op s = Inr (1, s\<lparr>ranges := new # ranges s\<rparr>)
          else \<exists>r. add_range lo sz tn op s = Inr (0, s\<lparr>errors := errors s + 1,
                     reports := reports s @ [(tn, LINENUM op, r)]\<rparr>))
    else add_range lo sz tn op s = Inl AssertFail"
proof (cases rule: add_range_cases [where lo = lo and sz = sz and tn = tn and op = op and s = s])
  case assert
  then show ?thesis by simp
next
  case accepted
  then have "\<forall>p\<in>set (ranges s). clear_of new p"
    using rs unfolding new_def by (intro find_overlap_clear) auto
  then show ?thesis using accepted by (auto simp: range_ok_def new_def)
next
  case (rejected r)
  have "\<not> (range_ok (heap s) new \<and> (\<forall>p\<in>set (ranges s). clear_of new p))"
  proof
    assume ok: "range_ok (heap s) new \<and> (\<forall>p\<in>set (ranges s). clear_of new p)"
    have "find_overlap lo (lo + sint sz - 1) (ranges s) = None"
    proof (cases "find_overlap lo (lo + sint sz - 1) (ranges s)")
      case (Some p)
      then show ?thesis using find_overlap_Some [OF Some] ok rejected(1) by (auto simp: new_def)
    qed
    then have "add_range lo sz tn op s = Inr (1, s\<lparr>ranges := new # ranges s\<rparr>)"
      using ok rejected(1)
      by (auto simp: add_range_def range_ok_def mem_heap_lo_def mem_heap_hi_def new_def Let_def)
    with rejected(2) show False by simp
  qed
  then show ?thesis using rejected by auto
qed

theorem add_range_exact_witness:
  "add_range 4096 64 0 0
     \<lparr>heap = \<lparr>mem_start_brk = 4096, mem_brk = 8192, mem_max_addr = 8192, errno = 0, mem = \<lambda>_. 0\<rparr>,
      ranges = [\<lparr>range_lo = 4112, range_hi = 4127\<rparr>], trace = no_trace, errors = 0, reports = []\<rparr>
   = Inr (1,
     \<lparr>heap = \<lparr>mem_start_brk = 4096, mem_brk = 8192, mem_max_addr = 8192, errno = 0, mem = \<lambda>_. 0\<rparr>,
      ranges = [\<lparr>range_lo = 4096, range_hi = 4159\<rparr>, \<lparr>range_lo = 4112, range_hi = 4127\<rparr>],
      trace = no_trace, errors = 0, reports = []\<rparr>)"
proof -
  let ?s = "\<lparr>heap = \<lparr>mem_start_brk = 4096, mem_brk = 8192, mem_max_addr = 8192, errno = 0,
      mem = \<lambda>_. 0\<rparr>, ranges = [\<lparr>range_lo = 4112, range_hi = 4127\<rparr>], trace = no_trace, errors = 0,
      reports = []\<rparr>"
  show ?thesis
    using add_range_exact [of ?s 64 4096 0 0]
    by (simp add: range_ok_def clear_of_def IS_ALIGNED_def ALIGNMENT_def)
qed

end
