(* ===== verification/Driver.thy ===== *)
theory Driver
  imports Ranges MmExplicit
begin

section \<open>The driver's evaluation of an allocator (mdriver.c)\<close>

text \<open>
  The six \<open>eval_\<close> routines of \<^verbatim>\<open>labs/malloclab/mdriver.c\<close>. The driver is linked with any
  \<^verbatim>\<open>mm.c\<close>, so the allocator is an argument (a record of its four entry points; \<open>cs33_allocator\<close>
  is the one of this repository), and so is libc's. The trace arrays are bounded: an access
  outside them is \<open>OutOfBounds\<close>. \<open>int\<close> sums wrap as the compiled code does.
\<close>

subsection \<open>The allocator under test\<close>

record 'm allocator =
  init_op :: "('m memlib_scheme, cint) cmd"
  malloc_op :: "uint64 \<Rightarrow> ('m memlib_scheme, int) cmd"
  free_op :: "int \<Rightarrow> ('m memlib_scheme, unit) cmd"
  realloc_op :: "int \<Rightarrow> uint64 \<Rightarrow> ('m memlib_scheme, int) cmd"

subsection \<open>The trace arrays\<close>

definition array_index :: "cint \<Rightarrow> 'a list \<Rightarrow> bool" where
  "array_index i xs \<longleftrightarrow> 0 \<le> sint i \<and> sint i < int (length xs)"

definition read_op :: "cint \<Rightarrow> ('m driver, traceop_t) cmd" where
  "read_op i = (\<lambda>s. if array_index i (trace_ops (trace s))
     then Inr (trace_ops (trace s) ! nat (sint i), s) else Inl OutOfBounds)"

definition read_block :: "cint \<Rightarrow> ('m driver, int) cmd" where
  "read_block i = (\<lambda>s. if array_index i (blocks (trace s))
     then Inr (blocks (trace s) ! nat (sint i), s) else Inl OutOfBounds)"

definition write_block :: "cint \<Rightarrow> int \<Rightarrow> ('m driver, unit) cmd" where
  "write_block i p = (\<lambda>s. if array_index i (blocks (trace s))
     then Inr ((), s\<lparr>trace := (trace s)\<lparr>blocks := (blocks (trace s))[nat (sint i) := p]\<rparr>\<rparr>)
     else Inl OutOfBounds)"

definition read_size :: "cint \<Rightarrow> ('m driver, uint64) cmd" where
  "read_size i = (\<lambda>s. if array_index i (block_sizes (trace s))
     then Inr (block_sizes (trace s) ! nat (sint i), s) else Inl OutOfBounds)"

definition write_size :: "cint \<Rightarrow> uint64 \<Rightarrow> ('m driver, unit) cmd" where
  "write_size i n = (\<lambda>s. if array_index i (block_sizes (trace s))
     then Inr ((), s\<lparr>trace := (trace s)\<lparr>block_sizes := (block_sizes (trace s))[nat (sint i) := n]\<rparr>\<rparr>)
     else Inl OutOfBounds)"

lemmas array_defs = read_op_def read_block_def write_block_def read_size_def write_size_def

subsection \<open>eval_mm_valid\<close>

text \<open>
  The loop over \<open>newp[j]\<close> that checks a reallocated block. \<open>char\<close> is signed: the byte is sign
  extended before it is compared with \<open>index & 0xFF\<close>.
\<close>

fun data_preserved :: "int \<Rightarrow> cint \<Rightarrow> nat \<Rightarrow> ('m memlib_scheme, bool) cmd" where
  "data_preserved p index 0 = retE True"
| "data_preserved p index (Suc n) =
     bindE (load8 p) (\<lambda>c.
       if (scast c :: cint) \<noteq> index AND 0xFF then retE False
       else data_preserved (p + 1) index n)"

definition fill :: "int \<Rightarrow> cint \<Rightarrow> cint \<Rightarrow> ('m driver, unit) cmd" where
  "fill p index sz = on_heap (memset p (ucast (index AND 0xFF)) (unat (scast sz :: uint64)))"

text \<open>One iteration of the loop; the result says whether the loop goes on (else: return 0).\<close>

definition valid_step :: "'m allocator \<Rightarrow> cint \<Rightarrow> cint \<Rightarrow> ('m driver, bool) cmd" where
  "valid_step A tracenum i =
     bindE (read_op i) (\<lambda>op.
     let index = op_index op; sz = op_size op in
     case op_type op of
       ALLOC \<Rightarrow>
         bindE (on_heap (malloc_op A (scast sz))) (\<lambda>p.
           if p = NULL then
             bindE (malloc_error tracenum i MmMallocFailed) (\<lambda>_. retE False)
           else
             bindE (add_range p sz tracenum i) (\<lambda>ok.
               if ok = 0 then retE False
               else
                 bindE (fill p index sz) (\<lambda>_.
                 bindE (write_block index p) (\<lambda>_.
                 bindE (write_size index (scast sz)) (\<lambda>_.
                   retE True)))))
     | REALLOC \<Rightarrow>
         bindE (read_block index) (\<lambda>oldp.
         bindE (on_heap (realloc_op A oldp (scast sz))) (\<lambda>newp.
           if newp = NULL then
             bindE (malloc_error tracenum i MmReallocFailed) (\<lambda>_. retE False)
           else
             bindE (remove_range oldp) (\<lambda>_.
             bindE (add_range newp sz tracenum i) (\<lambda>ok.
               if ok = 0 then retE False
               else
                 bindE (read_size index) (\<lambda>osize.
                 let oldsize = ucast osize :: cint;
                     oldsize = (if sz <s oldsize then sz else oldsize) in
                 bindE (on_heap (data_preserved newp index (nat (sint oldsize)))) (\<lambda>same.
                   if \<not> same then
                     bindE (malloc_error tracenum i DataNotPreserved) (\<lambda>_. retE False)
                   else
                     bindE (fill newp index sz) (\<lambda>_.
                     bindE (write_block index newp) (\<lambda>_.
                     bindE (write_size index (scast sz)) (\<lambda>_.
                       retE True)))))))))
     | FREE \<Rightarrow>
         bindE (read_block index) (\<lambda>p.
         bindE (remove_range p) (\<lambda>_.
         bindE (on_heap (free_op A p)) (\<lambda>_.
           retE True))))"

primrec valid_loop :: "'m allocator \<Rightarrow> cint \<Rightarrow> nat \<Rightarrow> cint \<Rightarrow> ('m driver, cint) cmd" where
  "valid_loop A tracenum 0 i = retE 1"
| "valid_loop A tracenum (Suc n) i =
     bindE (valid_step A tracenum i) (\<lambda>go_on.
       if go_on then valid_loop A tracenum n (i + 1) else retE 0)"

definition eval_mm_valid :: "'m allocator \<Rightarrow> cint \<Rightarrow> ('m driver, cint) cmd" where
  "eval_mm_valid A tracenum =
     bindE (on_heap mem_reset_brk) (\<lambda>_.
     bindE clear_ranges (\<lambda>_.
     bindE (on_heap (init_op A)) (\<lambda>r.
       if sint r < 0 then bindE (malloc_error tracenum 0 MmInitFailed) (\<lambda>_. retE 0)
       else
         bindE (getsE (\<lambda>s. num_ops (trace s))) (\<lambda>n.
           valid_loop A tracenum (nat (sint n)) 0))))"

subsection \<open>eval_mm_util\<close>

definition FREE_HEAP :: cint where "FREE_HEAP = 65536"

definition util_step :: "'m allocator \<Rightarrow> cint \<Rightarrow> cint \<times> cint \<Rightarrow> ('m driver, cint \<times> cint) cmd" where
  "util_step A i = (\<lambda>(total_size, max_total_size).
     bindE (read_op i) (\<lambda>op.
     let index = op_index op;
         high_water = (\<lambda>total. (total, if max_total_size <s total then total else max_total_size)) in
     case op_type op of
       ALLOC \<Rightarrow>
         bindE (on_heap (malloc_op A (scast (op_size op)))) (\<lambda>p.
           if p = NULL then app_error
           else
             bindE (write_block index p) (\<lambda>_.
             bindE (write_size index (scast (op_size op))) (\<lambda>_.
               retE (high_water (total_size + op_size op)))))
     | REALLOC \<Rightarrow>
         bindE (read_size index) (\<lambda>oldsize.
         bindE (read_block index) (\<lambda>oldp.
         bindE (on_heap (realloc_op A oldp (scast (op_size op)))) (\<lambda>newp.
           if newp = NULL then app_error
           else
             bindE (write_block index newp) (\<lambda>_.
             bindE (write_size index (scast (op_size op))) (\<lambda>_.
               retE (high_water (total_size + (op_size op - ucast oldsize))))))))
     | FREE \<Rightarrow>
         bindE (read_size index) (\<lambda>sz.
         bindE (read_block index) (\<lambda>p.
         bindE (on_heap (free_op A p)) (\<lambda>_.
           retE (total_size - ucast sz, max_total_size))))))"

primrec util_loop :: "'m allocator \<Rightarrow> nat \<Rightarrow> cint \<Rightarrow> cint \<times> cint \<Rightarrow> ('m driver, cint \<times> cint) cmd" where
  "util_loop A 0 i acc = retE acc"
| "util_loop A (Suc n) i acc = bindE (util_step A i acc) (util_loop A n (i + 1))"

text \<open>
  The result is the pair (ideal_max_heap, max_heap) the routine stores through its pointers,
  and their quotient in \<open>double\<close>, which the argument \<open>ddiv\<close> computes.
\<close>

definition eval_mm_util ::
    "(cint \<Rightarrow> cint \<Rightarrow> 'd) \<Rightarrow> 'm allocator \<Rightarrow> ('m driver, cint \<times> cint \<times> 'd) cmd" where
  "eval_mm_util ddiv A =
     bindE (on_heap mem_reset_brk) (\<lambda>_.
     bindE (on_heap (init_op A)) (\<lambda>r.
       if sint r < 0 then app_error
       else
         bindE (getsE (\<lambda>s. num_ops (trace s))) (\<lambda>n.
         bindE (util_loop A (nat (sint n)) 0 (0, FREE_HEAP)) (\<lambda>(total_size, max_total_size).
         bindE (getsE (\<lambda>s. mem_heapsize (heap s))) (\<lambda>hsize.
         bindE (retE (if scast FREE_HEAP < hsize then ucast hsize else FREE_HEAP)) (\<lambda>max_heap.
           retE (max_total_size, max_heap, ddiv max_total_size max_heap)))))))"

subsection \<open>eval_mm_speed\<close>

definition speed_step :: "'m allocator \<Rightarrow> cint \<Rightarrow> ('m driver, unit) cmd" where
  "speed_step A i =
     bindE (read_op i) (\<lambda>op.
     let index = op_index op in
     case op_type op of
       ALLOC \<Rightarrow>
         bindE (on_heap (malloc_op A (scast (op_size op)))) (\<lambda>p.
           if p = NULL then app_error else write_block index p)
     | REALLOC \<Rightarrow>
         bindE (read_block index) (\<lambda>oldp.
         bindE (on_heap (realloc_op A oldp (scast (op_size op)))) (\<lambda>newp.
           if newp = NULL then app_error else write_block index newp))
     | FREE \<Rightarrow>
         bindE (read_block index) (\<lambda>block. on_heap (free_op A block)))"

primrec speed_loop :: "'m allocator \<Rightarrow> nat \<Rightarrow> cint \<Rightarrow> ('m driver, unit) cmd" where
  "speed_loop A 0 i = retE ()"
| "speed_loop A (Suc n) i = bindE (speed_step A i) (\<lambda>_. speed_loop A n (i + 1))"

definition eval_mm_speed :: "'m allocator \<Rightarrow> ('m driver, unit) cmd" where
  "eval_mm_speed A =
     bindE (on_heap mem_reset_brk) (\<lambda>_.
     bindE (on_heap (init_op A)) (\<lambda>r.
       if sint r < 0 then app_error
       else
         bindE (getsE (\<lambda>s. num_ops (trace s))) (\<lambda>n.
           speed_loop A (nat (sint n)) 0)))"

subsection \<open>eval_libc_valid and eval_libc_speed\<close>

text \<open>libc's allocator is an argument; its own state is part of the heap record here.\<close>

definition libc_step :: "'m allocator \<Rightarrow> bool \<Rightarrow> cint \<Rightarrow> cint \<Rightarrow> ('m driver, unit) cmd" where
  "libc_step L checked tracenum i =
     bindE (read_op i) (\<lambda>op.
     let index = op_index op in
     case op_type op of
       ALLOC \<Rightarrow>
         bindE (on_heap (malloc_op L (scast (op_size op)))) (\<lambda>p.
           if p = NULL then
             bindE (whenE checked (malloc_error tracenum i LibcMallocFailed)) (\<lambda>_. unix_error)
           else write_block index p)
     | REALLOC \<Rightarrow>
         bindE (read_block index) (\<lambda>oldp.
         bindE (on_heap (realloc_op L oldp (scast (op_size op)))) (\<lambda>newp.
           if newp = NULL then
             bindE (whenE checked (malloc_error tracenum i LibcReallocFailed)) (\<lambda>_. unix_error)
           else write_block index newp))
     | FREE \<Rightarrow>
         bindE (read_block index) (\<lambda>block. on_heap (free_op L block)))"

primrec libc_loop :: "'m allocator \<Rightarrow> bool \<Rightarrow> cint \<Rightarrow> nat \<Rightarrow> cint \<Rightarrow> ('m driver, unit) cmd" where
  "libc_loop L checked tracenum 0 i = retE ()"
| "libc_loop L checked tracenum (Suc n) i =
     bindE (libc_step L checked tracenum i) (\<lambda>_. libc_loop L checked tracenum n (i + 1))"

definition eval_libc_valid :: "'m allocator \<Rightarrow> cint \<Rightarrow> ('m driver, cint) cmd" where
  "eval_libc_valid L tracenum =
     bindE (getsE (\<lambda>s. num_ops (trace s))) (\<lambda>n.
     bindE (libc_loop L True tracenum (nat (sint n)) 0) (\<lambda>_. retE 1))"

definition eval_libc_speed :: "'m allocator \<Rightarrow> ('m driver, unit) cmd" where
  "eval_libc_speed L =
     bindE (getsE (\<lambda>s. num_ops (trace s))) (\<lambda>n.
       libc_loop L False 0 (nat (sint n)) 0)"

end
