(* ===== verification/DriverSound.thy ===== *)
theory DriverSound
  imports Driver MmOperations
begin

section \<open>What the driver establishes (mdriver.c)\<close>

text \<open>
  The contract between the driver and an allocator is the locale \<open>allocator\<close>: the allocator
  never moves the arena or lowers the break. Under it the range list stays sound through every
  step, and an evaluation reports exactly one error if it fails and none if it succeeds. The
  check of reallocated data is characterised exactly, and the numerator of the utilization is
  shown to be a function of the trace.
\<close>

subsection \<open>Commands that report nothing, and commands that report their failure\<close>

named_theorems good_intros "driver commands that keep the range list sound and report nothing"
named_theorems accounts_intros "driver commands that report exactly their failures"

definition good :: "'m driver \<Rightarrow> 'm driver \<Rightarrow> bool" where
  "good s t \<longleftrightarrow> (ranges_ok s \<longrightarrow> ranges_ok t) \<and> errors t = errors s \<and> reports t = reports s"

definition accounts :: "('m driver, bool) cmd \<Rightarrow> bool" where
  "accounts m \<longleftrightarrow> (\<forall>s r t. m s = Inr (r, t) \<longrightarrow> (ranges_ok s \<longrightarrow> ranges_ok t) \<and>
     (if r then errors t = errors s \<and> reports t = reports s
      else errors t = errors s + 1 \<and> (\<exists>x. reports t = reports s @ [x])))"

lemma good_refl: "reflp good" "transp good"
  by (auto simp: good_def reflp_def transp_def)

lemma ranges_ok_heap: "same_arena (heap s) h \<Longrightarrow> ranges_ok s \<Longrightarrow> ranges_ok (s\<lparr>heap := h\<rparr>)"
  by (fastforce simp: ranges_ok_def range_ok_def same_arena_def)

lemma good_on_heap [good_intros]: "keeps same_arena c \<Longrightarrow> keeps good (on_heap c)"
  by (auto simp: keeps_def on_heap_def good_def intro!: ranges_ok_heap split: sum.splits)

lemma ranges_ok_trace [simp]: "ranges_ok (s\<lparr>trace := tr\<rparr>) = ranges_ok s"
  by (simp add: ranges_ok_def)

lemma good_arrays [good_intros]:
  "keeps good (read_op i)" "keeps good (read_block i)" "keeps good (write_block i p)"
  "keeps good (read_size i)" "keeps good (write_size i n)"
  by (auto simp: keeps_def array_defs good_def split: if_splits)

lemma good_remove_range [good_intros]: "keeps good (remove_range lo)"
  by (auto simp: keeps_def remove_range_def good_def remove_range_ok)

lemma memset_same_arena [arena_intros]: "keeps same_arena (memset p c n)"
  by (induction n arbitrary: p) (auto intro!: arena_intros)

lemma data_preserved_same_arena [arena_intros]: "keeps same_arena (data_preserved p i n)"
  by (induction n arbitrary: p) (auto intro!: arena_intros)

lemma good_fill [good_intros]: "keeps good (fill p index sz)"
  by (auto simp: fill_def intro!: good_intros arena_intros)

lemma accounts_bindE [accounts_intros]:
  assumes "keeps good m" "\<And>x. accounts (f x)"
  shows "accounts (bindE m f)"
  unfolding accounts_def
proof (intro allI impI)
  fix s r t
  assume "bindE m f s = Inr (r, t)"
  then obtain x u where u: "m s = Inr (x, u)" "f x u = Inr (r, t)" by (rule bindE_InrE)
  have "good s u" using keepsD [OF assms(1) u(1)] .
  with assms(2) [of x] u(2) show "(ranges_ok s \<longrightarrow> ranges_ok t) \<and>
     (if r then errors t = errors s \<and> reports t = reports s
      else errors t = errors s + 1 \<and> (\<exists>x. reports t = reports s @ [x]))"
    unfolding accounts_def good_def by metis
qed

lemma accounts_basic [accounts_intros]:
  "accounts (retE True)" "accounts (bindE (malloc_error tn i w) (\<lambda>_. retE False))"
  by (auto simp: accounts_def ranges_ok_def)

lemma accounts_add_range [accounts_intros]:
  assumes "accounts k"
  shows "accounts (bindE (add_range lo sz tn i) (\<lambda>ok. if ok = 0 then retE False else k))"
  unfolding accounts_def
proof (intro allI impI)
  fix s r t
  assume run: "bindE (add_range lo sz tn i) (\<lambda>ok. if ok = 0 then retE False else k) s = Inr (r, t)"
  show "(ranges_ok s \<longrightarrow> ranges_ok t) \<and>
     (if r then errors t = errors s \<and> reports t = reports s
      else errors t = errors s + 1 \<and> (\<exists>x. reports t = reports s @ [x]))"
  proof (cases rule: add_range_cases [where lo = lo and sz = sz and tn = tn and op = i and s = s])
    case assert
    with run show ?thesis by (simp add: bindE_def)
  next
    case (rejected r)
    with run show ?thesis by (auto simp: bindE_def ranges_ok_def)
  next
    case accepted
    let ?u = "s\<lparr>ranges := \<lparr>range_lo = lo, range_hi = lo + sint sz - 1\<rparr> # ranges s\<rparr>"
    have "k ?u = Inr (r, t)" using run accepted(6) by (simp add: bindE_def)
    moreover have "ranges_ok s \<longrightarrow> ranges_ok ?u" using add_range_ok accepted(6) by blast
    ultimately show ?thesis using assms unfolding accounts_def by fastforce
  qed
qed

subsection \<open>The allocator interface\<close>

locale allocator =
  fixes A :: "'m allocator"
  assumes init_arena: "keeps same_arena (init_op A)"
    and malloc_arena: "keeps same_arena (malloc_op A n)"
    and free_arena: "keeps same_arena (free_op A p)"
    and realloc_arena: "keeps same_arena (realloc_op A p n)"
begin

lemma valid_step_accounts: "accounts (valid_step A tn i)"
  unfolding valid_step_def Let_def
  by (intro accounts_intros good_intros) 
   (auto split: request_type.split intro!: accounts_intros good_intros malloc_arena free_arena realloc_arena arena_intros)

lemma valid_loop_result:
  "valid_loop A tn n i s = Inr (r, t) \<Longrightarrow> (ranges_ok s \<longrightarrow> ranges_ok t) \<and>
     (r = 1 \<and> errors t = errors s \<and> reports t = reports s
      \<or> r = 0 \<and> errors t = errors s + 1 \<and> (\<exists>x. reports t = reports s @ [x]))"
proof (induction n arbitrary: i s)
  case (Suc n)
  from Suc.prems obtain go u where u: "valid_step A tn i s = Inr (go, u)"
    "(if go then valid_loop A tn n (i + 1) else retE 0) u = Inr (r, t)"
    by (auto elim!: bindE_InrE)
  have "(ranges_ok s \<longrightarrow> ranges_ok u) \<and>
     (if go then errors u = errors s \<and> reports u = reports s
      else errors u = errors s + 1 \<and> (\<exists>x. reports u = reports s @ [x]))"
    using valid_step_accounts u(1) unfolding accounts_def by blast
  with u(2) Suc.IH [of "i + 1" u] show ?case by (cases go) auto
qed simp

lemma eval_mm_valid_result:
  assumes "eval_mm_valid A tn s = Inr (r, t)"
  shows "ranges_ok t \<and> (r = 1 \<and> errors t = errors s \<and> reports t = reports s
      \<or> r = 0 \<and> errors t = errors s + 1 \<and> (\<exists>x. reports t = reports s @ [x]))"
proof -
  let ?s = "s\<lparr>heap := (heap s)\<lparr>mem_brk := mem_start_brk (heap s)\<rparr>, ranges := []\<rparr>"
  have reset: "eval_mm_valid A tn s = bindE (on_heap (init_op A)) (\<lambda>r.
       if sint r < 0 then bindE (malloc_error tn 0 MmInitFailed) (\<lambda>_. retE 0)
       else bindE (getsE (\<lambda>s. num_ops (trace s))) (\<lambda>n. valid_loop A tn (nat (sint n)) 0)) ?s"
    by (simp add: eval_mm_valid_def mem_reset_brk_def clear_ranges_def on_heap_def bindE_def)
  from assms obtain c u where u: "on_heap (init_op A) ?s = Inr (c, u)"
    "(if sint c < 0 then bindE (malloc_error tn 0 MmInitFailed) (\<lambda>_. retE 0)
       else bindE (getsE (\<lambda>s. num_ops (trace s))) (\<lambda>n. valid_loop A tn (nat (sint n)) 0)) u = Inr (r, t)"
    unfolding reset by (rule bindE_InrE)
  have g: "ranges_ok u" "errors u = errors s" "reports u = reports s"
    using u(1) by (auto simp: on_heap_def ranges_ok_def split: sum.splits)
  show ?thesis
  proof (cases "sint c < 0")
    case True
    with u(2) g show ?thesis by (auto simp: ranges_ok_def)
  next
    case False
    with u(2) g valid_loop_result [of tn "nat (sint (num_ops (trace u)))" 0 u r t] show ?thesis by simp
  qed
qed

end

definition cs33_allocator :: "(uint32 \<Rightarrow> ('a mm_scheme, cint) cmd) \<Rightarrow> 'a mm_ext allocator" where
  "cs33_allocator d = \<lparr>init_op = mm_init d, malloc_op = mm_malloc, free_op = mm_free, realloc_op = mm_realloc\<rparr>"

interpretation cs33: allocator "cs33_allocator (\<lambda>_. retE 0)"
  by unfold_locales
    (auto simp: cs33_allocator_def mm_init_def mm_realloc_def intro!: arena_intros)

text \<open>A minimal allocator, never reusing memory, to run the driver on.\<close>

definition bump_allocator :: "'m allocator" where
  "bump_allocator = \<lparr>init_op = retE 0,
     malloc_op = (\<lambda>n. bindE (mem_sbrk (ucast n)) (\<lambda>p. retE (if p = SBRK_FAILED then NULL else p))),
     free_op = (\<lambda>p. retE ()),
     realloc_op = (\<lambda>p n. bindE (mem_sbrk (ucast n)) (\<lambda>p. retE (if p = SBRK_FAILED then NULL else p)))\<rparr>"

interpretation bump: allocator bump_allocator
  by unfold_locales (auto simp: bump_allocator_def intro!: arena_intros)

subsection \<open>Filling a block and checking it\<close>

lemma memset_run:
  assumes "accessible s p (int n)"
  shows "memset p c n s = Inr ((), s\<lparr>mem := (\<lambda>a. if p \<le> a \<and> a < p + int n then c else mem s a)\<rparr>)"
  using assms
proof (induction n arbitrary: p s)
  case 0
  have "(\<lambda>a. if p \<le> a \<and> a < p + int 0 then c else mem s a) = mem s" by (rule ext) auto
  then show ?case by simp
next
  case (Suc n)
  let ?s = "s\<lparr>mem := (mem s)(p := c)\<rparr>"
  have a: "accessible s p 1" "accessible ?s (p + 1) (int n)"
    using Suc.prems by (auto simp: accessible_def)
  have "(\<lambda>a. if p + 1 \<le> a \<and> a < p + 1 + int n then c else mem ?s a)
      = (\<lambda>a. if p \<le> a \<and> a < p + int (Suc n) then c else mem s a)" by auto
  with Suc.IH [OF a(2)] a(1) show ?case by (simp add: bindE_def store8_def)
qed

lemma byte_as_char: "(scast (c :: byte) :: cint) = i AND 0xFF \<longleftrightarrow> c = ucast i \<and> i AND 0xFF < 128"
proof -
  define w where "w = (ucast i :: byte)"
  have iw: "i AND 0xFF = ucast w"
    unfolding w_def and_low_mask by (rule bit_word_eqI) (auto simp: bit_simps)
  have w: "0 \<le> uint w" "uint w < 256" using uint_lt2p [of w] by auto
  have c: "- 128 \<le> sint c" "sint c < 128" using sint_ge [of c] sint_less [of c] by auto
  have 1: "sint (scast c :: cint) = sint c" using c
    by (simp add: signed_scast_eq signed_take_bit_int_eq_self)
  have "signed_take_bit 31 (uint w) = uint w"
    by (rule signed_take_bit_int_eq_self) (rule order_trans [OF _ w(1)], simp, use w(2) in simp)
  then have 2: "sint (ucast w :: cint) = uint w" by (simp add: signed_ucast_eq)
  have "(scast c :: cint) = ucast w \<longleftrightarrow> sint c = uint w"
    by (simp only: word_eq_iff_signed [where ?'a = int] 1 2)
  moreover have "sint c = uint w \<longleftrightarrow> c = w \<and> uint w < 128"
  proof -
    have u: "0 \<le> uint c" "uint c < 256" using uint_lt2p [of c] by auto
    have "sint c = uint c \<or> sint c = uint c - 256"
      using u by (cases "bit (uint c) 7") (simp_all add: sint_uint signed_take_bit_eq_take_bit_minus take_bit_int_eq_self)
    then have "sint c = uint w \<longleftrightarrow> uint c = uint w \<and> uint w < 128" using c u w by linarith
    then show ?thesis by (simp only: word_uint_eq_iff)
  qed
  moreover have "(ucast w :: cint) < 128 \<longleftrightarrow> uint w < 128"
    using w(2) by (simp add: word_less_def unsigned_ucast_eq take_bit_int_eq_self)
  ultimately show ?thesis unfolding iw w_def by simp
qed

lemma data_preserved_exact:
  assumes "accessible h p (int n)"
  shows "data_preserved p index n h =
    Inr (n = 0 \<or> index AND 0xFF < 128 \<and> (\<forall>j<n. mem h (p + int j) = ucast index), h)"
  using assms
proof (induction n arbitrary: p)
  case (Suc n)
  have a: "accessible h p 1" "accessible h (p + 1) (int n)"
    using Suc.prems by (auto simp: accessible_def)
  have "(\<forall>j<Suc n. mem h (p + int j) = ucast index)
      \<longleftrightarrow> mem h p = ucast index \<and> (\<forall>j<n. mem h (p + 1 + int j) = ucast index)"
    by (auto simp: All_less_Suc2 add.assoc)
  with Suc.IH [OF a(2)] a(1) show ?case
    by (auto simp: bindE_def load8_def byte_as_char)
qed simp

lemma fill_then_check:
  assumes "accessible h p (int n)" "m \<le> n"
  shows "bindE (memset p (ucast (index AND 0xFF)) n) (\<lambda>_. data_preserved p index m) h
    = Inr (m = 0 \<or> index AND 0xFF < 128,
        h\<lparr>mem := (\<lambda>a. if p \<le> a \<and> a < p + int n then ucast index else mem h a)\<rparr>)"
proof -
  have u: "(ucast (index AND 0xFF) :: byte) = ucast index"
    unfolding and_low_mask by (rule bit_word_eqI) (auto simp: bit_simps)
  let ?h = "h\<lparr>mem := (\<lambda>a. if p \<le> a \<and> a < p + int n then ucast index else mem h a)\<rparr>"
  have "accessible ?h p (int m)" using assms by (auto simp: accessible_def)
  then show ?thesis
    using assms by (simp add: u bindE_def memset_run data_preserved_exact)
qed

subsection \<open>The high-water mark of live bytes depends on the trace alone\<close>

text \<open>
  Two evaluations of the same requests, with any allocators: \<open>sim\<close> relates their results and
  keeps the requests and the recorded sizes equal.
\<close>

definition same_requests :: "'m driver \<Rightarrow> 'n driver \<Rightarrow> bool" where
  "same_requests s t \<longleftrightarrow> trace_ops (trace s) = trace_ops (trace t)
     \<and> num_ops (trace s) = num_ops (trace t) \<and> block_sizes (trace s) = block_sizes (trace t)"

definition sim :: "('a \<Rightarrow> 'b \<Rightarrow> bool) \<Rightarrow> ('m driver, 'a) cmd \<Rightarrow> ('n driver, 'b) cmd \<Rightarrow> bool" where
  "sim Q m m' \<longleftrightarrow> (\<forall>s t a s' b t'. same_requests s t \<longrightarrow> m s = Inr (a, s') \<longrightarrow> m' t = Inr (b, t')
     \<longrightarrow> Q a b \<and> same_requests s' t')"

named_theorems sim_intros "related commands on the same requests"

lemma sim_bindE:
  assumes "sim P m m'" "\<And>a b. P a b \<Longrightarrow> sim Q (f a) (f' b)"
  shows "sim Q (bindE m f) (bindE m' f')"
  unfolding sim_def
proof (intro allI impI)
  fix s t a s' b t'
  assume st: "same_requests s t" and runs: "bindE m f s = Inr (a, s')" "bindE m' f' t = Inr (b, t')"
  obtain x u y v where "m s = Inr (x, u)" "f x u = Inr (a, s')" "m' t = Inr (y, v)" "f' y v = Inr (b, t')"
    using runs by (auto elim!: bindE_InrE)
  with st assms show "Q a b \<and> same_requests s' t'" unfolding sim_def by blast
qed

lemma sim_heap [sim_intros]: "sim (\<lambda>_ _. True) (on_heap c) (on_heap c')"
  by (auto simp: sim_def on_heap_def same_requests_def split: sum.splits)

lemma sim_arrays [sim_intros]:
  "sim (=) (read_op i) (read_op i)" "sim (=) (read_size i) (read_size i)" "sim (=) (write_size i n) (write_size i n)"
  "sim (\<lambda>_ _. True) (read_block i) (read_block i)" "sim (=) (write_block i p) (write_block i q)"
  by (auto simp: sim_def array_defs same_requests_def split: if_splits)

lemma sim_ret [sim_intros]: "Q a b \<Longrightarrow> sim Q (retE a) (retE b)" "sim Q app_error m'" "sim Q m app_error"
  by (auto simp: sim_def app_error_def)

lemma sim_if [sim_intros]: "(\<not> P \<Longrightarrow> \<not> P' \<Longrightarrow> sim Q m m') \<Longrightarrow> sim Q (if P then app_error else m) (if P' then app_error else m')"
  by (auto simp: sim_def app_error_def)

lemma util_step_sim: "sim (=) (util_step A i acc) (util_step B i acc)"
  unfolding util_step_def case_prod_beta
  by (rule sim_bindE [where P = "(=)"])
    (auto simp: Let_def split: request_type.split intro!: sim_intros sim_bindE [OF sim_heap] sim_bindE [OF sim_arrays(2)] sim_bindE [OF sim_arrays(3)] sim_bindE [OF sim_arrays(4)] sim_bindE [OF sim_arrays(5)])

lemma util_loop_sim: "sim (=) (util_loop A n i acc) (util_loop B n i acc)"
  by (induction n arbitrary: i acc) (auto intro!: sim_intros sim_bindE [OF util_step_sim])

lemma sim_gets:
  "sim (=) (getsE (\<lambda>s. num_ops (trace s))) (getsE (\<lambda>s. num_ops (trace s)))"
  "sim (\<lambda>_ _. True) (getsE g) (getsE g')"
  "sim (\<lambda>_ _. True) (retE x) (retE y)"
  by (auto simp: sim_def same_requests_def)

lemma eval_mm_util_sim: "sim (\<lambda>(a, _, _) (b, _, _). a = b) (eval_mm_util ddiv A) (eval_mm_util ddiv' B)"
  unfolding eval_mm_util_def
  by (intro sim_bindE [OF sim_heap] sim_if sim_bindE [OF sim_gets(1)])
    (auto intro!: sim_bindE [OF util_loop_sim] sim_bindE [OF sim_gets(2)] sim_bindE [OF sim_gets(3)] sim_intros)

subsection \<open>A run of the driver\<close>

lemma array_run:
  "array_index i (trace_ops (trace s)) \<Longrightarrow> read_op i s = Inr (trace_ops (trace s) ! nat (sint i), s)"
  "array_index i (blocks (trace s)) \<Longrightarrow> read_block i s = Inr (blocks (trace s) ! nat (sint i), s)"
  "array_index i (blocks (trace s)) \<Longrightarrow> write_block i p s
     = Inr ((), s\<lparr>trace := (trace s)\<lparr>blocks := (blocks (trace s))[nat (sint i) := p]\<rparr>\<rparr>)"
  "array_index i (block_sizes (trace s)) \<Longrightarrow> read_size i s = Inr (block_sizes (trace s) ! nat (sint i), s)"
  "array_index i (block_sizes (trace s)) \<Longrightarrow> write_size i n s
     = Inr ((), s\<lparr>trace := (trace s)\<lparr>block_sizes := (block_sizes (trace s))[nat (sint i) := n]\<rparr>\<rparr>)"
  by (simp_all add: array_defs)

lemma on_heap_run: "c (heap s) = Inr (x, h) \<Longrightarrow> on_heap c s = Inr (x, s\<lparr>heap := h\<rparr>)"
  by (simp add: on_heap_def)

lemma bump_run: "mem_brk h + sint (ucast n :: cint) \<le> mem_max_addr h \<Longrightarrow> 0 \<le> sint (ucast n :: cint) \<Longrightarrow> 0 < mem_brk h \<Longrightarrow> mem_brk h < 2 ^ 32 \<Longrightarrow>
    malloc_op bump_allocator n h = Inr (mem_brk h, h\<lparr>mem_brk := mem_brk h + sint (ucast n :: cint)\<rparr>)"
  by (simp add: bump_allocator_def mem_sbrk_def bindE_step SBRK_FAILED_def)

lemma bump_free: "free_op bump_allocator p h = Inr ((), h)" "init_op bump_allocator h = Inr (0, h)" by (simp_all add: bump_allocator_def)


definition sample_driver :: "unit driver" where
  "sample_driver =
    \<lparr>heap = \<lparr>mem_start_brk = 4096, mem_brk = 4096, mem_max_addr = 8192, errno = 0, mem = \<lambda>_. 0\<rparr>,
     ranges = [],
     trace = \<lparr>sugg_heapsize = 0, num_ids = 1, num_ops = 1, weight = 1,
       trace_ops = [\<lparr>op_type = ALLOC, op_index = 0, op_size = 16\<rparr>], blocks = [0], block_sizes = [0]\<rparr>,
     errors = 0, reports = []\<rparr>"

lemma sample_valid_step: "\<exists>t. valid_step bump_allocator 0 0 sample_driver = Inr (True, t)"
  unfolding sample_driver_def
  apply (simp add: valid_step_def bindE_step array_run array_index_def Let_def)
  apply (simp add: bindE_step on_heap_run bump_run NULL_def)
  apply (simp add: add_range_def IS_ALIGNED_def ALIGNMENT_def mem_heap_lo_def mem_heap_hi_def)
  apply (simp add: fill_def bindE_step on_heap_run memset_run accessible_def)
  apply (simp add: bindE_step array_run array_index_def)
  done

lemma sample_valid: "\<exists>t. eval_mm_valid bump_allocator 0 sample_driver = Inr (1, t)"
proof -
  obtain t where t: "valid_step bump_allocator 0 0 sample_driver = Inr (True, t)"
    using sample_valid_step by blast
  have "eval_mm_valid bump_allocator 0 sample_driver = valid_loop bump_allocator 0 1 0 sample_driver"
    unfolding sample_driver_def
    by (simp add: eval_mm_valid_def mem_reset_brk_def clear_ranges_def bindE_step on_heap_run bump_free)
  with t show ?thesis by (simp add: bindE_step)
qed

lemma sample_util_step:
  "\<exists>t. util_step bump_allocator 0 (0, FREE_HEAP) sample_driver = Inr ((16, FREE_HEAP), t) \<and> mem_heapsize (heap t) = 16"
  unfolding sample_driver_def
  apply (simp add: util_step_def bindE_step array_run array_index_def Let_def)
  apply (simp add: bindE_step on_heap_run bump_run NULL_def)
  apply (simp add: bindE_step array_run array_index_def FREE_HEAP_def mem_heapsize_def)
  done

lemma sample_util: "\<exists>t. eval_mm_util ddiv bump_allocator sample_driver = Inr ((65536, 65536, ddiv 65536 65536), t)"
proof -
  obtain t where t: "util_step bump_allocator 0 (0, FREE_HEAP) sample_driver = Inr ((16, FREE_HEAP), t)" "mem_heapsize (heap t) = 16"
    using sample_util_step by blast
  have r: "on_heap mem_reset_brk sample_driver = Inr ((), sample_driver)" "on_heap (init_op bump_allocator) sample_driver = Inr (0, sample_driver)"
     "num_ops (trace sample_driver) = 1"
    by (simp_all add: sample_driver_def mem_reset_brk_def on_heap_run bump_free)
  show ?thesis by (simp add: eval_mm_util_def bindE_step r t FREE_HEAP_def [symmetric]) (simp add: FREE_HEAP_def)
qed

subsection \<open>Properties\<close>

text \<open>
  C6: Soundness of the correctness check. For an allocator that does not move the arena, and
  from any state of the driver, an evaluation that returns leaves a range list in which every
  payload is aligned and inside the heap and no later payload has an end point inside an
  earlier one; it returns 1 without any report, or 0 with exactly one report and one error.
\<close>

theorem eval_mm_valid_sound:
  assumes "allocator A" and "eval_mm_valid A tn s = Inr (r, t)"
  shows "ranges_ok t \<and> (r = 1 \<and> errors t = errors s \<and> reports t = reports s
      \<or> r = 0 \<and> errors t = errors s + 1 \<and> (\<exists>x. reports t = reports s @ [x]))"
  by (rule allocator.eval_mm_valid_result [OF assms])

theorem eval_mm_valid_sound_witness:
  "\<exists>t. eval_mm_valid bump_allocator 0 sample_driver = Inr (1, t) \<and> ranges_ok t
     \<and> errors t = errors sample_driver"
proof -
  obtain t where t: "eval_mm_valid bump_allocator 0 sample_driver = Inr (1, t)"
    using sample_valid by blast
  then show ?thesis using eval_mm_valid_sound [OF bump.allocator_axioms t] by auto
qed

text \<open>
  C12: The check of a reallocated block. A block of \<open>n\<close> bytes filled by the driver for the id
  \<open>index\<close> and kept intact is accepted by the comparison loop (over any \<open>m \<le> n\<close> bytes) exactly
  if \<open>m = 0\<close> or the low byte of \<open>index\<close> is below 128: \<open>char\<close> is signed, so for the other ids
  a correct \<open>realloc\<close> is reported as having lost the data.
\<close>

theorem realloc_data_check:
  assumes "accessible h p (int n)" "m \<le> n"
  shows "bindE (memset p (ucast (index AND 0xFF)) n) (\<lambda>_. data_preserved p index m) h
    = Inr (m = 0 \<or> index AND 0xFF < 128,
        h\<lparr>mem := (\<lambda>a. if p \<le> a \<and> a < p + int n then ucast index else mem h a)\<rparr>)"
  by (rule fill_then_check [OF assms])

theorem realloc_data_check_witness:
  "\<exists>h'. bindE (memset 4096 (ucast ((200 :: cint) AND 0xFF)) 16) (\<lambda>_. data_preserved 4096 200 8)
     (heap sample_driver) = Inr (False, h')"
  using realloc_data_check [of "heap sample_driver" 4096 16 8 200]
  by (simp add: sample_driver_def accessible_def)

text \<open>
  The numerator of the utilization, the high-water mark of live payload bytes, depends on
  the requests and the recorded sizes alone: two evaluations of the same trace that complete
  agree on it, whatever the allocators do.
\<close>

theorem ideal_heap_of_trace:
  assumes "same_requests s t" 
    and "eval_mm_util ddiv A s = Inr ((ideal, m, q), s')" "eval_mm_util ddiv' B t = Inr ((ideal', m', q'), t')"
  shows "ideal = ideal'"
  using eval_mm_util_sim assms unfolding sim_def by fastforce

theorem ideal_heap_of_trace_witness:
  "\<exists>m q t. eval_mm_util (\<lambda>a b. (a, b)) bump_allocator sample_driver = Inr ((65536, m, q), t)"
proof -
  obtain s where s: "eval_mm_util (\<lambda>a b. a) bump_allocator sample_driver = Inr ((65536, 65536, 65536), s)"
    using sample_util [of "\<lambda>a b. a"] by auto
  obtain i m q t where t: "eval_mm_util (\<lambda>a b. (a, b)) bump_allocator sample_driver = Inr ((i, m, q), t)"
    using sample_util [of "\<lambda>a b. (a, b)"] by blast
  have "65536 = i" by (rule ideal_heap_of_trace [OF _ s t]) (simp add: same_requests_def)
  with t show ?thesis by blast
qed

definition cs33_driver :: "unit mm_ext driver" where
  "cs33_driver = \<lparr>heap = \<lparr>mem_start_brk = 4096, mem_brk = 4096, mem_max_addr = 4096 + MAX_HEAP,
      errno = 0, mem = \<lambda>_. 0, heap_listp = 0, heap_basefree = 0, out = []\<rparr>,
     ranges = [], trace = no_trace, errors = 0, reports = []\<rparr>"

end
