(* ===== verification/Trace.thy ===== *)
theory Trace
  imports Driver Scan
begin

section \<open>Reading a trace file (read_trace of mdriver.c)\<close>

text \<open>
  \<open>read_trace\<close> reads four numbers and then the requests of a trace file. The file system is an
  argument, a function from paths to contents; fresh memory has the content \<open>junk\<close>, which is what
  a failed conversion and the size of a \<open>FREE\<close> request leave in place. Writes are bounded by the
  arrays they go to: \<open>type[MAXLINE]\<close>, \<open>path[500]\<close> and the allocated \<open>ops\<close>.
\<close>

subsection \<open>State of the reader\<close>

record junk =
  junk_header :: trace_t
  junk_op :: traceop_t
  junk_block :: int
  junk_block_size :: uint64
  junk_size :: uint32

record reader =
  rd_index :: uint32
  rd_size :: uint32
  rd_max :: uint32
  rd_count :: uint32
  rd_ops :: "traceop_t list"

definition MAXLINE :: nat where "MAXLINE = 1024"

definition keep :: "'a option \<Rightarrow> 'a \<Rightarrow> 'a" where
  "keep x old = (case x of None \<Rightarrow> old | Some v \<Rightarrow> v)"

lemma keep_simps [simp]: "keep None x = x" "keep (Some v) x = v"
  by (simp_all add: keep_def)

subsection \<open>One request\<close>

definition store_request :: "(traceop_t \<Rightarrow> traceop_t) \<Rightarrow> reader \<Rightarrow> err + reader" where
  "store_request upd rd =
     (let i = unat (rd_count rd) in
      if i < length (rd_ops rd)
      then Inr (rd\<lparr>rd_count := rd_count rd + 1, rd_ops := (rd_ops rd)[i := upd (rd_ops rd ! i)]\<rparr>)
      else Inl OutOfBounds)"

text \<open>\<open>%u %u\<close>: the second conversion is tried only if the first succeeded.\<close>

definition scan_pair :: "reader \<Rightarrow> string \<Rightarrow> reader \<times> string" where
  "scan_pair rd s =
     (case scan_u s of
        (None, r) \<Rightarrow> (rd, r)
      | (Some i, r) \<Rightarrow>
          (case scan_u r of (sz, r') \<Rightarrow> (rd\<lparr>rd_index := i, rd_size := keep sz (rd_size rd)\<rparr>, r')))"

text \<open>\<open>%ud\<close>: an unsigned number and then the character \<open>d\<close>, if it is there.\<close>

definition scan_ud :: "reader \<Rightarrow> string \<Rightarrow> reader \<times> string" where
  "scan_ud rd s =
     (case scan_u s of
        (None, r) \<Rightarrow> (rd, r)
      | (Some i, r) \<Rightarrow>
          (rd\<lparr>rd_index := i\<rparr>,
           case r of [] \<Rightarrow> [] | c # r' \<Rightarrow> if c = CHR ''d'' then r' else r))"

definition set_sized :: "request_type \<Rightarrow> reader \<Rightarrow> err + reader" where
  "set_sized ty rd =
     (let rd' = rd\<lparr>rd_max := (if rd_max rd < rd_index rd then rd_index rd else rd_max rd)\<rparr>
      in store_request (\<lambda>p. p\<lparr>op_type := ty, op_index := rd_index rd, op_size := rd_size rd\<rparr>) rd')"

definition read_request :: "string \<Rightarrow> reader \<Rightarrow> string \<Rightarrow> err + reader \<times> string" where
  "read_request type rd s =
     (let c = hd type in
      if c = CHR ''a'' then
        (case scan_pair rd s of (rd', r) \<Rightarrow> map_sum id (\<lambda>x. (x, r)) (set_sized ALLOC rd'))
      else if c = CHR ''r'' then
        (case scan_pair rd s of (rd', r) \<Rightarrow> map_sum id (\<lambda>x. (x, r)) (set_sized REALLOC rd'))
      else if c = CHR ''f'' then
        (case scan_ud rd s of (rd', r) \<Rightarrow> map_sum id (\<lambda>x. (x, r))
           (store_request (\<lambda>p. p\<lparr>op_type := FREE, op_index := rd_index rd'\<rparr>) rd'))
      else Inl (Exit 1))"

lemma scan_pair_length: "length (snd (scan_pair rd s)) \<le> length s"
proof (cases "scan_u s")
  case (Pair i r)
  then show ?thesis using scan_length(2) [of s] scan_length(2) [of r]
    by (auto simp: scan_pair_def split: option.splits prod.splits)
qed

lemma scan_ud_length: "length (snd (scan_ud rd s)) \<le> length s"
  using scan_length(2) [of s] by (auto simp: scan_ud_def split: option.splits prod.splits list.splits)

lemma read_request_length: "read_request type rd s = Inr (rd', r) \<Longrightarrow> length r \<le> length s"
  using scan_pair_length [of rd s] scan_ud_length [of rd s]
  by (auto simp: read_request_def Let_def map_sum_def split: if_splits prod.splits sum.splits)

subsection \<open>The loop and the whole file\<close>

function read_requests :: "reader \<Rightarrow> string \<Rightarrow> err + reader" where
  "read_requests rd s =
     (case scan_s s of
        None \<Rightarrow> Inr rd
      | Some (type, r) \<Rightarrow>
          if MAXLINE \<le> length type then Inl OutOfBounds
          else (case read_request type rd r of Inl e \<Rightarrow> Inl e | Inr (rd', r') \<Rightarrow> read_requests rd' r'))"
  by pat_completeness auto

termination read_requests
proof (relation "measure (\<lambda>(rd, s). length s)")
  fix rd :: reader and s p type r rd' r' q
  assume a: "scan_s s = Some p" "(type, r) = p" "read_request type rd r = Inr q" "(rd', r') = q"
  have "scan_s s = Some (type, r)" using a(1,2) by simp
  then have "length r < length s" using scan_s_length by blast
  moreover have "length r' \<le> length r" using a(3,4) read_request_length by force
  ultimately show "((rd', r'), (rd, s)) \<in> measure (\<lambda>(rd, s). length s)" by simp
qed simp

declare read_requests.simps [simp del]

definition read_header :: "trace_t \<Rightarrow> string \<Rightarrow> trace_t \<times> string" where
  "read_header t s =
     (let (a, s1) = scan_d s; (b, s2) = scan_d s1; (c, s3) = scan_d s2; (d, s4) = scan_d s3
      in (t\<lparr>sugg_heapsize := keep a (sugg_heapsize t), num_ids := keep b (num_ids t),
            num_ops := keep c (num_ops t), weight := keep d (weight t)\<rparr>, s4))"

definition read_trace :: "(string \<Rightarrow> string option) \<Rightarrow> junk \<Rightarrow> string \<Rightarrow> string \<Rightarrow> err + trace_t" where
  "read_trace files J tracedir filename =
     (let path = tracedir @ filename in
      if 500 \<le> length path then Inl OutOfBounds
      else case files path of
        None \<Rightarrow> Inl (Exit 1)
      | Some s \<Rightarrow>
          (let (t, r) = read_header (junk_header J) s in
           if sint (num_ops t) < 0 \<or> sint (num_ids t) < 0 then Inl (Exit 1)
           else
             case read_requests \<lparr>rd_index = 0, rd_size = junk_size J, rd_max = 0, rd_count = 0,
                    rd_ops = replicate (nat (sint (num_ops t))) (junk_op J)\<rparr> r of
               Inl e \<Rightarrow> Inl e
             | Inr rd \<Rightarrow>
                 if rd_max rd \<noteq> num_ids t - 1 then Inl AssertFail
                 else if num_ops t \<noteq> rd_count rd then Inl AssertFail
                 else Inr (t\<lparr>trace_ops := rd_ops rd,
                        blocks := replicate (nat (sint (num_ids t))) (junk_block J),
                        block_sizes := replicate (nat (sint (num_ids t))) (junk_block_size J)\<rparr>)))"

subsection \<open>The format\<close>

text \<open>
  The file a trace generator writes: the header numbers and the requests, one on a line.
  \<open>complete J t\<close> says that \<open>t\<close> is a trace such a file can describe: the number of requests
  and the largest index agree with the header, the arrays of blocks are fresh, and a \<open>FREE\<close>
  request has no size of its own.
\<close>

abbreviation newline :: char where "newline \<equiv> CHR 0x0A"

definition render_op :: "traceop_t \<Rightarrow> string" where
  "render_op p =
     (case op_type p of
        ALLOC \<Rightarrow> ''a '' @ show_nat (unat (op_index p)) @ '' '' @ show_nat (unat (op_size p))
      | REALLOC \<Rightarrow> ''r '' @ show_nat (unat (op_index p)) @ '' '' @ show_nat (unat (op_size p))
      | FREE \<Rightarrow> ''f '' @ show_nat (unat (op_index p)))"

definition render_ops :: "traceop_t list \<Rightarrow> string" where
  "render_ops ops = concat (map (\<lambda>p. newline # render_op p) ops) @ [newline]"

definition render_trace :: "trace_t \<Rightarrow> string" where
  "render_trace t =
     show_int (sint (sugg_heapsize t)) @ [newline] @ show_int (sint (num_ids t)) @ [newline] @
     show_int (sint (num_ops t)) @ [newline] @ show_int (sint (weight t)) @ render_ops (trace_ops t)"

definition larger_index :: "uint32 \<Rightarrow> traceop_t \<Rightarrow> uint32" where
  "larger_index m p = (if op_type p = FREE then m else if m < op_index p then op_index p else m)"

definition max_index :: "traceop_t list \<Rightarrow> uint32" where
  "max_index ops = foldl larger_index 0 ops"

definition sizeless :: "junk \<Rightarrow> traceop_t \<Rightarrow> bool" where
  "sizeless J p \<longleftrightarrow> (op_type p = FREE \<longrightarrow> op_size p = op_size (junk_op J))"

definition complete :: "junk \<Rightarrow> trace_t \<Rightarrow> bool" where
  "complete J t \<longleftrightarrow> length (trace_ops t) < 2 ^ 31 \<and> num_ops t = of_nat (length (trace_ops t)) \<and>
     0 \<le> sint (num_ids t) \<and> max_index (trace_ops t) = num_ids t - 1 \<and>
     blocks t = replicate (nat (sint (num_ids t))) (junk_block J) \<and>
     block_sizes t = replicate (nat (sint (num_ids t))) (junk_block_size J) \<and>
     list_all (sizeless J) (trace_ops t)"

subsection \<open>Reading what was written\<close>

definition after_op :: "traceop_t \<Rightarrow> reader \<Rightarrow> reader" where
  "after_op p rd = rd\<lparr>rd_index := op_index p,
     rd_size := (if op_type p = FREE then rd_size rd else op_size p),
     rd_max := larger_index (rd_max rd) p,
     rd_count := rd_count rd + 1,
     rd_ops := (rd_ops rd)[unat (rd_count rd) := p]\<rparr>"

lemma render_op_word:
  "scan_s (newline # render_op p @ newline # s) =
     (let c = (case op_type p of ALLOC \<Rightarrow> CHR ''a'' | REALLOC \<Rightarrow> CHR ''r'' | FREE \<Rightarrow> CHR ''f'')
      in Some ([c], CHR '' '' # show_nat (unat (op_index p)) @
           (if op_type p = FREE then [] else CHR '' '' # show_nat (unat (op_size p))) @ newline # s))"
  using scan_s_word [of "[CHR ''a'']" "CHR '' ''"] scan_s_word [of "[CHR ''r'']" "CHR '' ''"]
    scan_s_word [of "[CHR ''f'']" "CHR '' ''"]
  by (cases "op_type p") (simp_all add: render_op_def scan_s_space)

lemma scan_pair_show:
  "scan_pair rd (CHR '' '' # show_nat (unat i) @ CHR '' '' # show_nat (unat n) @ newline # s) =
     (rd\<lparr>rd_index := i, rd_size := n\<rparr>, newline # s)"
  by (simp add: scan_pair_def scan_space scan_u_show)

lemma scan_ud_show:
  "scan_ud rd (CHR '' '' # show_nat (unat i) @ newline # s) = (rd\<lparr>rd_index := i\<rparr>, newline # s)"
  by (simp add: scan_ud_def scan_space scan_u_show)

lemma overwrite_op:
  fixes p q :: traceop_t
  shows "op_type p = ty \<Longrightarrow> q\<lparr>op_type := ty, op_index := op_index p, op_size := op_size p\<rparr> = p"
    and "op_type p = ty \<Longrightarrow> op_size p = op_size q \<Longrightarrow> q\<lparr>op_type := ty, op_index := op_index p\<rparr> = p"
  by (cases p; cases q; simp)+

lemma read_op_step:
  assumes "sizeless J p" "unat (rd_count rd) < length (rd_ops rd)" "rd_ops rd ! unat (rd_count rd) = junk_op J"
  shows "read_requests rd (newline # render_op p @ newline # s) = read_requests (after_op p rd) (newline # s)"
proof (cases "op_type p")
  case ALLOC
  then show ?thesis using assms
    by (subst read_requests.simps)
      (simp add: render_op_word MAXLINE_def read_request_def scan_pair_show set_sized_def store_request_def
        after_op_def larger_index_def overwrite_op Let_def)
next
  case REALLOC
  then show ?thesis using assms
    by (subst read_requests.simps)
      (simp add: render_op_word MAXLINE_def read_request_def scan_pair_show set_sized_def store_request_def
        after_op_def larger_index_def overwrite_op Let_def)
next
  case FREE
  then show ?thesis using assms
    by (subst read_requests.simps)
      (simp add: render_op_word MAXLINE_def read_request_def scan_ud_show store_request_def sizeless_def
        after_op_def larger_index_def overwrite_op Let_def)
qed

lemma read_op_overflow:
  assumes "length (rd_ops rd) \<le> unat (rd_count rd)"
  shows "read_requests rd (newline # render_op p @ newline # s) = Inl OutOfBounds"
  using assms by (cases "op_type p"; subst read_requests.simps)
    (simp_all add: render_op_word MAXLINE_def read_request_def scan_pair_show scan_ud_show set_sized_def
      store_request_def Let_def)

lemma read_requests_end: "read_requests rd [newline] = Inr rd"
  by (subst read_requests.simps) (simp add: scan_s_space)

lemma render_ops_simps:
  "render_ops [] = [newline]" "render_ops (p # ops) = newline # render_op p @ render_ops ops"
  by (simp_all add: render_ops_def)

lemma render_ops_head: "\<exists>s. render_ops ops = newline # s"
  by (cases ops) (auto simp: render_ops_simps)

lemma unat_small: "n < 2 ^ 31 \<Longrightarrow> unat (of_nat n :: uint32) = n"
  by (simp add: unat_of_nat take_bit_nat_eq_self)

definition room :: "junk \<Rightarrow> nat \<Rightarrow> reader \<Rightarrow> bool" where
  "room J n rd \<longleftrightarrow> length (rd_ops rd) < 2 ^ 31 \<and> n \<le> length (rd_ops rd) \<and> rd_count rd = of_nat n \<and>
     (\<forall>i<length (rd_ops rd). n \<le> i \<longrightarrow> rd_ops rd ! i = junk_op J)"

lemma room_step:
  assumes "room J n rd" "n < length (rd_ops rd)" "sizeless J p"
  shows "read_requests rd (newline # render_op p @ render_ops ops) = read_requests (after_op p rd) (render_ops ops)"
    and "room J (Suc n) (after_op p rd)"
    and "rd_ops (after_op p rd) = (rd_ops rd)[n := p]" "rd_max (after_op p rd) = larger_index (rd_max rd) p"
proof -
  have un: "unat (of_nat n :: uint32) = n" using assms(1,2) unat_small [of n] by (simp add: room_def)
  then have u: "unat (rd_count rd) = n" using assms(1) by (simp add: room_def)
  obtain s where s: "render_ops ops = newline # s" using render_ops_head by blast
  show "read_requests rd (newline # render_op p @ render_ops ops) = read_requests (after_op p rd) (render_ops ops)"
    unfolding s using assms by (intro read_op_step [where J = J]) (simp_all add: un room_def)
  show "room J (Suc n) (after_op p rd)" using assms by (auto simp: room_def after_op_def un)
qed (use assms unat_small [of n] in \<open>simp_all add: after_op_def room_def\<close>)

lemma read_ops:
  assumes "room J n rd" "n + length ops \<le> length (rd_ops rd)" "list_all (sizeless J) ops"
  shows "\<exists>rd'. read_requests rd (render_ops ops) = Inr rd' \<and> rd_max rd' = foldl larger_index (rd_max rd) ops \<and>
    rd_count rd' = of_nat (n + length ops) \<and> rd_ops rd' = take n (rd_ops rd) @ ops @ drop (n + length ops) (rd_ops rd)"
  using assms
proof (induction ops arbitrary: rd n)
  case Nil
  then show ?case by (simp add: render_ops_simps read_requests_end room_def)
next
  case (Cons p ops)
  then have n: "n < length (rd_ops rd)" and p: "sizeless J p" by simp_all
  note st = room_step [OF Cons.prems(1) n p]
  obtain rd' where rd': "read_requests (after_op p rd) (render_ops ops) = Inr rd'"
    "rd_max rd' = foldl larger_index (rd_max (after_op p rd)) ops" "rd_count rd' = of_nat (Suc n + length ops)"
    "rd_ops rd' = take (Suc n) (rd_ops (after_op p rd)) @ ops @ drop (Suc n + length ops) (rd_ops (after_op p rd))"
    using Cons.IH [OF st(2)] Cons.prems(2,3) by (auto simp: st(3))
  have "take (Suc n) ((rd_ops rd)[n := p]) = take n (rd_ops rd) @ [p]" using n by (simp add: take_Suc_conv_app_nth)
  then show ?case using rd' unfolding st(3,4) by (simp add: render_ops_simps st(1))
qed

lemma read_ops_overflow:
  assumes "room J n rd" "length (rd_ops rd) < n + length ops" "list_all (sizeless J) ops"
  shows "read_requests rd (render_ops ops) = Inl OutOfBounds"
  using assms
proof (induction ops arbitrary: rd n)
  case Nil
  then show ?case by (simp add: room_def)
next
  case (Cons p ops)
  show ?case
  proof (cases "n < length (rd_ops rd)")
    case True
    have p: "sizeless J p" using Cons.prems(3) by simp
    note st = room_step [OF Cons.prems(1) True p]
    have "read_requests (after_op p rd) (render_ops ops) = Inl OutOfBounds"
      using Cons.prems(2,3) st(3) by (intro Cons.IH [OF st(2)]) simp_all
    then show ?thesis by (simp add: render_ops_simps st(1))
  next
    case False
    obtain s where s: "render_ops ops = newline # s" using render_ops_head by blast
    show ?thesis unfolding render_ops_simps s
      using False Cons.prems(1) unat_small [of n] by (intro read_op_overflow) (auto simp: room_def)
  qed
qed

definition fresh_reader :: "junk \<Rightarrow> nat \<Rightarrow> reader" where
  "fresh_reader J n = \<lparr>rd_index = 0, rd_size = junk_size J, rd_max = 0, rd_count = 0, rd_ops = replicate n (junk_op J)\<rparr>"

lemma room_fresh: "n < 2 ^ 31 \<Longrightarrow> room J 0 (fresh_reader J n)"
  by (simp add: room_def fresh_reader_def)

lemma read_header_render:
  "read_header h (show_int (sint a) @ [newline] @ show_int (sint b) @ [newline] @ show_int (sint c) @ [newline] @
     show_int (sint d) @ render_ops ops) =
   (h\<lparr>sugg_heapsize := a, num_ids := b, num_ops := c, weight := d\<rparr>, render_ops ops)"
proof -
  obtain s where s: "render_ops ops = newline # s" using render_ops_head by blast
  show ?thesis by (simp add: read_header_def s scan_d_show scan_space)
qed

text \<open>Reading a rendered header and body, whether or not they agree.\<close>

lemma read_trace_rendered:
  assumes "files (dir @ name) = Some (render_trace t)" "length (dir @ name) < 500"
    and "0 \<le> sint (num_ids t)" "0 \<le> sint (num_ops t)"
  shows "read_trace files J dir name =
    (case read_requests (fresh_reader J (nat (sint (num_ops t)))) (render_ops (trace_ops t)) of
       Inl e \<Rightarrow> Inl e
     | Inr rd \<Rightarrow>
         if rd_max rd \<noteq> num_ids t - 1 \<or> num_ops t \<noteq> rd_count rd then Inl AssertFail
         else Inr ((junk_header J)\<lparr>sugg_heapsize := sugg_heapsize t, num_ids := num_ids t, num_ops := num_ops t,
            weight := weight t, trace_ops := rd_ops rd,
            blocks := replicate (nat (sint (num_ids t))) (junk_block J),
            block_sizes := replicate (nat (sint (num_ids t))) (junk_block_size J)\<rparr>))"
proof -
  have h: "read_header (junk_header J) (render_trace t) =
      ((junk_header J)\<lparr>sugg_heapsize := sugg_heapsize t, num_ids := num_ids t, num_ops := num_ops t, weight := weight t\<rparr>,
       render_ops (trace_ops t))"
    unfolding render_trace_def by (rule read_header_render)
  show ?thesis using assms
    by (simp add: read_trace_def Let_def h fresh_reader_def split: sum.split)
qed

lemma nat_num_ops:
  assumes "n < 2 ^ 31"
  shows "nat (sint (of_nat n :: cint)) = n" "0 \<le> sint (of_nat n :: cint)"
  using assms by (simp_all add: signed_of_nat signed_take_bit_int_eq_self)

lemma read_rendered:
  assumes "complete J t" "files (dir @ name) = Some (render_trace t)" "length (dir @ name) < 500"
  shows "read_trace files J dir name = Inr t"
proof -
  note c = assms(1) [unfolded complete_def]
  have n: "nat (sint (num_ops t)) = length (trace_ops t)" "0 \<le> sint (num_ops t)"
    using c nat_num_ops by simp_all
  obtain rd where rd: "read_requests (fresh_reader J (length (trace_ops t))) (render_ops (trace_ops t)) = Inr rd"
    "rd_max rd = foldl larger_index 0 (trace_ops t)" "rd_count rd = of_nat (length (trace_ops t))"
    "rd_ops rd = trace_ops t"
    using read_ops [OF room_fresh, of "length (trace_ops t)" "trace_ops t" J] c by (auto simp: fresh_reader_def)
  have "read_trace files J dir name = Inr ((junk_header J)\<lparr>sugg_heapsize := sugg_heapsize t, num_ids := num_ids t,
      num_ops := num_ops t, weight := weight t, trace_ops := trace_ops t, blocks := blocks t, block_sizes := block_sizes t\<rparr>)"
    using read_trace_rendered [of files dir name t J, OF assms(2,3) _ n(2)] c rd unfolding n(1) max_index_def by simp
  also have "\<dots> = Inr t" by (cases t) simp
  finally show ?thesis .
qed

subsection \<open>Properties\<close>

text \<open>
  C28: Round trip. A trace written in the format of the trace files is read back exactly.
\<close>

theorem read_render_trace:
  assumes "complete J t" "files (dir @ name) = Some (render_trace t)" "length (dir @ name) < 500"
  shows "read_trace files J dir name = Inr t"
  using assms by (rule read_rendered [of J t files dir name])

definition zero_junk :: junk where
  "zero_junk = \<lparr>junk_header = \<lparr>sugg_heapsize = 0, num_ids = 0, num_ops = 0, weight = 0, trace_ops = [], blocks = [], block_sizes = []\<rparr>,
     junk_op = \<lparr>op_type = ALLOC, op_index = 0, op_size = 0\<rparr>, junk_block = 0, junk_block_size = 0, junk_size = 0\<rparr>"

definition small_trace :: trace_t where
  "small_trace = \<lparr>sugg_heapsize = 20000, num_ids = 2, num_ops = 4, weight = 1,
     trace_ops = [\<lparr>op_type = ALLOC, op_index = 0, op_size = 2040\<rparr>, \<lparr>op_type = ALLOC, op_index = 1, op_size = 48\<rparr>,
       \<lparr>op_type = REALLOC, op_index = 0, op_size = 4072\<rparr>, \<lparr>op_type = FREE, op_index = 1, op_size = 0\<rparr>],
     blocks = [0, 0], block_sizes = [0, 0]\<rparr>"

lemma small_trace_complete: "complete zero_junk small_trace"
  by (simp add: complete_def small_trace_def zero_junk_def max_index_def larger_index_def sizeless_def)
    (simp add: eval_nat_numeral)

theorem read_render_trace_witness:
  "read_trace (\<lambda>path. if path = ''./traces/short1.rep'' then Some (render_trace small_trace) else None)
     zero_junk ''./traces/'' ''short1.rep'' = Inr small_trace"
  by (rule read_render_trace [OF small_trace_complete]) simp_all

text \<open>
  C30: A header that disagrees with the body. With fewer requests than the header announces
  \<open>read_trace\<close> stops at its assertion; with more it has written past the end of \<open>ops\<close> before the
  assertion is reached.
\<close>

theorem read_trace_wrong_count:
  assumes "files (dir @ name) = Some (render_trace t)" "length (dir @ name) < 500"
    and "0 \<le> sint (num_ids t)" "0 \<le> sint (num_ops t)" "list_all (sizeless J) (trace_ops t)"
    and "int (length (trace_ops t)) \<noteq> sint (num_ops t)"
  shows "read_trace files J dir name =
    Inl (if sint (num_ops t) < int (length (trace_ops t)) then OutOfBounds else AssertFail)"
proof -
  define n where "n = nat (sint (num_ops t))"
  have n: "n < 2 ^ 31" "int n = sint (num_ops t)" using assms(4) sint_less [of "num_ops t"] by (auto simp: n_def)
  have len: "length (rd_ops (fresh_reader J n)) = n" by (simp add: fresh_reader_def)
  note rt = read_trace_rendered [of files dir name t J, OF assms(1-4), folded n_def]
  show ?thesis
  proof (cases "n < length (trace_ops t)")
    case True
    then have "read_requests (fresh_reader J n) (render_ops (trace_ops t)) = Inl OutOfBounds"
      using read_ops_overflow [OF room_fresh [OF n(1)] _ assms(5)] len by simp
    then show ?thesis using rt True n(2) by simp
  next
    case False
    then have less: "length (trace_ops t) < n" using assms(6) n(2) by linarith
    obtain rd where rd: "read_requests (fresh_reader J n) (render_ops (trace_ops t)) = Inr rd"
      "rd_count rd = of_nat (length (trace_ops t))"
      using read_ops [OF room_fresh [OF n(1)], of "trace_ops t" J] less assms(5) len by auto
    have "sint (of_nat (length (trace_ops t)) :: cint) = int (length (trace_ops t))"
      using less n(1) nat_num_ops(1) [of "length (trace_ops t)"] nat_num_ops(2) [of "length (trace_ops t)"] by linarith
    then have "num_ops t \<noteq> rd_count rd" using rd(2) assms(6) by auto
    then show ?thesis using rt rd(1) less n(2) by simp
  qed
qed

theorem read_trace_wrong_count_witness:
  "read_trace (\<lambda>_. Some (render_trace (small_trace\<lparr>num_ops := 3\<rparr>))) zero_junk ''./'' ''f.rep'' = Inl OutOfBounds"
  using read_trace_wrong_count [of "\<lambda>_. Some (render_trace (small_trace\<lparr>num_ops := 3\<rparr>))" "''./''" "''f.rep''" "small_trace\<lparr>num_ops := 3\<rparr>" zero_junk]
  by (simp add: small_trace_def sizeless_def zero_junk_def)

subsection \<open>What the driver can rely on\<close>

definition bounded :: "reader \<Rightarrow> bool" where
  "bounded rd \<longleftrightarrow> length (rd_ops rd) < 2 ^ 31 \<and> unat (rd_count rd) \<le> length (rd_ops rd) \<and>
     (\<forall>i<unat (rd_count rd). op_type (rd_ops rd ! i) \<noteq> FREE \<longrightarrow> op_index (rd_ops rd ! i) \<le> rd_max rd)"

lemma store_request_bounded:
  assumes "store_request upd rd = Inr rd'" "bounded rd"
    and "\<And>p. op_type (upd p) \<noteq> FREE \<Longrightarrow> op_index (upd p) \<le> rd_max rd"
  shows "bounded rd' \<and> length (rd_ops rd') = length (rd_ops rd)"
proof -
  let ?i = "unat (rd_count rd)"
  have i: "?i < length (rd_ops rd)" and rd': "rd' = rd\<lparr>rd_count := rd_count rd + 1, rd_ops := (rd_ops rd)[?i := upd (rd_ops rd ! ?i)]\<rparr>"
    using assms(1) by (auto simp: store_request_def Let_def split: if_splits)
  have "Suc ?i < 2 ^ 31" using i assms(2) by (simp add: bounded_def)
  then have s: "unat (rd_count rd + 1) = Suc ?i" using unat_small [of "Suc ?i"] by (simp add: add.commute)
  show ?thesis using assms(2,3) i unfolding bounded_def rd' by (auto simp: s less_Suc_eq nth_list_update)
qed

lemma bounded_raise: "bounded rd \<Longrightarrow> rd_max rd \<le> m \<Longrightarrow> bounded (rd\<lparr>rd_max := m\<rparr>)"
  unfolding bounded_def by (auto intro: order_trans)

lemma set_sized_bounded:
  assumes "set_sized ty rd = Inr rd'" "bounded rd"
  shows "bounded rd' \<and> length (rd_ops rd') = length (rd_ops rd)"
proof -
  let ?m = "if rd_max rd < rd_index rd then rd_index rd else rd_max rd"
  have b: "bounded (rd\<lparr>rd_max := ?m\<rparr>)" using assms(2) by (intro bounded_raise) auto
  have "rd_index rd \<le> ?m" by auto
  then show ?thesis using store_request_bounded [OF assms(1) [unfolded set_sized_def Let_def] b] by simp
qed

lemma scan_bounded: "bounded rd \<Longrightarrow> bounded (fst (scan_pair rd s)) \<and> length (rd_ops (fst (scan_pair rd s))) = length (rd_ops rd)"
  "bounded rd \<Longrightarrow> bounded (fst (scan_ud rd s)) \<and> length (rd_ops (fst (scan_ud rd s))) = length (rd_ops rd)"
  by (auto simp: scan_pair_def scan_ud_def bounded_def split: option.splits prod.splits)

lemma read_request_bounded:
  assumes "read_request w rd s = Inr (rd', r)" "bounded rd"
  shows "bounded rd' \<and> length (rd_ops rd') = length (rd_ops rd)"
proof -
  have a: "set_sized ty (fst (scan_pair rd s)) = Inr rd' \<Longrightarrow> ?thesis" for ty
    using set_sized_bounded scan_bounded(1) [OF assms(2)] by metis
  have f: "store_request (\<lambda>p. p\<lparr>op_type := FREE, op_index := i\<rparr>) (fst (scan_ud rd s)) = Inr rd' \<Longrightarrow> ?thesis" for i
    using store_request_bounded [of "\<lambda>p. p\<lparr>op_type := FREE, op_index := i\<rparr>"] scan_bounded(2) [OF assms(2)] by fastforce
  show ?thesis using assms(1) a f
    by (auto simp: read_request_def Let_def map_sum_def split: if_splits prod.splits sum.splits)
qed

lemma read_requests_bounded:
  "read_requests rd s = Inr rd' \<Longrightarrow> bounded rd \<Longrightarrow> bounded rd' \<and> length (rd_ops rd') = length (rd_ops rd)"
proof (induction rd s rule: read_requests.induct)
  case (1 rd s)
  show ?case
  proof (cases "scan_s s")
    case None
    then show ?thesis using "1.prems" by (simp add: read_requests.simps [of rd])
  next
    case (Some p)
    obtain w r where p: "p = (w, r)" by force
    then obtain rd1 r1 where r1: "read_request w rd r = Inr (rd1, r1)" "read_requests rd1 r1 = Inr rd'" "\<not> MAXLINE \<le> length w"
      using "1.prems"(1) Some by (auto simp: read_requests.simps [of rd] split: if_splits sum.splits)
    then show ?thesis using "1.IH" [OF Some p [symmetric] r1(3) r1(1) refl r1(2)]
      read_request_bounded [OF r1(1) "1.prems"(2)] by simp
  qed
qed

lemma read_trace_parts:
  assumes "read_trace files J dir name = Inr t"
  obtains h r rd where "0 \<le> sint (num_ops h)"
    and "read_requests (fresh_reader J (nat (sint (num_ops h)))) r = Inr rd"
    and "rd_max rd = num_ids h - 1" and "num_ops h = rd_count rd"
    and "t = h\<lparr>trace_ops := rd_ops rd, blocks := replicate (nat (sint (num_ids h))) (junk_block J),
            block_sizes := replicate (nat (sint (num_ids h))) (junk_block_size J)\<rparr>"
proof -
  obtain s where f: "files (dir @ name) = Some s" "\<not> 500 \<le> length (dir @ name)"
    using assms by (auto simp: read_trace_def Let_def split: if_splits option.splits)
  obtain h r where h: "read_header (junk_header J) s = (h, r)" by force
  have n: "0 \<le> sint (num_ops h)" "0 \<le> sint (num_ids h)"
    using assms f h by (auto simp: read_trace_def Let_def split: if_splits)
  obtain rd where rd: "read_requests (fresh_reader J (nat (sint (num_ops h)))) r = Inr rd"
    using assms f h n by (auto simp: read_trace_def Let_def fresh_reader_def split: if_splits sum.splits)
  show thesis
  proof (rule that [OF n(1) rd])
    have run: "(if rd_max rd \<noteq> num_ids h - 1 then Inl AssertFail else if num_ops h \<noteq> rd_count rd then Inl AssertFail
        else Inr (h\<lparr>trace_ops := rd_ops rd, blocks := replicate (nat (sint (num_ids h))) (junk_block J),
            block_sizes := replicate (nat (sint (num_ids h))) (junk_block_size J)\<rparr>)) = Inr t"
      using assms f h n rd by (simp add: read_trace_def Let_def fresh_reader_def)
    show "rd_max rd = num_ids h - 1" using run by (simp split: if_splits)
    show "num_ops h = rd_count rd" using run by (simp split: if_splits)
    show "t = h\<lparr>trace_ops := rd_ops rd, blocks := replicate (nat (sint (num_ids h))) (junk_block J),
            block_sizes := replicate (nat (sint (num_ids h))) (junk_block_size J)\<rparr>"
      using run by (simp split: if_splits)
  qed
qed

lemma nonneg_word:
  fixes w :: cint
  assumes "0 \<le> sint w"
  shows "unat w = nat (sint w)" "nat (sint w) < 2 ^ 31"
proof -
  show k: "nat (sint w) < 2 ^ 31" using sint_less [of w] by simp
  have "w = of_nat (nat (sint w))" using assms by simp
  then show "unat w = nat (sint w)" using unat_small [OF k] by metis
qed

lemma index_below:
  fixes i n :: cint
  assumes "0 < sint n" "i \<le> n - 1"
  shows "array_index i (replicate (nat (sint n)) x)"
proof -
  note n = nonneg_word [of n]
  have "n - 1 = of_nat (nat (sint n) - 1)" using assms(1) by (simp add: of_nat_diff)
  moreover have "nat (sint n) - 1 < 2 ^ 31" using n(2) assms(1) by linarith
  ultimately have "unat (n - 1) = nat (sint n) - 1" using unat_small by metis
  then have i: "unat i < nat (sint n)" using assms by (simp add: word_le_nat_alt)
  have "nat (sint i) < nat (sint n)" "0 \<le> sint i"
    using nat_num_ops [of "unat i"] i n(2) assms(1) by simp_all
  moreover from this have "sint i < sint n" by (simp only: nat_less_eq_zless)
  ultimately show ?thesis using assms(1) by (simp add: array_index_def)
qed

text \<open>
  C29: Every trace with a positive number of ids that \<open>read_trace\<close> returns, from any file, is
  well-typed for the evaluation routines: the arrays have the announced lengths, and the index of
  every \<open>ALLOC\<close> and \<open>REALLOC\<close> request lies inside the arrays of blocks. Nothing is promised for the
  index of a \<open>FREE\<close> request, nor for a file that announces no ids (\<open>no_ids_accepted\<close>).
\<close>

theorem read_trace_typed:
  assumes "read_trace files J dir name = Inr t" "0 < sint (num_ids t)"
  shows "length (trace_ops t) = nat (sint (num_ops t)) \<and>
    length (blocks t) = nat (sint (num_ids t)) \<and> length (block_sizes t) = nat (sint (num_ids t)) \<and>
    (\<forall>p\<in>set (trace_ops t). op_type p \<noteq> FREE \<longrightarrow>
       array_index (op_index p) (blocks t) \<and> array_index (op_index p) (block_sizes t))"
proof -
  obtain h r rd where nn: "0 \<le> sint (num_ops h)" and rd: "read_requests (fresh_reader J (nat (sint (num_ops h)))) r = Inr rd"
    and ok: "rd_max rd = num_ids h - 1" "num_ops h = rd_count rd"
    and t: "t = h\<lparr>trace_ops := rd_ops rd, blocks := replicate (nat (sint (num_ids h))) (junk_block J),
            block_sizes := replicate (nat (sint (num_ids h))) (junk_block_size J)\<rparr>"
    using read_trace_parts [OF assms(1)] by blast
  let ?n = "nat (sint (num_ops h))"
  note n = nonneg_word [OF nn]
  have b0: "bounded (fresh_reader J ?n)" using n by (simp add: bounded_def fresh_reader_def)
  have b: "bounded rd" "length (rd_ops rd) = ?n"
    using read_requests_bounded [OF rd b0] by (simp_all add: fresh_reader_def)
  have cnt: "unat (rd_count rd) = ?n" using ok(2) n(1) by simp
  have ids: "0 < sint (num_ids h)" using assms(2) by (simp add: t)
  have "op_index p \<le> num_ids h - 1" if "p \<in> set (rd_ops rd)" "op_type p \<noteq> FREE" for p
    using that b cnt ok(1) unfolding bounded_def in_set_conv_nth by auto
  then show ?thesis using b(2) by (simp add: t index_below [OF ids])
qed

theorem read_trace_typed_witness:
  "\<exists>t. read_trace (\<lambda>_. Some (render_trace small_trace)) zero_junk ''./'' ''f.rep'' = Inr t \<and>
     length (trace_ops t) = 4 \<and> (\<forall>p\<in>set (trace_ops t). op_type p \<noteq> FREE \<longrightarrow> array_index (op_index p) (blocks t))"
proof -
  have r: "read_trace (\<lambda>_. Some (render_trace small_trace)) zero_junk ''./'' ''f.rep'' = Inr small_trace"
    by (rule read_rendered [OF small_trace_complete]) simp_all
  have "0 < sint (num_ids small_trace)" by (simp add: small_trace_def)
  from read_trace_typed [OF r this] show ?thesis using r by (auto simp: small_trace_def)
qed

text \<open>
  A header that announces no ids. The assertion compares the largest index with \<open>num_ids - 1\<close>, which
  is then \<open>2 ^ 32 - 1\<close>: a file whose largest index is that number is accepted, with empty arrays.
\<close>

lemma no_ids_accepted:
  assumes "t = \<lparr>sugg_heapsize = 0, num_ids = 0, num_ops = 1, weight = 1,
    trace_ops = [\<lparr>op_type = ALLOC, op_index = 4294967295, op_size = 16\<rparr>], blocks = [], block_sizes = []\<rparr>"
  shows "read_trace (\<lambda>_. Some (render_trace t)) zero_junk ''./'' ''f.rep'' = Inr t"
  by (rule read_rendered)
    (simp_all add: assms complete_def zero_junk_def max_index_def larger_index_def sizeless_def)

text \<open>
  The index of a \<open>FREE\<close> request is checked neither here nor in the driver: an evaluation of a
  trace that frees an index outside the arrays reads out of bounds.
\<close>

lemma free_index_unchecked:
  assumes "read_op i s = Inr (p, s)" "op_type p = FREE" "\<not> array_index (op_index p) (blocks (trace s))"
  shows "valid_step A tracenum i s = Inl OutOfBounds"
  using assms by (simp add: valid_step_def bindE_def read_block_def Let_def)

end
