(* ===== verification/Clock.thy ===== *)
theory Clock
  imports Rounding
begin

section \<open>Counters and timers (clock.c, ftimer.c, fsecs.c)\<close>

text \<open>
  The measurement routines of \<^verbatim>\<open>labs/malloclab\<close>. The hardware counter, the process times and
  the clocks of the operating system are arguments: functions of a world \<open>'h\<close> that the timed
  function changes too. Arithmetic on \<open>double\<close> is the argument \<open>fp\<close>, a record of operations:
  \<open>double_fp\<close> rounds every result to 53 bits, \<open>real_fp\<close> is exact arithmetic.
\<close>

subsection \<open>Arithmetic on doubles\<close>

record 'd fp =
  fp_add :: "'d \<Rightarrow> 'd \<Rightarrow> 'd"
  fp_sub :: "'d \<Rightarrow> 'd \<Rightarrow> 'd"
  fp_mul :: "'d \<Rightarrow> 'd \<Rightarrow> 'd"
  fp_div :: "'d \<Rightarrow> 'd \<Rightarrow> 'd"
  fp_of :: "int \<Rightarrow> 'd"
  fp_lit :: "int \<Rightarrow> int \<Rightarrow> 'd"    \<comment> \<open>the decimal literal \<open>m\<close>E\<open>e\<close>\<close>

definition real_fp :: "real fp" where
  "real_fp = \<lparr>fp_add = (+), fp_sub = (-), fp_mul = (*), fp_div = (/), fp_of = of_int,
     fp_lit = (\<lambda>m e. of_int m * 10 powi e)\<rparr>"

lemma real_fp_simps [simp]:
  "fp_add real_fp x y = x + y" "fp_sub real_fp x y = x - y" "fp_mul real_fp x y = x * y"
  "fp_div real_fp x y = x / y" "fp_of real_fp n = of_int n" "fp_lit real_fp m e = of_int m * 10 powi e"
  by (simp_all add: real_fp_def)

definition double_fp :: "real fp" where
  "double_fp = \<lparr>fp_add = (\<lambda>x y. round_double (x + y)), fp_sub = (\<lambda>x y. round_double (x - y)),
     fp_mul = (\<lambda>x y. round_double (x * y)), fp_div = (\<lambda>x y. round_double (x / y)),
     fp_of = (\<lambda>n. round_double (of_int n)), fp_lit = (\<lambda>m e. round_double (of_int m * 10 powi e))\<rparr>"

lemma double_fp_simps [simp]:
  "fp_add double_fp x y = round_double (x + y)" "fp_sub double_fp x y = round_double (x - y)"
  "fp_mul double_fp x y = round_double (x * y)" "fp_div double_fp x y = round_double (x / y)"
  "fp_of double_fp n = round_double (of_int n)" "fp_lit double_fp m e = round_double (of_int m * 10 powi e)"
  by (simp_all add: double_fp_def)

subsection \<open>Cycle counters (clock.c)\<close>

text \<open>
  The static variables. A counter is a pair of commands, \<open>start_counter\<close> and \<open>get_counter\<close>, of
  which the file has three versions, one for each platform.
\<close>

record ('d, 'h) clock =
  cyc_hi :: uint32
  cyc_lo :: uint32
  cyc_per_tick :: 'd
  start_tick :: int
  hw :: 'h

record ('w, 'd) timer =
  start_op :: "('w, unit) cmd"
  get_op :: "('w, 'd) cmd"

definition on_hw :: "('h \<Rightarrow> 'a \<times> 'h) \<Rightarrow> (('d, 'h) clock, 'a) cmd" where
  "on_hw g = (\<lambda>s. case g (hw s) of (x, h) \<Rightarrow> Inr (x, s\<lparr>hw := h\<rparr>))"

text \<open>The subtraction with borrow that the i386 and the Alpha version share.\<close>

definition counter_diff :: "'d fp \<Rightarrow> uint32 \<Rightarrow> uint32 \<Rightarrow> uint32 \<Rightarrow> uint32 \<Rightarrow> 'd" where
  "counter_diff F ncyc_hi ncyc_lo c_hi c_lo =
     (let lo = ncyc_lo - c_lo;
          borrow = (if ncyc_lo < lo then 1 else 0);
          hi = ncyc_hi - c_hi - borrow
      in fp_add F (fp_mul F (fp_mul F (fp_of F (uint hi)) (fp_of F (2 ^ 30))) (fp_of F 4)) (fp_of F (uint lo)))"

text \<open>i386: \<open>access_counter\<close> executes \<open>rdtsc\<close>, which yields the two halves of a 64-bit counter.\<close>

definition i386_start :: "('h \<Rightarrow> (uint32 \<times> uint32) \<times> 'h) \<Rightarrow> (('d, 'h) clock, unit) cmd" where
  "i386_start rdtsc = bindE (on_hw rdtsc) (\<lambda>(hi, lo). modifyE (\<lambda>s. s\<lparr>cyc_hi := hi, cyc_lo := lo\<rparr>))"

definition i386_get :: "'d fp \<Rightarrow> ('h \<Rightarrow> (uint32 \<times> uint32) \<times> 'h) \<Rightarrow> (('d, 'h) clock, 'd) cmd" where
  "i386_get F rdtsc = bindE (on_hw rdtsc) (\<lambda>(nhi, nlo).
     getsE (\<lambda>s. counter_diff F nhi nlo (cyc_hi s) (cyc_lo s)))"

text \<open>Alpha: the machine code in \<open>counterRoutine\<close> yields the low 32 bits only.\<close>

definition alpha_start :: "('h \<Rightarrow> uint32 \<times> 'h) \<Rightarrow> (('d, 'h) clock, unit) cmd" where
  "alpha_start counter = bindE (on_hw counter) (\<lambda>lo. modifyE (\<lambda>s. s\<lparr>cyc_hi := 0, cyc_lo := lo\<rparr>))"

definition alpha_get :: "'d fp \<Rightarrow> ('h \<Rightarrow> uint32 \<times> 'h) \<Rightarrow> (('d, 'h) clock, 'd) cmd" where
  "alpha_get F counter = bindE (on_hw counter) (\<lambda>nlo.
     getsE (\<lambda>s. counter_diff F 0 nlo (cyc_hi s) (cyc_lo s)))"

text \<open>Every other platform.\<close>

definition other_start :: "(('d, 'h) clock, unit) cmd" where
  "other_start = throwE (Exit 1)"

definition other_get :: "(('d, 'h) clock, 'd) cmd" where
  "other_get = throwE (Exit 1)"

subsection \<open>Machine-independent functions (clock.c)\<close>

definition ovhd :: "(('d, 'h) clock, 'd) timer \<Rightarrow> (('d, 'h) clock, 'd) cmd" where
  "ovhd C = bindE (start_op C) (\<lambda>_. bindE (get_op C) (\<lambda>_.
     bindE (start_op C) (\<lambda>_. get_op C)))"

definition mhz_full :: "'d fp \<Rightarrow> (('d, 'h) clock, 'd) timer \<Rightarrow> (int \<Rightarrow> 'h \<Rightarrow> 'h) \<Rightarrow> int \<Rightarrow> (('d, 'h) clock, 'd) cmd" where
  "mhz_full F C sleep_sec sleeptime =
     bindE (start_op C) (\<lambda>_.
     bindE (on_hw (\<lambda>h. ((), sleep_sec sleeptime h))) (\<lambda>_.
     bindE (get_op C) (\<lambda>cyc.
       retE (fp_div F cyc (fp_mul F (fp_lit F 1 6) (fp_of F sleeptime))))))"

definition mhz :: "'d fp \<Rightarrow> (('d, 'h) clock, 'd) timer \<Rightarrow> (int \<Rightarrow> 'h \<Rightarrow> 'h) \<Rightarrow> (('d, 'h) clock, 'd) cmd" where
  "mhz F C sleep_sec = mhz_full F C sleep_sec 2"

definition NEVENT :: nat where "NEVENT = 100"
definition THRESHOLD :: int where "THRESHOLD = 1000"
definition RECORDTHRESH :: int where "RECORDTHRESH = 3000"

text \<open>
  \<open>callibrate\<close> watches the counter for jumps of \<open>THRESHOLD\<close> cycles or more during which the user
  time advanced, until it has seen \<open>NEVENT\<close> of them, and keeps the smallest ratio of cycles
  per tick above \<open>RECORDTHRESH\<close>. On a machine that never shows such a jump it does not return.
\<close>

partial_function (option) callibrate_loop ::
  "'d :: linorder fp \<Rightarrow> (('d, 'h) clock, 'd) timer \<Rightarrow> ('h \<Rightarrow> int \<times> 'h) \<Rightarrow> 'd \<Rightarrow> int \<Rightarrow> nat \<Rightarrow> ('d, 'h) clock \<Rightarrow>
     (err + ('d, 'h) clock) option" where
  "callibrate_loop F C utime oldt oldc e s =
     (if e < NEVENT
      then
        (case get_op C s of Inl x \<Rightarrow> Some (Inl x)
         | Inr (newt, s1) \<Rightarrow>
             if fp_of F THRESHOLD \<le> fp_sub F newt oldt
             then
               (case utime (hw s1) of (newc, h) \<Rightarrow>
                  let s2 = s1\<lparr>hw := h\<rparr> in
                  if oldc < newc
                  then
                    let cpt = fp_div F (fp_sub F newt oldt) (fp_of F (newc - oldc));
                        s3 = (if (cyc_per_tick s2 = fp_of F 0 \<or> cpt < cyc_per_tick s2) \<and> fp_of F RECORDTHRESH < cpt
                              then s2\<lparr>cyc_per_tick := cpt\<rparr> else s2)
                    in callibrate_loop F C utime newt newc (Suc e) s3
                  else callibrate_loop F C utime newt oldc e s2)
             else callibrate_loop F C utime oldt oldc e s1)
      else Some (Inr s))"

definition callibrate :: "'d :: linorder fp \<Rightarrow> (('d, 'h) clock, 'd) timer \<Rightarrow> ('h \<Rightarrow> int \<times> 'h) \<Rightarrow> (('d, 'h) clock, unit) cmd" where
  "callibrate F C utime =
     bindE (on_hw utime) (\<lambda>oldc.
     bindE (start_op C) (\<lambda>_.
     bindE (get_op C) (\<lambda>oldt.
       (\<lambda>s. case callibrate_loop F C utime oldt oldc 0 s of
              None \<Rightarrow> Inl Diverge
            | Some (Inl x) \<Rightarrow> Inl x
            | Some (Inr t) \<Rightarrow> Inr ((), t)))))"

definition start_comp_counter :: "'d :: linorder fp \<Rightarrow> (('d, 'h) clock, 'd) timer \<Rightarrow> ('h \<Rightarrow> int \<times> 'h) \<Rightarrow> (('d, 'h) clock, unit) cmd" where
  "start_comp_counter F C utime =
     bindE (getsE (\<lambda>s. cyc_per_tick s = fp_of F 0)) (\<lambda>fresh.
     bindE (whenE fresh (callibrate F C utime)) (\<lambda>_.
     bindE (on_hw utime) (\<lambda>u.
     bindE (modifyE (\<lambda>s. s\<lparr>start_tick := u\<rparr>)) (\<lambda>_.
       start_op C))))"

definition get_comp_counter :: "'d fp \<Rightarrow> (('d, 'h) clock, 'd) timer \<Rightarrow> ('h \<Rightarrow> int \<times> 'h) \<Rightarrow> (('d, 'h) clock, 'd) cmd" where
  "get_comp_counter F C utime =
     bindE (get_op C) (\<lambda>time.
     bindE (on_hw utime) (\<lambda>u.
       getsE (\<lambda>s. fp_sub F time (fp_mul F (fp_of F (u - start_tick s)) (cyc_per_tick s)))))"

subsection \<open>What the counters measure\<close>

definition counter64 :: "uint32 \<times> uint32 \<Rightarrow> uint64" where
  "counter64 p = (case p of (hi, lo) \<Rightarrow> word_of_int (uint hi * 2 ^ 32 + uint lo))"

lemma uint_counter64: "uint (counter64 (hi, lo)) = uint hi * 2 ^ 32 + uint lo"
proof -
  have "uint hi < 2 ^ 32" "uint lo < 2 ^ 32" "0 \<le> uint hi" "0 \<le> uint lo"
    using uint_lt2p [of hi] uint_lt2p [of lo] by simp_all
  then have "take_bit 64 (uint hi * 2 ^ 32 + uint lo) = uint hi * 2 ^ 32 + uint lo"
    by (intro take_bit_int_eq_self) auto
  then show ?thesis unfolding counter64_def prod.case unsigned_of_int by simp
qed

lemma uint_sub32: "uint (x - y) = (if uint y \<le> uint x then uint x - uint y else uint x - uint y + 2 ^ 32)" for x y :: uint32
  by (simp add: uint_sub_if_size word_size)

lemma mod_two_digits:
  fixes q r m :: int
  assumes "0 \<le> r" "r < m"
  shows "(q * m + r) mod (m * m) = q mod m * m + r"
proof -
  have d: "(q * m + r) div m = q" "(q * m + r) mod m = r"
    using assms by (simp_all add: div_add1_eq)
  show ?thesis using zmod_zmult2_eq [of m "q * m + r" m] assms unfolding d by (simp add: mult.commute)
qed

lemma borrow_subtraction:
  fixes nhi nlo hi lo :: uint32
  shows "uint (nhi - hi - (if nlo < nlo - lo then 1 else 0)) * 2 ^ 32 + uint (nlo - lo)
    = uint (counter64 (nhi, nlo) - counter64 (hi, lo))"
proof -
  have b: "0 \<le> uint x" "uint x < 2 ^ 32" for x :: uint32 using uint_lt2p [of x] by simp_all
  define br :: int where "br = (if uint nlo < uint lo then 1 else 0)"
  have w: "nlo < nlo - lo \<longleftrightarrow> uint nlo < uint lo"
    using b [of nlo] b [of lo] by (auto simp: word_less_def uint_sub32)
  have hi: "uint (nhi - hi - (if nlo < nlo - lo then 1 else 0)) = (uint nhi - uint hi - br) mod 2 ^ 32"
    unfolding w br_def by (simp add: uint_word_ariths mod_diff_left_eq)
  have lo: "uint (nlo - lo) = uint nlo - uint lo + br * 2 ^ 32"
    unfolding uint_sub32 br_def by simp
  have r: "0 \<le> uint (nlo - lo)" "uint (nlo - lo) < 2 ^ 32" by (rule b)+
  have "uint (counter64 (nhi, nlo) - counter64 (hi, lo)) =
      (uint nhi * 2 ^ 32 + uint nlo - (uint hi * 2 ^ 32 + uint lo)) mod (2 ^ 32 * 2 ^ 32)"
    unfolding uint_word_ariths(2) uint_counter64 by simp
  also have "uint nhi * 2 ^ 32 + uint nlo - (uint hi * 2 ^ 32 + uint lo) =
      (uint nhi - uint hi - br) * 2 ^ 32 + uint (nlo - lo)"
    unfolding lo by (simp add: algebra_simps)
  also have "\<dots> mod (2 ^ 32 * 2 ^ 32) = (uint nhi - uint hi - br) mod 2 ^ 32 * 2 ^ 32 + uint (nlo - lo)"
    by (rule mod_two_digits [OF r])
  finally show ?thesis unfolding hi by simp
qed

text \<open>
  The conversions and products of \<open>get_counter\<close> are exact; its one addition rounds, so the result is
  the 64-bit difference rounded to a double.
\<close>

lemma counter_diff_rounded:
  "counter_diff double_fp nhi nlo hi lo = round_double (of_int (uint (counter64 (nhi, nlo) - counter64 (hi, lo))))"
proof -
  define h l where "h = uint (nhi - hi - (if nlo < nlo - lo then 1 else 0))" and "l = uint (nlo - lo)"
  have b: "0 \<le> h" "h < 2 ^ 32" "0 \<le> l" "l < 2 ^ 32"
    using uint_lt2p [of "nhi - hi - (if nlo < nlo - lo then 1 else 0)"] uint_lt2p [of "nlo - lo"] by (simp_all add: h_def l_def)
  then have c: "round_double (of_int h) = of_int h" "round_double (of_int l) = of_int l"
    "round_double (of_int h * 2 ^ 30) = of_int h * 2 ^ 30" "round_double (of_int h * 2 ^ 30 * 4) = of_int h * 2 ^ 32"
    using round_double_exact [of h 30] round_double_exact [of h 32] by (simp_all add: round_double_int mult.commute)
  have d: "round_double (2 ^ 30) = 2 ^ 30" "round_double 4 = 4" using round_double_int [of "2 ^ 30"] round_double_int [of 4] by simp_all
  have "counter_diff double_fp nhi nlo hi lo = round_double (of_int h * 2 ^ 32 + of_int l)"
    unfolding counter_diff_def Let_def h_def [symmetric] l_def [symmetric] double_fp_simps by (simp only: of_int_power of_int_numeral d c)
  also have "of_int h * 2 ^ 32 + of_int l = (of_int (h * 2 ^ 32 + l) :: real)" by simp
  finally show ?thesis unfolding h_def l_def borrow_subtraction .
qed

text \<open>
  A locale for what the users of a counter rely on: \<open>get_op\<close> after \<open>start_op\<close> gives the
  difference of two readings of a clock \<open>now\<close>, whatever the timed function does in between.
\<close>

locale interval_counter =
  fixes C :: "('w, real) timer" and now :: "'w \<Rightarrow> int" and started :: "int \<Rightarrow> 'w \<Rightarrow> bool"
    and elapsed :: "int \<Rightarrow> int \<Rightarrow> real"
  assumes start_law: "\<exists>w'. start_op C w = Inr ((), w') \<and> started (now w) w'"
    and get_law: "started n w \<Longrightarrow> \<exists>w'. get_op C w = Inr (elapsed n (now w), w') \<and> started n w'"
begin

lemma time_interval:
  assumes "\<And>n w. started n w \<Longrightarrow> \<exists>w'. f w = Inr ((), w') \<and> started n w' \<and> now w' = later w"
  shows "\<exists>w1 w2. start_op C w = Inr ((), w1) \<and>
    bindE (start_op C) (\<lambda>_. bindE f (\<lambda>_. get_op C)) w = Inr (elapsed (now w) (later w1), w2)"
proof -
  obtain w1 where 1: "start_op C w = Inr ((), w1)" "started (now w) w1" using start_law by blast
  obtain w2 where 2: "f w1 = Inr ((), w2)" "started (now w) w2" "now w2 = later w1" using assms 1(2) by blast
  obtain w3 where 3: "get_op C w2 = Inr (elapsed (now w) (now w2), w3)" using get_law 2(2) by blast
  show ?thesis using 1 2 3 by (simp add: bindE_def)
qed

end

subsection \<open>The two cycle counters\<close>

definition i386_counter :: "('h \<Rightarrow> (uint32 \<times> uint32) \<times> 'h) \<Rightarrow> ((real, 'h) clock, real) timer" where
  "i386_counter rdtsc = \<lparr>start_op = i386_start rdtsc, get_op = i386_get double_fp rdtsc\<rparr>"

definition alpha_counter :: "('h \<Rightarrow> uint32 \<times> 'h) \<Rightarrow> ((real, 'h) clock, real) timer" where
  "alpha_counter counter = \<lparr>start_op = alpha_start counter, get_op = alpha_get double_fp counter\<rparr>"

definition interval64 :: "int \<Rightarrow> int \<Rightarrow> int" where
  "interval64 a b = (b - a) mod 2 ^ 64"

definition rounded_interval :: "int \<Rightarrow> int \<Rightarrow> real" where
  "rounded_interval a b = round_double (of_int (interval64 a b))"

lemma uint_diff64: "uint (y - x) = interval64 (uint x) (uint y)" for x y :: uint64
  unfolding interval64_def uint_word_ariths(2) by simp

interpretation i386: interval_counter "i386_counter rdtsc" "\<lambda>s. uint (counter64 (fst (rdtsc (hw s))))"
    "\<lambda>n s. n = uint (counter64 (cyc_hi s, cyc_lo s))" rounded_interval for rdtsc
proof
  fix w :: "(real, 'a) clock" and n
  show "\<exists>w'. start_op (i386_counter rdtsc) w = Inr ((), w') \<and>
      uint (counter64 (fst (rdtsc (hw w)))) = uint (counter64 (cyc_hi w', cyc_lo w'))"
    by (cases "rdtsc (hw w)") (auto simp: i386_counter_def i386_start_def on_hw_def bindE_def modifyE_def)
  show "n = uint (counter64 (cyc_hi w, cyc_lo w)) \<Longrightarrow>
      \<exists>w'. get_op (i386_counter rdtsc) w = Inr (rounded_interval n (uint (counter64 (fst (rdtsc (hw w))))), w') \<and>
        n = uint (counter64 (cyc_hi w', cyc_lo w'))"
    by (cases "rdtsc (hw w)")
      (auto simp: i386_counter_def i386_get_def on_hw_def bindE_def getsE_def counter_diff_rounded rounded_interval_def uint_diff64)
qed

interpretation alpha: interval_counter "alpha_counter counter" "\<lambda>s. uint (fst (counter (hw s)))"
    "\<lambda>n s. cyc_hi s = 0 \<and> n = uint (cyc_lo s)" rounded_interval for counter
proof
  have low: "uint (counter64 (0, x)) = uint x" for x by (simp add: uint_counter64)
  fix w :: "(real, 'a) clock" and n
  show "\<exists>w'. start_op (alpha_counter counter) w = Inr ((), w') \<and>
      cyc_hi w' = 0 \<and> uint (fst (counter (hw w))) = uint (cyc_lo w')"
    by (cases "counter (hw w)") (auto simp: alpha_counter_def alpha_start_def on_hw_def bindE_def modifyE_def)
  show "cyc_hi w = 0 \<and> n = uint (cyc_lo w) \<Longrightarrow>
      \<exists>w'. get_op (alpha_counter counter) w = Inr (rounded_interval n (uint (fst (counter (hw w)))), w') \<and>
        cyc_hi w' = 0 \<and> n = uint (cyc_lo w')"
    by (cases "counter (hw w)")
      (auto simp: alpha_counter_def alpha_get_def on_hw_def bindE_def getsE_def counter_diff_rounded rounded_interval_def uint_diff64 low)
qed

text \<open>What the timed function may do to the world: anything but touch the saved counter.\<close>

definition work :: "('h \<Rightarrow> 'h) \<Rightarrow> ((real, 'h) clock, unit) cmd" where
  "work g = modifyE (\<lambda>s. s\<lparr>hw := g (hw s)\<rparr>)"

subsection \<open>Wall-clock timers (ftimer.c)\<close>

text \<open>Times of day are pairs of seconds and microseconds, intervals of \<open>setitimer\<close> likewise.\<close>

primrec repeat_op :: "nat \<Rightarrow> ('w, unit) cmd \<Rightarrow> ('w, unit) cmd" where
  "repeat_op 0 f = retE ()"
| "repeat_op (Suc n) f = bindE f (\<lambda>_. repeat_op n f)"

definition ftimer_gettod :: "'d fp \<Rightarrow> ('w, int \<times> int) cmd \<Rightarrow> ('w, unit) cmd \<Rightarrow> cint \<Rightarrow> ('w, 'd) cmd" where
  "ftimer_gettod F gettimeofday f n =
     bindE gettimeofday (\<lambda>(ssec, susec).
     bindE (repeat_op (nat (sint n)) f) (\<lambda>_.
     bindE gettimeofday (\<lambda>(esec, eusec).
       let diff = fp_add F (fp_mul F (fp_lit F 1 3) (fp_of F (esec - ssec)))
                    (fp_mul F (fp_lit F 1 (- 3)) (fp_of F (eusec - susec)));
           diff = fp_div F diff (fp_of F (sint n))
       in retE (fp_mul F (fp_lit F 1 (- 3)) diff))))"

definition MAX_ETIME :: int where "MAX_ETIME = 86400"

datatype itimer = ITIMER_VIRTUAL | ITIMER_REAL | ITIMER_PROF

definition init_etime :: "(itimer \<Rightarrow> int \<times> int \<Rightarrow> ('w, unit) cmd) \<Rightarrow> ('w, int \<times> int) cmd" where
  "init_etime setitimer =
     bindE (setitimer ITIMER_VIRTUAL (MAX_ETIME, 0)) (\<lambda>_.
     bindE (setitimer ITIMER_REAL (MAX_ETIME, 0)) (\<lambda>_.
     bindE (setitimer ITIMER_PROF (MAX_ETIME, 0)) (\<lambda>_.
       retE (MAX_ETIME, 0))))"

text \<open>\<open>first\<close> is the value the three \<open>first_\<close> variables hold after \<open>init_etime\<close>.\<close>

definition get_etime :: "'d fp \<Rightarrow> (itimer \<Rightarrow> ('w, int \<times> int) cmd) \<Rightarrow> int \<times> int \<Rightarrow> ('w, 'd) cmd" where
  "get_etime F getitimer first =
     bindE (getitimer ITIMER_VIRTUAL) (\<lambda>_.
     bindE (getitimer ITIMER_REAL) (\<lambda>r.
     bindE (getitimer ITIMER_PROF) (\<lambda>_.
       retE (fp_add F (fp_of F (fst first - fst r))
               (fp_mul F (fp_of F (snd first - snd r)) (fp_lit F 1 (- 6)))))))"

definition ftimer_itimer ::
  "'d fp \<Rightarrow> (itimer \<Rightarrow> int \<times> int \<Rightarrow> ('w, unit) cmd) \<Rightarrow> (itimer \<Rightarrow> ('w, int \<times> int) cmd) \<Rightarrow>
     ('w, unit) cmd \<Rightarrow> cint \<Rightarrow> ('w, 'd) cmd" where
  "ftimer_itimer F setitimer getitimer f n =
     bindE (init_etime setitimer) (\<lambda>first.
     bindE (get_etime F getitimer first) (\<lambda>start.
     bindE (repeat_op (nat (sint n)) f) (\<lambda>_.
     bindE (get_etime F getitimer first) (\<lambda>stop.
       retE (fp_div F (fp_sub F stop start) (fp_of F (sint n)))))))"

subsection \<open>The timing package the driver uses (fsecs.c)\<close>

text \<open>\<open>config.h\<close> selects \<open>USE_GETTOD\<close>: \<open>fsecs\<close> averages ten runs.\<close>

definition fsecs :: "'d fp \<Rightarrow> ('w, int \<times> int) cmd \<Rightarrow> ('w, unit) cmd \<Rightarrow> ('w, 'd) cmd" where
  "fsecs F gettimeofday f = ftimer_gettod F gettimeofday f 10"

subsection \<open>Properties\<close>

text \<open>
  C26: The i386 counter. \<open>get_counter\<close> after \<open>start_counter\<close> returns the number of cycles between
  the two executions of \<open>rdtsc\<close>, as a 64-bit difference rounded once to a \<open>double\<close>: the borrow between
  the halves is right for every pair of readings, also when the low half, or the whole counter,
  wraps around. Below \<open>2 ^ 53\<close> cycles the result is exact, and it is never off by more than \<open>2 ^ 10\<close>.
\<close>

theorem i386_counts_cycles:
  fixes rdtsc :: "'h \<Rightarrow> (uint32 \<times> uint32) \<times> 'h" and s :: "(real, 'h) clock" and g :: "'h \<Rightarrow> 'h"
  defines "d \<equiv> (uint (counter64 (fst (rdtsc (g (snd (rdtsc (hw s))))))) - uint (counter64 (fst (rdtsc (hw s))))) mod 2 ^ 64"
  shows "\<exists>r s'. bindE (i386_start rdtsc) (\<lambda>_. bindE (work g) (\<lambda>_. i386_get double_fp rdtsc)) s = Inr (r, s') \<and>
    r = round_double (of_int d) \<and> (d < 2 ^ 53 \<longrightarrow> r = of_int d) \<and> \<bar>r - of_int d\<bar> \<le> 2 ^ 10"
proof -
  have "\<exists>w1 w2. i386_start rdtsc s = Inr ((), w1) \<and>
      bindE (i386_start rdtsc) (\<lambda>_. bindE (work g) (\<lambda>_. i386_get double_fp rdtsc)) s =
      Inr (rounded_interval (uint (counter64 (fst (rdtsc (hw s))))) (uint (counter64 (fst (rdtsc (g (hw w1)))))), w2)"
    using i386.time_interval [of "work g" rdtsc "\<lambda>w. uint (counter64 (fst (rdtsc (g (hw w)))))" s]
    by (simp add: work_def i386_counter_def)
  moreover have "i386_start rdtsc s = Inr ((), w1) \<Longrightarrow> hw w1 = snd (rdtsc (hw s))" for w1
    by (cases "rdtsc (hw s)") (auto simp: i386_start_def on_hw_def bindE_def modifyE_def)
  ultimately have run: "\<exists>s'. bindE (i386_start rdtsc) (\<lambda>_. bindE (work g) (\<lambda>_. i386_get double_fp rdtsc)) s =
      Inr (round_double (of_int d), s')" unfolding rounded_interval_def interval64_def d_def by auto
  have d: "0 \<le> d" "d < 2 ^ 64" by (simp_all add: d_def)
  then have "\<bar>real_of_int d\<bar> < 2 powi 64" by (simp flip: of_int_less_iff)
  then have "\<bar>round_double (of_int d) - of_int d\<bar> \<le> 2 powi (64 - 54)" by (rule round_double_near)
  moreover have "d < 2 ^ 53 \<Longrightarrow> round_double (of_int d) = of_int d" using d(1) by (intro round_double_int) simp
  ultimately show ?thesis using run by auto
qed

text \<open>Ten cycles, during which the 64-bit counter wraps around.\<close>

theorem i386_counts_cycles_witness:
  "\<exists>s'. bindE (i386_start (\<lambda>h. ((word_of_int (h div 2 ^ 32), word_of_int h), h))) (\<lambda>_. bindE (work (\<lambda>h. h + 10))
      (\<lambda>_. i386_get double_fp (\<lambda>h. ((word_of_int (h div 2 ^ 32), word_of_int h), h))))
      \<lparr>cyc_hi = 0, cyc_lo = 0, cyc_per_tick = 0, start_tick = 0, hw = 2 ^ 64 - 5\<rparr> = Inr (10, s')"
  using i386_counts_cycles [of "\<lambda>h. ((word_of_int (h div 2 ^ 32), word_of_int h), h)" "\<lambda>h. h + 10"
      "\<lparr>cyc_hi = 0, cyc_lo = 0, cyc_per_tick = 0, start_tick = 0, hw = 2 ^ 64 - 5\<rparr>"]
  by (auto simp: uint_counter64)

text \<open>
  C38: The Alpha counter. Its register has 32 bits, but the borrow goes into a high half that is
  always 0: when the register wraps once during the measurement, \<open>get_counter\<close> returns the
  difference plus \<open>2 ^ 64\<close>, rounded, instead of plus \<open>2 ^ 32\<close>: at least \<open>2 ^ 63\<close> cycles.
\<close>

theorem alpha_wraps_wrong:
  fixes counter :: "'h \<Rightarrow> uint32 \<times> 'h" and s :: "(real, 'h) clock"
  assumes "fst (counter (g (snd (counter (hw s))))) < fst (counter (hw s))"
  shows "\<exists>r s'. bindE (alpha_start counter) (\<lambda>_. bindE (work g) (\<lambda>_. alpha_get double_fp counter)) s = Inr (r, s') \<and>
    r = round_double (of_int (uint (fst (counter (g (snd (counter (hw s)))))) - uint (fst (counter (hw s))) + 2 ^ 64)) \<and> 2 ^ 63 \<le> r"
proof -
  let ?a = "fst (counter (hw s))" and ?b = "fst (counter (g (snd (counter (hw s)))))"
  have "\<exists>w1 w2. alpha_start counter s = Inr ((), w1) \<and>
      bindE (alpha_start counter) (\<lambda>_. bindE (work g) (\<lambda>_. alpha_get double_fp counter)) s =
      Inr (rounded_interval (uint ?a) (uint (fst (counter (g (hw w1))))), w2)"
    using alpha.time_interval [of "work g" counter "\<lambda>w. uint (fst (counter (g (hw w))))" s]
    by (simp add: work_def alpha_counter_def)
  moreover have "alpha_start counter s = Inr ((), w1) \<Longrightarrow> hw w1 = snd (counter (hw s))" for w1
    by (cases "counter (hw s)") (auto simp: alpha_start_def on_hw_def bindE_def modifyE_def)
  ultimately have run: "\<exists>s'. bindE (alpha_start counter) (\<lambda>_. bindE (work g) (\<lambda>_. alpha_get double_fp counter)) s =
      Inr (rounded_interval (uint ?a) (uint ?b), s')" by auto
  have power2_64: "(2 :: int) ^ 64 = 18446744073709551616" by simp
  define x where "x = uint ?b - uint ?a + 2 ^ 64"
  have b: "uint ?b < uint ?a" "uint ?a < 4294967296" "0 \<le> uint ?b" using assms uint_lt2p [of ?a] by (simp_all add: word_less_def)
  have "18446744069414584320 < x" "x < 18446744073709551616" using b unfolding x_def power2_64 by linarith+
  then have x: "2 ^ 63 + 2 ^ 10 \<le> x" "x < 2 ^ 64" by simp_all
  then have "interval64 (uint ?a) (uint ?b) = x"
    using mod_pos_pos_trivial [of x "2 ^ 64"] by (simp add: interval64_def x_def)
  moreover have "2 ^ 63 \<le> round_double (of_int x)"
  proof -
    have r: "2 ^ 63 + 2 ^ 10 \<le> real_of_int x" using of_int_le_iff [where 'a = real, THEN iffD2, OF x(1)] by simp
    have "\<bar>real_of_int x\<bar> < 2 powi 64" using x by simp
    then have "\<bar>round_double (of_int x) - of_int x\<bar> \<le> 2 powi (64 - 54)" by (rule round_double_near)
    then show ?thesis using r by (simp add: abs_le_iff)
  qed
  ultimately show ?thesis using run by (auto simp: rounded_interval_def x_def)
qed

theorem alpha_wraps_wrong_witness:
  "\<exists>r s'. bindE (alpha_start (\<lambda>h. (of_nat h, h))) (\<lambda>_. bindE (work (\<lambda>h. h + 10)) (\<lambda>_. alpha_get double_fp (\<lambda>h. (of_nat h, h))))
      \<lparr>cyc_hi = 0, cyc_lo = 0, cyc_per_tick = 0, start_tick = 0, hw = 4294967295\<rparr> = Inr (r, s') \<and> 2 ^ 63 \<le> r"
  using alpha_wraps_wrong [of "\<lambda>h. (of_nat h, h)" "\<lambda>h. h + 10"
      "\<lparr>cyc_hi = 0, cyc_lo = 0, cyc_per_tick = 0, start_tick = 0, hw = 4294967295 :: nat\<rparr>"] by auto

text \<open>\<open>f\<close> runs exactly \<open>n\<close> times between the two readings of the clock.\<close>

lemma repeat_op_iterate: "(\<And>w. f w = Inr ((), g w)) \<Longrightarrow> repeat_op n f w = Inr ((), (g ^^ n) w)"
  by (induction n arbitrary: w) (simp_all add: bindE_def funpow_swap1)

definition usecs :: "int \<times> int \<Rightarrow> int" where
  "usecs p = fst p * 1000000 + snd p"

text \<open>
  \<open>ftimer_gettod\<close> runs \<open>f\<close> exactly \<open>n\<close> times and returns, in exact arithmetic, the seconds that
  passed on the wall clock divided by \<open>n\<close>, also when the microseconds run backwards.
\<close>

theorem ftimer_gettod_average:
  assumes "\<And>w. f w = Inr ((), g w)" "0 < sint n"
  shows "ftimer_gettod real_fp (getsE clk) f n w =
    Inr (of_int (usecs (clk ((g ^^ nat (sint n)) w)) - usecs (clk w)) / (1000000 * of_int (sint n)), (g ^^ nat (sint n)) w)"
  using assms(2) unfolding ftimer_gettod_def
  by (cases "clk w"; cases "clk ((g ^^ nat (sint n)) w)")
    (simp add: bindE_def [of "repeat_op _ _"] repeat_op_iterate [OF assms(1)] usecs_def Let_def power_int_minus
      field_simps)

theorem ftimer_gettod_average_witness:
  "ftimer_gettod real_fp (getsE (\<lambda>w. (w, 0))) (modifyE (\<lambda>w. w + 2)) 3 0 = Inr (2, 6)"
  using ftimer_gettod_average [of "modifyE (\<lambda>w. w + 2)" "\<lambda>w. w + 2" 3 "\<lambda>w. (w, 0)" 0]
  by (simp add: usecs_def numeral_eq_Suc)

end
