(* ===== verification/Mdriver.thy ===== *)
theory Mdriver
  imports DriverSound Trace Clock
begin

section \<open>The main program of the malloc driver (mdriver.c)\<close>

text \<open>
  What \<^verbatim>\<open>labs/malloclab/mdriver.c\<close> does around the evaluation routines: it reads the command
  line, checks the identification in \<open>mm.c\<close>, runs libc's allocator (with \<open>-l\<close>) and the one
  under test on every trace file, prints the tables and computes the score. The result is the
  list of lines printed, without the constant ones that only report progress. Everything outside
  the program is an argument, the record \<open>platform\<close>: the file system, the content of fresh
  memory, the clock, the address of the arena and libc's allocator. The clock is a command on
  the simulated memory system, so it cannot change the driver's own data. \<open>free_trace\<close> only
  releases memory and has no counterpart.
\<close>

subsection \<open>The command line\<close>

text \<open>
  \<open>getopt\<close> is a list of option characters with their arguments. \<open>-f\<close> allocates the array of
  file names, so \<open>tracefiles\<close> is \<open>None\<close> until then, and \<open>num_tracefiles\<close> is its length.
\<close>

record config =
  tracefiles :: "string list option"
  tracedir :: string
  verbose :: cint
  team_check :: bool
  run_libc :: bool
  autograder :: bool

definition TRACEDIR :: string where "TRACEDIR = ''./traces/''"

definition default_tracefiles :: "string list" where
  "default_tracefiles = [''amptjp-bal.rep'', ''cccp-bal.rep'', ''cp-decl-bal.rep'', ''expr-bal.rep'',
     ''coalescing-bal.rep'', ''random-bal.rep'', ''random2-bal.rep'', ''binary-bal.rep'', ''binary2-bal.rep'']"

definition driver_defaults :: config where
  "driver_defaults = \<lparr>tracefiles = None, tracedir = TRACEDIR, verbose = 0, team_check = True,
     run_libc = False, autograder = False\<rparr>"

text \<open>
  \<open>-t\<close> copies its argument into \<open>tracedir[MAXLINE]\<close> without a check of its length, and looks at
  the character before its end, which is outside the array for an empty argument.
\<close>

definition set_tracedir :: "string \<Rightarrow> config \<Rightarrow> err + config" where
  "set_tracedir dir cfg =
     (if MAXLINE \<le> length dir then Inl OutOfBounds
      else if dir = '''' then Inl OutOfBounds
      else if last dir \<noteq> CHR ''/'' then
        (if MAXLINE \<le> length (dir @ ''/'') then Inl OutOfBounds else Inr (cfg\<lparr>tracedir := dir @ ''/''\<rparr>))
      else Inr (cfg\<lparr>tracedir := dir\<rparr>))"

definition read_option :: "char \<times> string \<Rightarrow> config \<Rightarrow> err + config" where
  "read_option opt cfg =
     (let c = fst opt; optarg = snd opt in
      if c = CHR ''g'' then Inr (cfg\<lparr>autograder := True\<rparr>)
      else if c = CHR ''f'' then Inr (cfg\<lparr>tracefiles := Some [optarg], tracedir := ''./''\<rparr>)
      else if c = CHR ''t'' then (if tracefiles cfg \<noteq> None then Inr cfg else set_tracedir optarg cfg)
      else if c = CHR ''a'' then Inr (cfg\<lparr>team_check := False\<rparr>)
      else if c = CHR ''l'' then Inr (cfg\<lparr>run_libc := True\<rparr>)
      else if c = CHR ''v'' then Inr (cfg\<lparr>verbose := 1\<rparr>)
      else if c = CHR ''V'' then Inr (cfg\<lparr>verbose := 2\<rparr>)
      else if c = CHR ''h'' then Inl (Exit 0)
      else Inl (Exit 1))"

primrec read_options :: "(char \<times> string) list \<Rightarrow> config \<Rightarrow> err + config" where
  "read_options [] cfg = Inr cfg"
| "read_options (a # as) cfg =
     (case read_option a cfg of Inl e \<Rightarrow> Inl e | Inr cfg' \<Rightarrow> read_options as cfg')"

definition trace_names :: "config \<Rightarrow> string list" where
  "trace_names cfg = (case tracefiles cfg of None \<Rightarrow> default_tracefiles | Some fs \<Rightarrow> fs)"

subsection \<open>The lines of the report, and the team check\<close>

record team_t =
  teamname :: string
  name1 :: string
  id1 :: string

text \<open>The members \<open>name2\<close> and \<open>id2\<close> are null and never read.\<close>

definition team :: team_t where
  "team = \<lparr>teamname = ''Aditya Pimplaskar'', name1 = ''804900470'',
     id1 = ''I have no idea how I am going to finish this lab (11/23/19 - 3:45 pm)''\<rparr>"

datatype 'd driver_line =
    NameLine string
  | UidLine string
  | SystemCall string
  | TraceRow string 'd 'd 'd 'd 'd 'd
  | NoRow
  | TotalRow 'd 'd 'd 'd
  | NoTotal
  | Score 'd 'd 'd
  | TerminatedWith cint
  | CorrectCount cint
  | PerfIdx 'd

definition check_team :: "team_t \<Rightarrow> err + 'd driver_line list" where
  "check_team tm =
     (if teamname tm = '''' then Inl (Exit 1)
      else if name1 tm = '''' then Inl (Exit 1)
      else if \<not> all_digits (name1 tm) then Inl (Exit 1)
      else if 64 \<le> length (hash_cmd (name1 tm)) then Inl OutOfBounds
      else Inr [NameLine (teamname tm), UidLine (name1 tm), SystemCall ''echo -n 'YOUR HASH: ' '',
        SystemCall (hash_cmd (name1 tm))])"

subsection \<open>The statistics of a trace\<close>

record 'd stats_t =
  filename :: string
  st_ops :: 'd
  valid :: cint
  secs :: 'd
  ideal_max_heap :: cint
  max_heap :: cint
  util :: 'd

text \<open>\<open>calloc\<close> clears the array, and so the fields that are not set.\<close>

definition cleared_stats :: "'d fp \<Rightarrow> 'd stats_t" where
  "cleared_stats F = \<lparr>filename = '''', st_ops = fp_of F 0, valid = 0, secs = fp_of F 0,
     ideal_max_heap = 0, max_heap = 0, util = fp_of F 0\<rparr>"

record 'm platform =
  files :: "string \<Rightarrow> string option"
  fresh :: "bool \<Rightarrow> cint \<Rightarrow> junk"
  gettod :: "('m memlib_scheme, int \<times> int) cmd"
  arena :: "int \<Rightarrow> int"
  libc :: "'m allocator"

definition load_trace :: "(string \<Rightarrow> string option) \<Rightarrow> junk \<Rightarrow> string \<Rightarrow> string \<Rightarrow> ('m driver, unit) cmd" where
  "load_trace fs J dir name = (\<lambda>s. case read_trace fs J dir name of
     Inl e \<Rightarrow> Inl e | Inr t \<Rightarrow> Inr ((), s\<lparr>trace := t\<rparr>))"

definition libc_trace :: "'d fp \<Rightarrow> 'm platform \<Rightarrow> string \<Rightarrow> cint \<Rightarrow> string \<Rightarrow> ('m driver, 'd stats_t) cmd" where
  "libc_trace F P dir i name =
     bindE (load_trace (files P) (fresh P False i) dir name) (\<lambda>_.
     bindE (getsE (\<lambda>s. num_ops (trace s))) (\<lambda>n.
     bindE (eval_libc_valid (libc P) i) (\<lambda>ok.
     let st = (cleared_stats F)\<lparr>filename := name, st_ops := fp_of F (sint n), valid := ok\<rparr> in
     if ok = 0 then retE st
     else bindE (fsecs F (on_heap (gettod P)) (eval_libc_speed (libc P))) (\<lambda>t. retE (st\<lparr>secs := t\<rparr>)))))"

definition mm_trace :: "'d fp \<Rightarrow> 'm platform \<Rightarrow> 'm allocator \<Rightarrow> string \<Rightarrow> cint \<Rightarrow> string \<Rightarrow> ('m driver, 'd stats_t) cmd" where
  "mm_trace F P A dir i name =
     bindE (load_trace (files P) (fresh P True i) dir name) (\<lambda>_.
     bindE (getsE (\<lambda>s. num_ops (trace s))) (\<lambda>n.
     bindE (eval_mm_valid A i) (\<lambda>ok.
     let st = (cleared_stats F)\<lparr>filename := name, st_ops := fp_of F (sint n), valid := ok\<rparr> in
     if ok = 0 then retE st
     else
       bindE (eval_mm_util (\<lambda>a b. fp_div F (fp_of F (sint a)) (fp_of F (sint b))) A) (\<lambda>(ideal, hmax, u).
       bindE (fsecs F (on_heap (gettod P)) (eval_mm_speed A)) (\<lambda>t.
         retE (st\<lparr>util := u, max_heap := hmax, ideal_max_heap := ideal, secs := t\<rparr>))))))"

primrec run_traces :: "(cint \<Rightarrow> string \<Rightarrow> ('m driver, 'd stats_t) cmd) \<Rightarrow> cint \<Rightarrow> string list \<Rightarrow> ('m driver, 'd stats_t list) cmd" where
  "run_traces eval i [] = retE []"
| "run_traces eval i (name # names) =
     bindE (eval i name) (\<lambda>st. bindE (run_traces eval (i + 1) names) (\<lambda>sts. retE (st # sts)))"

subsection \<open>The tables and the score\<close>

definition fp_sum :: "'d fp \<Rightarrow> 'd list \<Rightarrow> 'd" where
  "fp_sum F xs = foldl (fp_add F) (fp_of F 0) xs"

definition stats_row :: "'d fp \<Rightarrow> 'd stats_t \<Rightarrow> 'd driver_line" where
  "stats_row F st =
     (if valid st \<noteq> 0 then
        TraceRow (filename st)
          (fp_div F (fp_of F (sint (ideal_max_heap st))) (fp_of F 1024))
          (fp_div F (fp_of F (sint (max_heap st))) (fp_of F 1024))
          (fp_mul F (util st) (fp_of F 100)) (st_ops st) (secs st)
          (fp_div F (fp_div F (st_ops st) (fp_lit F 1 3)) (secs st))
      else NoRow)"

definition printresults :: "'d fp \<Rightarrow> cint \<Rightarrow> 'd stats_t list \<Rightarrow> 'd driver_line list" where
  "printresults F errs sts =
     (let good = filter (\<lambda>st. valid st \<noteq> 0) sts;
          ss = fp_sum F (map secs good); os = fp_sum F (map st_ops good); us = fp_sum F (map util good)
      in map (stats_row F) sts @
         [if errs = 0
          then TotalRow (fp_mul F (fp_div F us (fp_of F (int (length sts)))) (fp_of F 100)) os ss
                 (fp_div F (fp_div F os (fp_lit F 1 3)) ss)
          else NoTotal])"

definition numcorrect :: "'d stats_t list \<Rightarrow> cint" where
  "numcorrect sts = foldl (\<lambda>n st. if valid st \<noteq> 0 then n + 1 else n) 0 sts"

definition verdict :: "'d fp \<Rightarrow> bool \<Rightarrow> cint \<Rightarrow> 'd stats_t list \<Rightarrow> 'd driver_line list" where
  "verdict F grader errs sts =
     (let ss = fp_sum F (map secs sts); os = fp_sum F (map st_ops sts); us = fp_sum F (map util sts);
          avg_mm_util = fp_div F us (fp_of F (int (length sts)));
          avg_mm_throughput = fp_div F (fp_div F os (fp_of F 1000)) ss;
          perfindex = (if errs = 0
            then fp_div F (fp_mul F (fp_mul F (fp_mul F avg_mm_util avg_mm_util) avg_mm_util) avg_mm_throughput) (fp_of F 135)
            else fp_of F 0)
      in (if errs = 0 then Score avg_mm_util avg_mm_throughput perfindex else TerminatedWith errs) #
         (if grader then [CorrectCount (numcorrect sts), PerfIdx perfindex] else []))"

subsection \<open>main\<close>

definition liftE :: "err + 'a \<Rightarrow> ('s, 'a) cmd" where
  "liftE r = (case r of Inl e \<Rightarrow> throwE e | Inr x \<Rightarrow> retE x)"

definition table :: "'d fp \<Rightarrow> config \<Rightarrow> 'd stats_t list \<Rightarrow> ('m driver, 'd driver_line list) cmd" where
  "table F cfg sts = getsE (\<lambda>s. if verbose cfg \<noteq> 0 then printresults F (errors s) sts else [])"

definition driver_main ::
  "'d fp \<Rightarrow> 'm platform \<Rightarrow> 'm allocator \<Rightarrow> team_t \<Rightarrow> (char \<times> string) list \<Rightarrow> ('m driver, 'd driver_line list) cmd" where
  "driver_main F P A tm argv =
     bindE (liftE (read_options argv driver_defaults)) (\<lambda>cfg.
     bindE (liftE (if team_check cfg then check_team tm else Inr [])) (\<lambda>who.
     bindE (if run_libc cfg
            then bindE (run_traces (libc_trace F P (tracedir cfg)) 0 (trace_names cfg)) (table F cfg)
            else retE []) (\<lambda>libc_table.
     bindE (on_heap (mem_init (arena P))) (\<lambda>_.
     bindE (run_traces (mm_trace F P A (tracedir cfg)) 0 (trace_names cfg)) (\<lambda>sts.
     bindE (table F cfg sts) (\<lambda>mm_table.
     bindE (getsE errors) (\<lambda>errs.
       retE (who @ libc_table @ mm_table @ verdict F (autograder cfg) errs sts))))))))"

subsection \<open>What reports nothing\<close>

named_theorems quiet_intros "driver commands that report no error"

definition quiet :: "'m driver \<Rightarrow> 'm driver \<Rightarrow> bool" where
  "quiet s t \<longleftrightarrow> errors t = errors s \<and> reports t = reports s"

lemma quiet_cmds [quiet_intros]:
  "keeps quiet (retE x)" "keeps quiet (throwE e)" "keeps quiet (getsE g)" "keeps quiet app_error" "keeps quiet unix_error"
  "keeps quiet (on_heap c)" "keeps quiet (load_trace fs J dir name)" "keeps quiet (read_op i)" "keeps quiet (read_block i)"
  "keeps quiet (write_block i p)" "keeps quiet (read_size i)" "keeps quiet (write_size i n)"
  by (auto simp: keeps_def quiet_def cmd_defs app_error_def unix_error_def on_heap_def load_trace_def array_defs
      split: sum.splits if_splits)

lemma quiet_bindE [quiet_intros]:
  "keeps quiet m \<Longrightarrow> (\<And>x. keeps quiet (f x)) \<Longrightarrow> keeps quiet (bindE m f)"
  by (rule keeps_bindE) (auto simp: transp_def quiet_def)

lemma quiet_steps [quiet_intros]:
  "keeps quiet (util_step A i acc)" "keeps quiet (speed_step A i)"
  by (cases acc) (auto simp: util_step_def speed_step_def Let_def split: request_type.splits intro!: quiet_intros)

lemma quiet_loops [quiet_intros]:
  "keeps quiet (util_loop A n i acc)" "keeps quiet (speed_loop A n i)"
  by (induction n arbitrary: i acc) (simp_all add: quiet_intros)

lemma quiet_report_exit: "keeps quiet (bindE (whenE b (malloc_error tn i w)) (\<lambda>_. unix_error))"
  by (auto simp: keeps_def unix_error_def whenE_def)

lemma quiet_libc [quiet_intros]: "keeps quiet (libc_step L b tn i)" "keeps quiet (libc_loop L b tn n i)"
proof -
  show s: "keeps quiet (libc_step L b tn i)" for i
    by (auto simp: libc_step_def Let_def split: request_type.splits intro!: quiet_intros quiet_report_exit)
  show "keeps quiet (libc_loop L b tn n i)"
    by (induction n arbitrary: i) (simp_all add: quiet_intros s)
qed

lemma quiet_fsecs [quiet_intros]:
  assumes "keeps quiet c" "keeps quiet f"
  shows "keeps quiet (fsecs F c f)"
proof -
  have "keeps quiet (repeat_op n f)" for n 
    by (induction n) (auto simp only: repeat_op.simps intro!: quiet_intros assms)
  then show ?thesis unfolding fsecs_def ftimer_gettod_def
    by (auto simp: Let_def intro!: quiet_intros assms split: prod.splits)
qed

lemma quiet_evals [quiet_intros]:
  "keeps quiet (eval_mm_util ddiv A)" "keeps quiet (eval_mm_speed A)"
  "keeps quiet (eval_libc_valid A tn)" "keeps quiet (eval_libc_speed A)"
  by (auto simp: eval_mm_util_def eval_mm_speed_def eval_libc_valid_def eval_libc_speed_def
      split: prod.splits intro!: quiet_intros)

lemma quiet_libc_trace [quiet_intros]: "keeps quiet (libc_trace F P dir i name)"
  by (auto simp: libc_trace_def Let_def intro!: quiet_intros)

lemma quiet_run_traces:
  "(\<And>i name. keeps quiet (eval i name)) \<Longrightarrow> keeps quiet (run_traces eval i names)"
  by (induction names arbitrary: i) (simp_all add: quiet_intros)

lemma keeps_quietD: "keeps quiet m \<Longrightarrow> m s = Inr (x, t) \<Longrightarrow> errors t = errors s \<and> reports t = reports s"
  by (drule keepsD) (simp_all add: quiet_def)

subsection \<open>One trace, one error\<close>

definition failed :: "'d stats_t list \<Rightarrow> nat" where
  "failed sts = length (filter (\<lambda>st. valid st = 0) sts)"

context allocator
begin

lemma mm_trace_result:
  assumes run: "mm_trace F P A dir i name s = Inr (st, t)"
  shows "(valid st = 1 \<and> errors t = errors s \<and> length (reports t) = length (reports s)) \<or>
    (valid st = 0 \<and> errors t = errors s + 1 \<and> length (reports t) = Suc (length (reports s)))" (is "?counts")
    and "filename st = name"
proof -
  obtain s1 where s1: "load_trace (files P) (fresh P True i) dir name s = Inr ((), s1)"
    using run unfolding mm_trace_def by (elim bindE_InrE) simp
  obtain ok s2 where s2: "eval_mm_valid A i s1 = Inr (ok, s2)"
    using run s1 unfolding mm_trace_def by (auto simp: bindE_def split: sum.splits)
  have q: "errors s1 = errors s" "reports s1 = reports s"
    using keeps_quietD [OF quiet_cmds(7) s1] by simp_all
  have r: "ok = 1 \<and> errors s2 = errors s \<and> reports s2 = reports s \<or>
      ok = 0 \<and> errors s2 = errors s + 1 \<and> (\<exists>x. reports s2 = reports s @ [x])"
    using eval_mm_valid_result [OF s2] q by simp
  let ?rest = "bindE (eval_mm_util (\<lambda>a b. fp_div F (fp_of F (sint a)) (fp_of F (sint b))) A) (\<lambda>(ideal, hmax, u).
       bindE (fsecs F (on_heap (gettod P)) (eval_mm_speed A)) (\<lambda>x.
         retE ((cleared_stats F)\<lparr>filename := name, st_ops := fp_of F (sint (num_ops (trace s1))), valid := ok,
           util := u, max_heap := hmax, ideal_max_heap := ideal, secs := x\<rparr>)))"
  have qr: "keeps quiet ?rest" by (auto intro!: quiet_intros split: prod.splits)
  have "?counts \<and> filename st = name"
  proof (cases "ok = 0")
    case True
    then show ?thesis using run s1 s2 r by (auto simp: mm_trace_def bindE_def Let_def split: if_splits)
  next
    case False
    then have e: "?rest s2 = Inr (st, t)" using run s1 s2 unfolding mm_trace_def by (simp add: bindE_cases Let_def)
    have "valid st = ok" "filename st = name" using e by (auto elim!: bindE_InrE split: prod.splits)
    then show ?thesis using keeps_quietD [OF qr e] r False by auto
  qed
  then show ?counts "filename st = name" by simp_all
qed

lemma run_traces_result:
  "run_traces (mm_trace F P A dir) i names s = Inr (sts, t) \<Longrightarrow>
    map filename sts = names \<and> (\<forall>st\<in>set sts. valid st = 0 \<or> valid st = 1) \<and>
    errors t = errors s + of_nat (failed sts) \<and> length (reports t) = length (reports s) + failed sts"
proof (induction names arbitrary: i s sts)
  case (Cons name names)
  from Cons.prems obtain st u sts' where r: "mm_trace F P A dir i name s = Inr (st, u)"
    "run_traces (mm_trace F P A dir) (i + 1) names u = Inr (sts', t)" "sts = st # sts'"
    by (auto elim!: bindE_InrE)
  then show ?case using mm_trace_result [OF r(1)] Cons.IH [OF r(2)] by (auto simp: failed_def)
qed (simp add: failed_def)

end

lemma numcorrect_count:
  "(\<forall>st\<in>set sts. valid st = 0 \<or> valid st = 1) \<Longrightarrow> numcorrect sts = of_nat (length sts - failed sts)"
proof -
  have f: "failed sts \<le> length sts" for sts :: "'d stats_t list" by (simp add: failed_def)
  have "foldl (\<lambda>n st. if valid st \<noteq> 0 then n + 1 else n) k sts = k + of_nat (length (filter (\<lambda>st. valid st \<noteq> 0) sts))" for k :: cint
    by (induction sts arbitrary: k) simp_all
  moreover have "length (filter (\<lambda>st. valid st \<noteq> 0) sts) = length sts - failed sts"
    using sum_length_filter_compl [of "\<lambda>st. valid st \<noteq> 0" sts] by (simp add: failed_def)
  ultimately show ?thesis by (simp add: numcorrect_def)
qed

subsection \<open>The options\<close>

definition usable :: "config \<Rightarrow> bool" where
  "usable cfg \<longleftrightarrow> tracedir cfg \<noteq> [] \<and> last (tracedir cfg) = CHR ''/'' \<and> length (tracedir cfg) < MAXLINE \<and>
     (\<forall>fs. tracefiles cfg = Some fs \<longrightarrow> length fs = 1 \<and> tracedir cfg = ''./'')"

lemma read_option_usable: "read_option a cfg = Inr cfg' \<Longrightarrow> usable cfg \<Longrightarrow> usable cfg'"
  by (auto simp: read_option_def set_tracedir_def usable_def Let_def MAXLINE_def split: if_splits)

lemma read_options_usable: "read_options argv cfg = Inr cfg' \<Longrightarrow> usable cfg \<Longrightarrow> usable cfg'"
  by (induction argv arbitrary: cfg) (auto split: sum.splits dest: read_option_usable)

lemma usable_defaults: "usable driver_defaults"
  by (simp add: usable_def driver_defaults_def TRACEDIR_def MAXLINE_def)

lemma usable_names: "usable cfg \<Longrightarrow> 0 < length (trace_names cfg) \<and> length (trace_names cfg) \<le> 9"
  by (auto simp: usable_def trace_names_def default_tracefiles_def split: option.splits)

subsection \<open>From main to the traces\<close>

lemma driver_mainE:
  assumes "driver_main F P A tm argv s = Inr (ls, t)"
  obtains cfg pre sts u where "read_options argv driver_defaults = Inr cfg"
    and "run_traces (mm_trace F P A (tracedir cfg)) 0 (trace_names cfg) u = Inr (sts, t)"
    and "errors u = errors s" "reports u = reports s"
    and "ls = pre @ verdict F (autograder cfg) (errors t) sts"
proof -
  from assms obtain cfg s1 where cfg: "liftE (read_options argv driver_defaults) s = Inr (cfg, s1)"
    and r1: "bindE (liftE (if team_check cfg then check_team tm else Inr [])) (\<lambda>who.
     bindE (if run_libc cfg
            then bindE (run_traces (libc_trace F P (tracedir cfg)) 0 (trace_names cfg)) (table F cfg)
            else retE []) (\<lambda>libc_table.
     bindE (on_heap (mem_init (arena P))) (\<lambda>_.
     bindE (run_traces (mm_trace F P A (tracedir cfg)) 0 (trace_names cfg)) (\<lambda>sts.
     bindE (table F cfg sts) (\<lambda>mm_table.
     bindE (getsE errors) (\<lambda>errs.
       retE (who @ libc_table @ mm_table @ verdict F (autograder cfg) errs sts))))))) s1 = Inr (ls, t)"
    unfolding driver_main_def by (rule bindE_InrE)
  have c: "read_options argv driver_defaults = Inr cfg" "s1 = s"
    using cfg by (auto simp: liftE_def split: sum.splits)
  have ql: "keeps quiet (if run_libc cfg then bindE (run_traces (libc_trace F P (tracedir cfg)) 0 (trace_names cfg)) (table F cfg)
            else retE [])"
    by (auto simp: table_def intro!: quiet_intros quiet_run_traces)
  have qw: "keeps quiet (liftE x)" for x by (auto simp: liftE_def split: sum.splits intro!: quiet_intros)
  from r1 obtain who s2 lt s3 s4 sts where r: 
    "liftE (if team_check cfg then check_team tm else Inr []) s = Inr (who, s2)"
    "(if run_libc cfg then bindE (run_traces (libc_trace F P (tracedir cfg)) 0 (trace_names cfg)) (table F cfg) else retE []) s2 = Inr (lt, s3)"
    "on_heap (mem_init (arena P)) s3 = Inr ((), s4)"
    "run_traces (mm_trace F P A (tracedir cfg)) 0 (trace_names cfg) s4 = Inr (sts, t)"
    "\<exists>m. ls = who @ lt @ m @ verdict F (autograder cfg) (errors t) sts"
    unfolding c(2) table_def by (elim bindE_InrE) auto
  have "errors s4 = errors s" "reports s4 = reports s"
    using keeps_quietD [OF qw r(1)] keeps_quietD [OF ql r(2)] keeps_quietD [OF quiet_cmds(6) r(3)] by simp_all
  then show thesis using that [OF c(1) r(4)] r(5) by (metis append_assoc)
qed

subsection \<open>Properties\<close>

lemma sint_small: "n \<le> 9 \<Longrightarrow> sint (of_nat n :: cint) = int n"
  by (simp add: signed_of_nat signed_take_bit_int_eq_self)

text \<open>
  C7: The result of a run. If \<open>main\<close> returns, for an allocator that does not move the arena, then
  there are statistics for exactly the selected trace files, in their order, and the report ends
  with the score or with the number of errors. That number is the number of traces judged
  invalid: each invalid trace makes one report and counts one error, and nothing else does; the
  autograder's \<open>correct\<close> is the number of the other traces.
\<close>

theorem driver_verdict:
  assumes "allocator A" "errors s = 0" "driver_main F P A tm argv s = Inr (ls, t)"
  shows "\<exists>cfg pre sts. read_options argv driver_defaults = Inr cfg \<and> map filename sts = trace_names cfg \<and>
    ls = pre @ verdict F (autograder cfg) (errors t) sts \<and>
    (\<forall>st\<in>set sts. valid st = 0 \<or> valid st = 1) \<and> sint (errors t) = int (failed sts) \<and>
    sint (numcorrect sts) = int (length sts - failed sts) \<and> length (reports t) = length (reports s) + failed sts"
proof -
  obtain cfg pre sts u where c: "read_options argv driver_defaults = Inr cfg"
    and r: "run_traces (mm_trace F P A (tracedir cfg)) 0 (trace_names cfg) u = Inr (sts, t)"
    and u: "errors u = errors s" "reports u = reports s" and ls: "ls = pre @ verdict F (autograder cfg) (errors t) sts"
    using assms(3) by (rule driver_mainE)
  note m = allocator.run_traces_result [OF assms(1) r]
  have "length sts = length (trace_names cfg)" using m length_map by metis
  then have "length sts \<le> 9" using usable_names [OF read_options_usable [OF c usable_defaults]] by simp
  then have "failed sts \<le> 9" "length sts - failed sts \<le> 9"
    using length_filter_le [of "\<lambda>st. valid st = 0" sts] unfolding failed_def by linarith+
  then have "sint (of_nat (failed sts) :: cint) = int (failed sts)"
    "sint (of_nat (length sts - failed sts) :: cint) = int (length sts - failed sts)"
    by (simp_all add: sint_small)
  moreover have "numcorrect sts = of_nat (length sts - failed sts)" using m by (intro numcorrect_count) simp
  ultimately show ?thesis using c m u ls assms(2) by (intro exI [of _ cfg] exI [of _ pre] exI [of _ sts]) auto
qed

text \<open>A machine with one trace file, without requests, and an arena at address 4096.\<close>

definition empty_trace :: trace_t where
  "empty_trace = \<lparr>sugg_heapsize = 0, num_ids = 1, num_ops = 0, weight = 1, trace_ops = [], blocks = [0], block_sizes = [0]\<rparr>"

definition small_machine :: "trace_t \<Rightarrow> 'm platform" where
  "small_machine t = \<lparr>files = (\<lambda>_. Some (render_trace t)), fresh = (\<lambda>_ _. zero_junk),
     gettod = getsE (\<lambda>_. (0, 0)), arena = (\<lambda>_. 4096), libc = bump_allocator\<rparr>"

lemma empty_read: "length (dir @ name) < 500 \<Longrightarrow> read_trace (\<lambda>_. Some (render_trace empty_trace)) zero_junk dir name = Inr empty_trace"
  by (rule read_rendered) (simp_all add: Trace.complete_def empty_trace_def zero_junk_def max_index_def)

lemma repeat_fixed: "f s = Inr ((), s) \<Longrightarrow> repeat_op n f s = Inr ((), s)"
  by (induction n) (simp_all add: bindE_def)

lemma empty_run:
  fixes s :: "unit driver"
  assumes "errors s = 0"
  shows "\<exists>t. driver_main real_fp (small_machine empty_trace) bump_allocator team
    [(CHR ''a'', []), (CHR ''f'', ''e.rep''), (CHR ''g'', [])] s = Inr ([Score 1 0 0, CorrectCount 1, PerfIdx 0], t)"
proof -
  let ?P = "small_machine empty_trace :: unit platform"
  let ?h = "(heap s)\<lparr>mem_start_brk := 4096, mem_max_addr := 4096 + MAX_HEAP, mem_brk := 4096\<rparr>"
  have i: "on_heap (mem_init (arena ?P)) s = Inr ((), s\<lparr>heap := ?h\<rparr>)"
    by (simp add: on_heap_def mem_init_def small_machine_def NULL_def)
  have "mm_trace real_fp ?P bump_allocator ''./'' 0 ''e.rep'' (s\<lparr>heap := ?h\<rparr>) =
    Inr (\<lparr>filename = ''e.rep'', st_ops = 0, valid = 1, secs = 0, ideal_max_heap = 65536, max_heap = 65536, util = 1\<rparr>,
      s\<lparr>heap := ?h, trace := empty_trace, ranges := []\<rparr>)"
    apply (simp add: mm_trace_def load_trace_def small_machine_def empty_read bindE_step eval_mm_valid_def)
    apply (simp add: bindE_def on_heap_def mem_reset_brk_def clear_ranges_def bump_free empty_trace_def cleared_stats_def
      eval_mm_util_def eval_mm_speed_def fsecs_def ftimer_gettod_def mem_heapsize_def repeat_fixed FREE_HEAP_def)
    done
  then show ?thesis
    apply (simp add: driver_main_def liftE_def read_option_def driver_defaults_def trace_names_def Let_def)
    apply (simp add: bindE_step i table_def verdict_def numcorrect_def fp_sum_def assms)
    done
qed

theorem driver_verdict_witness:
  "\<exists>t :: unit driver. driver_main real_fp (small_machine empty_trace) bump_allocator team
     [(CHR ''a'', []), (CHR ''f'', ''e.rep''), (CHR ''g'', [])] sample_driver = Inr ([Score 1 0 0, CorrectCount 1, PerfIdx 0], t) \<and>
     sint (errors t) = 0"
proof -
  have e: "errors sample_driver = 0" by (simp add: sample_driver_def)
  obtain t where t: "driver_main real_fp (small_machine empty_trace) bump_allocator team
     [(CHR ''a'', []), (CHR ''f'', ''e.rep''), (CHR ''g'', [])] sample_driver = Inr ([Score 1 0 0, CorrectCount 1, PerfIdx 0], t)"
    using empty_run [OF e] by blast
  from driver_verdict [OF bump.allocator_axioms e t] obtain cfg :: config and pre and sts :: "real stats_t list" where
    "[Score 1 0 0, CorrectCount 1, PerfIdx 0] = pre @ verdict real_fp (autograder cfg) (errors t) sts"
    "sint (errors t) = int (failed sts)" by blast
  moreover have "errors t = 0" if "[Score 1 0 0, CorrectCount 1, PerfIdx (0 :: real)] = pre @ verdict real_fp (autograder cfg) (errors t) sts"
    using that by (cases "autograder cfg"; cases pre) (auto simp: verdict_def Let_def Cons_eq_append_conv split: if_splits)
  ultimately show ?thesis using t by auto
qed

end
