(* ===== verification/DriverContract.thy ===== *)
theory DriverContract
  imports DriverSound Trace
begin

section \<open>What a correct allocator promises, and the driver's check of it (mdriver.c)\<close>

text \<open>
  The other direction of what \<^verbatim>\<open>labs/malloclab/mdriver.c\<close> establishes: \<open>eval_mm_valid\<close> does not
  report errors that are not there. The contract an allocator is held to is the locale
  \<open>correct_allocator\<close>, which extends \<open>allocator\<close> by a relation \<open>live\<close> between the state of the
  heap and the payloads handed out. Under it every step of the check goes through: the range list
  is the list of the live payloads, the trace's arrays hold their addresses and sizes, and each
  payload holds the byte of its id. \<open>DriverRuns\<close> goes on from there to \<open>main\<close>;
  \<open>ImplicitAllocator\<close> has an instance of the contract.
\<close>

subsection \<open>Payloads and the contract\<close>

text \<open>
  The payloads handed out and not yet freed: a map from address to requested size. The
  contract is about requests of at most \<open>2 ^ 31 - 1\<close> bytes (the driver's sizes are \<open>int\<close>) on the arena
  that \<open>mem_init\<close> sets up. A request of \<open>k\<close> bytes may move the break by \<open>cost k\<close> and must be granted when
  the arena has room for that; of a request without room nothing is promised.
\<close>

type_synonym payloads = "int \<rightharpoonup> int"

definition payload_ok :: "'m memlib_scheme \<Rightarrow> int \<Rightarrow> int \<Rightarrow> bool" where
  "payload_ok h p n \<longleftrightarrow> 0 < n \<and> n < 2 ^ 31 \<and> IS_ALIGNED p \<and> mem_start_brk h \<le> p \<and> p + n \<le> mem_brk h \<and> mem_brk h \<le> mem_max_addr h"

definition disjoint_payloads :: "payloads \<Rightarrow> bool" where
  "disjoint_payloads L \<longleftrightarrow> (\<forall>p q n m. L p = Some n \<longrightarrow> L q = Some m \<longrightarrow> p \<noteq> q \<longrightarrow> p + n \<le> q \<or> q + m \<le> p)"

definition untouched :: "payloads \<Rightarrow> 'm memlib_scheme \<Rightarrow> 'm memlib_scheme \<Rightarrow> bool" where
  "untouched L h h' \<longleftrightarrow> (\<forall>p n a. L p = Some n \<longrightarrow> p \<le> a \<longrightarrow> a < p + n \<longrightarrow> mem h' a = mem h a)"

definition arena_ok :: "'m memlib_scheme \<Rightarrow> bool" where
  "arena_ok h \<longleftrightarrow> 0 < mem_start_brk h \<and> 8 dvd mem_start_brk h \<and> mem_max_addr h = mem_start_brk h + MAX_HEAP \<and> mem_max_addr h < 2 ^ 64"

definition request_size :: "uint64 \<Rightarrow> bool" where
  "request_size n \<longleftrightarrow> 0 < uint n \<and> uint n < 2 ^ 31"

definition grows :: "int \<Rightarrow> 'm memlib_scheme \<Rightarrow> 'm memlib_scheme \<Rightarrow> bool" where
  "grows c h h' \<longleftrightarrow> mem_brk h' \<le> mem_brk h + c \<and> mem_start_brk h' = mem_start_brk h \<and> mem_max_addr h' = mem_max_addr h"

definition has_room :: "int \<Rightarrow> 'm memlib_scheme \<Rightarrow> bool" where
  "has_room c h \<longleftrightarrow> mem_brk h + c \<le> mem_max_addr h"

locale correct_allocator = allocator A for A :: "'m allocator" +
  fixes live :: "'m memlib_scheme \<Rightarrow> payloads \<Rightarrow> bool"
    and cost :: "uint64 \<Rightarrow> int" and start_cost :: int
  assumes live_payload: "live h L \<Longrightarrow> L p = Some n \<Longrightarrow> payload_ok h p n"
    and live_disjoint: "live h L \<Longrightarrow> disjoint_payloads L"
    and live_write: "live h L \<Longrightarrow> L p = Some n \<Longrightarrow> p \<le> a \<Longrightarrow> a < p + n \<Longrightarrow> live (h\<lparr>mem := (mem h)(a := v)\<rparr>) L"
    and cost_nonneg: "0 \<le> cost k"
    and init_law: "arena_ok h \<Longrightarrow> mem_brk h = mem_start_brk h \<Longrightarrow> has_room start_cost h \<Longrightarrow>
      \<exists>r h'. init_op A h = Inr (r, h') \<and> 0 \<le> sint r \<and> live h' Map.empty \<and> grows start_cost h h'"
    and malloc_law: "live h L \<Longrightarrow> request_size k \<Longrightarrow> has_room (cost k) h \<Longrightarrow>
      \<exists>p h'. malloc_op A k h = Inr (p, h') \<and> p \<noteq> NULL \<and> L p = None \<and>
        live h' (L(p \<mapsto> uint k)) \<and> untouched L h h' \<and> grows (cost k) h h'"
    and free_law: "live h L \<Longrightarrow> L p = Some n \<Longrightarrow>
      \<exists>h'. free_op A p h = Inr ((), h') \<and> live h' (L(p := None)) \<and> untouched (L(p := None)) h h' \<and> grows 0 h h'"
    and realloc_law: "live h L \<Longrightarrow> L p = Some m \<Longrightarrow> request_size k \<Longrightarrow> has_room (cost k) h \<Longrightarrow>
      \<exists>q h'. realloc_op A p k h = Inr (q, h') \<and> q \<noteq> NULL \<and> (L(p := None)) q = None \<and>
        live h' ((L(p := None))(q \<mapsto> uint k)) \<and> untouched (L(p := None)) h h' \<and>
        (\<forall>i. 0 \<le> i \<longrightarrow> i < min m (uint k) \<longrightarrow> mem h' (q + i) = mem h (p + i)) \<and> grows (cost k) h h'"

subsection \<open>Well-formed request sequences\<close>

text \<open>
  The ids in \<open>I\<close> are live: an id is allocated when it is not live and freed or reallocated when
  it is, sizes are positive, and a reallocated id has a low byte below 128, since
  \<open>data_preserved\<close> rejects the others (\<open>data_preserved_exact\<close>).
\<close>

fun requests_ok :: "nat \<Rightarrow> nat set \<Rightarrow> traceop_t list \<Rightarrow> bool" where
  "requests_ok N I [] \<longleftrightarrow> True"
| "requests_ok N I (p # ps) \<longleftrightarrow>
     0 \<le> sint (op_index p) \<and> sint (op_index p) < int N \<and>
     (let i = nat (sint (op_index p)) in
      case op_type p of
        ALLOC \<Rightarrow> i \<notin> I \<and> 0 < sint (op_size p) \<and> requests_ok N (insert i I) ps
      | REALLOC \<Rightarrow> i \<in> I \<and> 0 < sint (op_size p) \<and> op_index p AND 0xFF < 128 \<and> requests_ok N I ps
      | FREE \<Rightarrow> i \<in> I \<and> requests_ok N (I - {i}) ps)"

definition request_cost :: "(uint64 \<Rightarrow> int) \<Rightarrow> traceop_t \<Rightarrow> int" where
  "request_cost cost p = (if op_type p = FREE then 0 else cost (scast (op_size p)))"

definition trace_cost :: "(uint64 \<Rightarrow> int) \<Rightarrow> traceop_t list \<Rightarrow> int" where
  "trace_cost cost ops = sum_list (map (request_cost cost) ops)"

text \<open>A trace that the driver can evaluate on an arena with room for it.\<close>

definition runnable :: "(uint64 \<Rightarrow> int) \<Rightarrow> int \<Rightarrow> trace_t \<Rightarrow> bool" where
  "runnable cost start_cost T \<longleftrightarrow> length (block_sizes T) = length (blocks T) \<and> requests_ok (length (blocks T)) {} (trace_ops T) \<and>
     num_ops T = word_of_nat (length (trace_ops T)) \<and> length (trace_ops T) < 2 ^ 31 \<and>
     start_cost + trace_cost cost (trace_ops T) \<le> MAX_HEAP"

subsection \<open>What the driver knows of the live payloads\<close>

definition listed :: "range_t list \<Rightarrow> payloads \<Rightarrow> bool" where
  "listed rs L \<longleftrightarrow> distinct (map range_lo rs) \<and> set rs = {\<lparr>range_lo = p, range_hi = p + n - 1\<rparr> | p n. L p = Some n}"

definition block_of :: "'m driver \<Rightarrow> nat \<Rightarrow> int" where "block_of s i = blocks (trace s) ! i"
definition size_at :: "'m driver \<Rightarrow> nat \<Rightarrow> int" where "size_at s i = uint (block_sizes (trace s) ! i)"

definition owned :: "'m driver \<Rightarrow> payloads \<Rightarrow> nat set \<Rightarrow> bool" where
  "owned s L I \<longleftrightarrow> inj_on (block_of s) I \<and> dom L = block_of s ` I \<and>
     (\<forall>i\<in>I. L (block_of s i) = Some (size_at s i))"

definition filled :: "'m driver \<Rightarrow> nat set \<Rightarrow> bool" where
  "filled s I \<longleftrightarrow> (\<forall>i\<in>I. \<forall>a. block_of s i \<le> a \<longrightarrow> a < block_of s i + size_at s i \<longrightarrow>
     mem (heap s) a = word_of_nat i)"

definition in_arrays :: "'m driver \<Rightarrow> nat \<Rightarrow> nat set \<Rightarrow> bool" where
  "in_arrays s N I \<longleftrightarrow> length (blocks (trace s)) = N \<and> length (block_sizes (trace s)) = N \<and> (\<forall>i\<in>I. i < N)"

lemma listed_cons:
  assumes "listed rs L" "L p = None"
  shows "listed (\<lparr>range_lo = p, range_hi = p + n - 1\<rparr> # rs) (L(p \<mapsto> n))"
proof -
  have "p \<notin> set (map range_lo rs)" using assms by (auto simp: listed_def)
  then show ?thesis using assms unfolding listed_def by (auto split: if_splits)
qed

lemma drop_range_set:
  "distinct (map range_lo rs) \<Longrightarrow> set (drop_range lo rs) = {r \<in> set rs. range_lo r \<noteq> lo} \<and> distinct (map range_lo (drop_range lo rs))"
proof (induction rs)
  case (Cons r rs)
  have "set (drop_range lo rs) \<subseteq> set rs" by (rule drop_range_subset)
  then show ?case using Cons by (auto simp: image_iff)
qed simp

lemma listed_drop:
  assumes "listed rs L"
  shows "listed (drop_range p rs) (L(p := None))"
  using assms drop_range_set [of rs p] unfolding listed_def by auto

lemma listed_no_overlap:
  assumes "listed rs L" "disjoint_payloads (L(p \<mapsto> n))" "L p = None" "0 < n" "\<And>q m. L q = Some m \<Longrightarrow> 0 < m"
  shows "find_overlap p (p + n - 1) rs = None"
  unfolding find_overlap_None
proof
  fix r assume "r \<in> set rs"
  then obtain q m where r: "r = \<lparr>range_lo = q, range_hi = q + m - 1\<rparr>" "L q = Some m"
    using assms(1) by (auto simp: listed_def)
  then have "p \<noteq> q" "(L(p \<mapsto> n)) p = Some n" "(L(p \<mapsto> n)) q = Some m" using assms(3) by auto
  then have "p + n \<le> q \<or> q + m \<le> p" using assms(2) unfolding disjoint_payloads_def by metis
  then show "\<not> (range_lo r \<le> p \<and> p \<le> range_hi r) \<and> \<not> (range_lo r \<le> p + n - 1 \<and> p + n - 1 \<le> range_hi r)"
    using r assms(4) assms(5) [OF r(2)] by auto
qed

lemma add_range_accepts:
  assumes "listed (ranges s) L" "L p = None" "disjoint_payloads (L(p \<mapsto> sint sz))" "payload_ok (heap s) p (sint sz)"
    "\<And>q m. L q = Some m \<Longrightarrow> 0 < m"
  shows "add_range p sz tn i s = Inr (1, s\<lparr>ranges := \<lparr>range_lo = p, range_hi = p + sint sz - 1\<rparr> # ranges s\<rparr>)"
proof -
  have "find_overlap p (p + sint sz - 1) (ranges s) = None"
    by (rule listed_no_overlap [OF assms(1,3,2) _ assms(5)]) (use assms(4) in \<open>simp_all add: payload_ok_def\<close>)
  then show ?thesis using assms(4)
    by (auto simp: add_range_def payload_ok_def mem_heap_lo_def mem_heap_hi_def Let_def)
qed

subsection \<open>Sizes and ids as words\<close>

lemma positive_size:
  assumes "0 < sint (sz :: cint)"
  shows "uint (scast sz :: uint64) = sint sz" "unat (scast sz :: uint64) = nat (sint sz)"
    "request_size (scast sz)" "ucast (scast sz :: uint64) = sz"
proof -
  have b: "sint sz < 2 ^ 31" using sint_less [of sz] by simp
  show u: "uint (scast sz :: uint64) = sint sz"
  proof -
    have "uint (scast sz :: uint64) = sint sz mod 2 ^ LENGTH(64)" by (simp only: scast_eq uint_word_of_int)
    also have "\<dots> = sint sz" using assms b by (intro mod_pos_pos_trivial) auto
    finally show ?thesis .
  qed
  then show "unat (scast sz :: uint64) = nat (sint sz)" by (simp add: unat_eq_nat_uint)
  show "request_size (scast sz)" using assms b by (simp add: request_size_def u)
  show "ucast (scast sz :: uint64) = sz" unfolding ucast_eq u by simp
qed

lemma sint_ucast_small:
  assumes "uint (w :: uint64) < 2 ^ 31"
  shows "sint (ucast w :: cint) = uint w"
proof -
  have "sint (ucast w :: cint) = sint (word_of_int (uint w) :: cint)" by (simp only: ucast_eq)
  also have "\<dots> = signed_take_bit (LENGTH(32) - 1) (uint w)" by (rule sint_sbintrunc')
  also have "\<dots> = uint w"
  proof (rule signed_take_bit_int_eq_self)
    have "0 \<le> uint w" by simp
    then show "- (2 ^ (LENGTH(32) - 1)) \<le> uint w" by (rule order_trans [rotated]) simp
  qed (use assms in simp)
  finally show ?thesis .
qed

lemma id_byte:
  assumes "0 \<le> sint (i :: cint)"
  shows "(ucast i :: byte) = word_of_nat (nat (sint i))"
proof -
  have "i = word_of_nat (nat (sint i))" using assms by simp
  then have "(ucast i :: byte) = ucast (word_of_nat (nat (sint i)) :: cint)" by simp
  also have "\<dots> = word_of_nat (nat (sint i))" by (rule bit_word_eqI) (simp add: bit_simps bit_of_nat_iff_bit)
  finally show ?thesis .
qed

lemma low_byte: "(ucast (index AND 0xFF :: cint) :: byte) = ucast index"
  unfolding and_low_mask by (rule bit_word_eqI) (auto simp: bit_simps)

subsection \<open>The invariant of the loop\<close>

text \<open>A step that reports nothing, leaves the requests alone and moves the break by at most \<open>c\<close>.\<close>

definition settled :: "'m driver \<Rightarrow> 'm driver \<Rightarrow> bool" where
  "settled s t \<longleftrightarrow> trace_ops (trace t) = trace_ops (trace s) \<and> num_ops (trace t) = num_ops (trace s) \<and>
     length (blocks (trace t)) = length (blocks (trace s)) \<and>
     length (block_sizes (trace t)) = length (block_sizes (trace s)) \<and> errors t = errors s \<and> reports t = reports s"

definition calm :: "int \<Rightarrow> 'm driver \<Rightarrow> 'm driver \<Rightarrow> bool" where
  "calm c s t \<longleftrightarrow> settled s t \<and> grows c (heap s) (heap t)"

lemma arrays_cong:
  assumes "trace t = trace s"
  shows "block_of t = block_of s" "size_at t = size_at s" "owned t = owned s" "in_arrays t = in_arrays s"
    "heap t = heap s \<Longrightarrow> filled t = filled s"
proof -
  show b: "block_of t = block_of s" "size_at t = size_at s" by (rule ext, simp add: block_of_def size_at_def assms)+
  show "owned t = owned s" "in_arrays t = in_arrays s" "heap t = heap s \<Longrightarrow> filled t = filled s"
    by (intro ext, simp add: owned_def in_arrays_def filled_def b assms)+
qed

lemma owned_remove:
  assumes "owned s L I" "i \<in> I"
  shows "owned s (L(block_of s i := None)) (I - {i})"
  using assms unfolding owned_def by (auto simp: inj_on_def)

lemma filled_untouched:
  assumes "filled s I" "owned s L I" "untouched L (heap s) h'"
  shows "filled (s\<lparr>heap := h'\<rparr>) I"
  unfolding filled_def
proof (intro ballI allI impI)
  let ?s = "s\<lparr>heap := h'\<rparr>"
  fix i a assume i: "i \<in> I" and a: "block_of ?s i \<le> a" "a < block_of ?s i + size_at ?s i"
  have b: "block_of ?s i = block_of s i" "size_at ?s i = size_at s i" by (simp_all add: block_of_def size_at_def)
  have "L (block_of s i) = Some (size_at s i)" using assms(2) i by (simp add: owned_def)
  then have "mem h' a = mem (heap s) a" using assms(3) a unfolding b untouched_def by blast
  then show "mem (heap ?s) a = word_of_nat i" using assms(1) i a unfolding b filled_def by simp
qed

lemma fill_run:
  assumes "payload_ok (heap s) p (sint sz)"
  shows "fill p index sz s = Inr ((), s\<lparr>heap := (heap s)\<lparr>mem :=
     (\<lambda>a. if p \<le> a \<and> a < p + sint sz then ucast index else mem (heap s) a)\<rparr>\<rparr>)"
proof -
  have n: "0 < sint sz" using assms by (simp add: payload_ok_def)
  then have "accessible (heap s) p (int (nat (sint sz)))" using assms by (simp add: payload_ok_def accessible_def)
  from memset_run [OF this] show ?thesis using n
    by (simp add: fill_def on_heap_def positive_size(2) low_byte)
qed

context correct_allocator
begin

definition tracks :: "'m driver \<Rightarrow> nat \<Rightarrow> payloads \<Rightarrow> nat set \<Rightarrow> bool" where
  "tracks s N L I \<longleftrightarrow> live (heap s) L \<and> listed (ranges s) L \<and> owned s L I \<and> filled s I \<and> in_arrays s N I"

lemma live_fill:
  assumes "live h L" "L p = Some n" "int k \<le> n"
  shows "live (h\<lparr>mem := (\<lambda>a. if p \<le> a \<and> a < p + int k then c else mem h a)\<rparr>) L"
  using assms(3)
proof (induction k)
  case 0
  have "(\<lambda>a. if p \<le> a \<and> a < p + int 0 then c else mem h a) = mem h" by (rule ext) auto
  then show ?case using assms(1) by simp
next
  case (Suc k)
  let ?h = "h\<lparr>mem := (\<lambda>a. if p \<le> a \<and> a < p + int k then c else mem h a)\<rparr>"
  have "(\<lambda>a. if p \<le> a \<and> a < p + int (Suc k) then c else mem h a) = (mem ?h)(p + int k := c)" by (rule ext) auto
  moreover have "live ?h L" using Suc by simp
  ultimately show ?case using live_write [of ?h L p n "p + int k" c] assms(2) Suc.prems by simp
qed

lemma live_positive: "live h L \<Longrightarrow> L q = Some m \<Longrightarrow> 0 < m"
  using live_payload by (force simp: payload_ok_def)

lemma record_payload:
  assumes live: "live (heap s) (L(p \<mapsto> sint sz))" and new: "L p = None"
    and l: "listed (ranges s) (L(p \<mapsto> sint sz))" and o: "owned s L I" and f: "filled s I" and a: "in_arrays s N I"
    and i: "0 \<le> sint index" "sint index < int N" "nat (sint index) \<notin> I"
  shows "\<exists>t. bindE (fill p index sz) (\<lambda>_. bindE (write_block index p) (\<lambda>_.
     bindE (write_size index (scast sz)) (\<lambda>_. retE True))) s = Inr (True, t) \<and>
     tracks t N (L(p \<mapsto> sint sz)) (insert (nat (sint index)) I) \<and> calm 0 s t"
proof -
  let ?i = "nat (sint index)"
  let ?m = "\<lambda>a. if p \<le> a \<and> a < p + sint sz then ucast index else mem (heap s) a"
  let ?t = "s\<lparr>heap := (heap s)\<lparr>mem := ?m\<rparr>, trace := (trace s)\<lparr>blocks := (blocks (trace s))[?i := p],
     block_sizes := (block_sizes (trace s))[?i := scast sz]\<rparr>\<rparr>"
  have ok: "payload_ok (heap s) p (sint sz)" using live_payload [OF live] by simp
  then have sz: "0 < sint sz" by (simp add: payload_ok_def)
  have idx: "array_index index (blocks (trace s))" "array_index index (block_sizes (trace s))" "?i < N"
    using a i by (auto simp: array_index_def in_arrays_def)
  have run: "bindE (fill p index sz) (\<lambda>_. bindE (write_block index p) (\<lambda>_.
     bindE (write_size index (scast sz)) (\<lambda>_. retE True))) s = Inr (True, ?t)"
    using idx by (simp add: bindE_step fill_run [OF ok] array_run)
  have b: "block_of ?t j = (if j = ?i then p else block_of s j)" "size_at ?t j = (if j = ?i then sint sz else size_at s j)"
    if "j < N" for j
    using that a idx(3) positive_size(1) [OF sz] by (auto simp: block_of_def size_at_def in_arrays_def nth_list_update)
  have lt: "j < N" "j \<noteq> ?i" if "j \<in> I" for j using that a i(3) by (auto simp: in_arrays_def)
  have bI: "block_of ?t j = block_of s j" "size_at ?t j = size_at s j" if "j \<in> I" for j using b lt that by auto
  have pI: "block_of s j \<noteq> p" if "j \<in> I" for j using that o new by (auto simp: owned_def)
  have img: "block_of ?t ` I = block_of s ` I" using bI by (intro image_cong) auto
  have inj: "inj_on (block_of ?t) I = inj_on (block_of s) I" using bI by (intro inj_on_cong) auto
  have "live (heap ?t) (L(p \<mapsto> sint sz))"
    using live_fill [OF live, of p "sint sz" "nat (sint sz)" "ucast index"] sz by simp
  moreover have "owned ?t (L(p \<mapsto> sint sz)) (insert ?i I)"
    using o i(3) pI b [OF idx(3)] bI unfolding owned_def by (auto simp: img inj)
  moreover have "filled ?t (insert ?i I)"
    unfolding filled_def
  proof (intro ballI allI impI)
    fix j c assume j: "j \<in> insert ?i I" and c: "block_of ?t j \<le> c" "c < block_of ?t j + size_at ?t j"
    show "mem (heap ?t) c = word_of_nat j"
    proof (cases "j = ?i")
      case True
      then show ?thesis using c b [OF idx(3)] id_byte [OF i(1)] by simp
    next
      case False
      then have jI: "j \<in> I" using j by simp
      then have Lj: "L (block_of s j) = Some (size_at s j)" using o by (simp add: owned_def)
      then have "(L(p \<mapsto> sint sz)) (block_of s j) = Some (size_at s j)" "(L(p \<mapsto> sint sz)) p = Some (sint sz)"
        using pI [OF jI] by simp_all
      then have "p + sint sz \<le> block_of s j \<or> block_of s j + size_at s j \<le> p"
        using live_disjoint [OF live] pI [OF jI] unfolding disjoint_payloads_def by metis
      then show ?thesis using c bI [OF jI] f jI by (auto simp: filled_def)
    qed
  qed
  ultimately have "tracks ?t N (L(p \<mapsto> sint sz)) (insert ?i I)"
    using l a idx(3) by (auto simp: tracks_def in_arrays_def)
  moreover have "calm 0 s ?t" by (simp add: calm_def settled_def grows_def)
  ultimately show ?thesis using run by blast
qed

lemma valid_alloc:
  assumes t: "tracks s N L I" and op: "read_op k s = Inr (op, s)" "op_type op = ALLOC"
    and i: "0 \<le> sint (op_index op)" "sint (op_index op) < int N" "nat (sint (op_index op)) \<notin> I" and sz: "0 < sint (op_size op)"
    and room: "has_room (cost (scast (op_size op))) (heap s)"
  shows "\<exists>t L'. valid_step A tn k s = Inr (True, t) \<and> tracks t N L' (insert (nat (sint (op_index op))) I)
    \<and> calm (cost (scast (op_size op))) s t"
proof -
  note tr = t [unfolded tracks_def]
  obtain p h' where m: "malloc_op A (scast (op_size op)) (heap s) = Inr (p, h')" "p \<noteq> NULL" "grows (cost (scast (op_size op))) (heap s) h'"
    and l: "L p = None" "live h' (L(p \<mapsto> sint (op_size op)))" "untouched L (heap s) h'"
    using malloc_law [of "heap s" L "scast (op_size op)"] tr room positive_size [OF sz] by auto
  let ?s = "s\<lparr>heap := h'\<rparr>" and ?L = "L(p \<mapsto> sint (op_size op))"
  let ?r = "?s\<lparr>ranges := \<lparr>range_lo = p, range_hi = p + sint (op_size op) - 1\<rparr> # ranges s\<rparr>"
  have run: "valid_step A tn k s = bindE (add_range p (op_size op) tn k) (\<lambda>ok.
               if ok = 0 then retE False
               else
                 bindE (fill p (op_index op) (op_size op)) (\<lambda>_.
                 bindE (write_block (op_index op) p) (\<lambda>_.
                 bindE (write_size (op_index op) (scast (op_size op))) (\<lambda>_.
                   retE True)))) ?s"
    using op m by (simp add: valid_step_def bindE_step on_heap_run Let_def)
  have "add_range p (op_size op) tn k ?s = Inr (1, ?r)"
    using add_range_accepts [of ?s L p "op_size op" tn k] tr l live_disjoint [OF l(2)] live_payload [OF l(2), of p "sint (op_size op)"] live_positive
    by auto
  moreover have "\<exists>t. bindE (fill p (op_index op) (op_size op)) (\<lambda>_. bindE (write_block (op_index op) p) (\<lambda>_.
     bindE (write_size (op_index op) (scast (op_size op))) (\<lambda>_. retE True))) ?r = Inr (True, t) \<and>
     tracks t N ?L (insert (nat (sint (op_index op))) I) \<and> calm 0 ?r t"
  proof (rule record_payload)
    show "listed (ranges ?r) ?L" using listed_cons [of "ranges s" L p, OF _ l(1)] tr by simp
    show "owned ?r L I" "in_arrays ?r N I" using tr arrays_cong [of ?r s] by simp_all
    have "filled ?s I" using filled_untouched [OF _ _ l(3)] tr by blast
    then show "filled ?r I" using arrays_cong [of ?r ?s] by simp
  qed (use l i in simp_all)
  ultimately show ?thesis using run m(3) by (auto simp: bindE_step calm_def settled_def grows_def)
qed

lemma valid_free:
  assumes t: "tracks s N L I" and op: "read_op k s = Inr (op, s)" "op_type op = FREE"
    and i: "0 \<le> sint (op_index op)" "nat (sint (op_index op)) \<in> I"
  shows "\<exists>t L'. valid_step A tn k s = Inr (True, t) \<and> tracks t N L' (I - {nat (sint (op_index op))}) \<and> calm 0 s t"
proof -
  let ?i = "nat (sint (op_index op))"
  note tr = t [unfolded tracks_def]
  let ?p = "block_of s ?i"
  have L: "L ?p = Some (size_at s ?i)" using tr i by (simp add: owned_def)
  obtain h' where f: "free_op A ?p (heap s) = Inr ((), h')" "live h' (L(?p := None))" "untouched (L(?p := None)) (heap s) h'" "grows 0 (heap s) h'"
    using free_law [of "heap s" L ?p, OF _ L] tr by blast
  let ?t = "s\<lparr>heap := h', ranges := drop_range ?p (ranges s)\<rparr>"
  have "array_index (op_index op) (blocks (trace s))" using tr i by (auto simp: array_index_def in_arrays_def)
  then have "valid_step A tn k s = Inr (True, ?t)"
    using op f(1) by (simp add: valid_step_def bindE_step on_heap_def array_run remove_range_def block_of_def Let_def)
  moreover have "tracks ?t N (L(?p := None)) (I - {?i})"
    unfolding tracks_def
  proof (intro conjI)
    show "live (heap ?t) (L(?p := None))" using f by simp
    show "listed (ranges ?t) (L(?p := None))" using listed_drop tr by simp
    show "owned ?t (L(?p := None)) (I - {?i})"
      using owned_remove [of s L I ?i] tr i arrays_cong [of ?t s] by simp
    have "filled s (I - {?i})" "owned s (L(?p := None)) (I - {?i})" using tr owned_remove [of s L I ?i] i by (auto simp: filled_def)
    from filled_untouched [OF this f(3)] show "filled ?t (I - {?i})" using arrays_cong [of ?t "s\<lparr>heap := h'\<rparr>"] by simp
    show "in_arrays ?t N (I - {?i})" using tr by (auto simp: in_arrays_def)
  qed
  ultimately show ?thesis using f(4) by (auto simp: calm_def settled_def)
qed

lemma valid_realloc:
  assumes t: "tracks s N L I" and op: "read_op k s = Inr (op, s)" "op_type op = REALLOC"
    and i: "0 \<le> sint (op_index op)" "sint (op_index op) < int N" "nat (sint (op_index op)) \<in> I"
    and byte: "op_index op AND 0xFF < 128" and sz: "0 < sint (op_size op)"
    and room: "has_room (cost (scast (op_size op))) (heap s)"
  shows "\<exists>t L'. valid_step A tn k s = Inr (True, t) \<and> tracks t N L' I \<and> calm (cost (scast (op_size op))) s t"
proof -
  let ?i = "nat (sint (op_index op))" and ?n = "sint (op_size op)"
  let ?p = "block_of s ?i" and ?m = "size_at s ?i"
  let ?I = "I - {?i}" and ?L = "L(block_of s (nat (sint (op_index op))) := None)"
  note tr = t [unfolded tracks_def]
  have L: "L ?p = Some ?m" using tr i by (simp add: owned_def)
  have idx: "array_index (op_index op) (blocks (trace s))" "array_index (op_index op) (block_sizes (trace s))"
    using tr i by (auto simp: array_index_def in_arrays_def)
  obtain q h' where m: "realloc_op A ?p (scast (op_size op)) (heap s) = Inr (q, h')" "q \<noteq> NULL"
      "grows (cost (scast (op_size op))) (heap s) h'"
    and l: "?L q = None" "live h' (?L(q \<mapsto> ?n))" "untouched ?L (heap s) h'"
      "\<forall>j. 0 \<le> j \<longrightarrow> j < min ?m ?n \<longrightarrow> mem h' (q + j) = mem (heap s) (?p + j)"
    using realloc_law [of "heap s" L ?p ?m "scast (op_size op)"] tr L room positive_size [OF sz] by auto
  let ?s = "s\<lparr>heap := h'\<rparr>"
  let ?d = "?s\<lparr>ranges := drop_range ?p (ranges s)\<rparr>"
  let ?old = "ucast (block_sizes (trace s) ! ?i) :: cint"
  let ?c = "if op_size op <s ?old then op_size op else ?old"
  have run: "valid_step A tn k s = bindE (add_range q (op_size op) tn k) (\<lambda>ok.
               if ok = 0 then retE False
               else
                 bindE (read_size (op_index op)) (\<lambda>osize.
                 bindE (on_heap (data_preserved q (op_index op) (nat (sint (if op_size op <s ucast osize then op_size op else ucast osize))))) (\<lambda>same.
                   if \<not> same then
                     bindE (malloc_error tn k DataNotPreserved) (\<lambda>_. retE False)
                   else
                 bindE (fill q (op_index op) (op_size op)) (\<lambda>_.
                 bindE (write_block (op_index op) q) (\<lambda>_.
                 bindE (write_size (op_index op) (scast (op_size op))) (\<lambda>_.
                   retE True)))))) ?d"
    using op m(1,2) idx unfolding valid_step_def Let_def
    by (simp add: bindE_step on_heap_run array_run remove_range_def block_of_def)
  let ?L' = "?L(q \<mapsto> ?n)"
  let ?r = "?d\<lparr>ranges := \<lparr>range_lo = q, range_hi = q + ?n - 1\<rparr> # drop_range ?p (ranges s)\<rparr>"
  have ok: "payload_ok h' q ?n" using live_payload [OF l(2), of q ?n] by simp
  have ld: "listed (ranges ?d) ?L" using listed_drop tr by simp
  have ps: "?L x = Some y \<Longrightarrow> 0 < y" for x y using live_positive tr by (auto split: if_splits)
  have 1: "add_range q (op_size op) tn k ?d = Inr (1, ?r)"
    using add_range_accepts [of ?d ?L q "op_size op" tn k] ld l(1) live_disjoint [OF l(2)] ps ok by simp
  have 2: "read_size (op_index op) ?r = Inr (block_sizes (trace s) ! ?i, ?r)" using idx by (simp add: array_run)
  have pm: "payload_ok (heap s) ?p ?m" using live_payload tr L by blast
  then have old: "sint ?old = ?m" by (simp add: payload_ok_def size_at_def sint_ucast_small)
  have c: "sint ?c = min ?m ?n" unfolding word_sless_alt old by (simp add: min_def old)
  have "data_preserved q (op_index op) (nat (sint ?c)) h' = Inr (True, h')"
  proof -
    have a: "accessible h' q (int (nat (sint ?c)))" using ok pm by (auto simp: c accessible_def payload_ok_def)
    have "mem h' (q + int j) = ucast (op_index op)" if "j < nat (sint ?c)" for j
    proof -
      have j: "int j < min ?m ?n" using that unfolding c by linarith
      then have "mem h' (q + int j) = mem (heap s) (?p + int j)" using l(4) by simp
      also have "\<dots> = word_of_nat ?i" using tr i(3) j unfolding filled_def by simp
      finally show ?thesis by (simp add: id_byte [OF i(1)])
    qed
    then show ?thesis using byte unfolding data_preserved_exact [OF a] by simp
  qed
  then have 3: "on_heap (data_preserved q (op_index op) (nat (sint ?c))) ?r = Inr (True, ?r)" by (simp add: on_heap_def)
  have "\<exists>t. bindE (fill q (op_index op) (op_size op)) (\<lambda>_. bindE (write_block (op_index op) q) (\<lambda>_.
     bindE (write_size (op_index op) (scast (op_size op))) (\<lambda>_. retE True))) ?r = Inr (True, t) \<and>
     tracks t N ?L' (insert ?i ?I) \<and> calm 0 ?r t"
  proof (rule record_payload)
    show "listed (ranges ?r) ?L'" using listed_cons [of "ranges ?d" ?L q ?n] ld l(1) by simp
    have o: "owned s ?L ?I" "filled s ?I" using tr owned_remove [of s L I ?i] i by (auto simp: filled_def)
    show "owned ?r ?L ?I" "in_arrays ?r N ?I" using o tr arrays_cong [of ?r s] by (simp_all add: in_arrays_def)
    show "filled ?r ?I" using filled_untouched [OF o(2,1) l(3)] arrays_cong [of ?r ?s] by simp
  qed (use l i in simp_all)
  moreover have "insert ?i ?I = I" using i(3) by auto
  ultimately show ?thesis using run 1 2 3 m(3) by (auto simp: bindE_step calm_def settled_def grows_def)
qed

subsection \<open>The loops over the requests\<close>

text \<open>
  The three evaluations run a step for every request. A loop \<open>M\<close> with an accumulator goes through
  all of them if each step keeps an invariant, which may speak of the accumulator, the live ids and
  the requests to come, and stays within its cost.
\<close>

lemma trace_cost_Cons: "trace_cost cost (op # ops) = request_cost cost op + trace_cost cost ops"
  by (simp add: trace_cost_def)

lemma trace_cost_nonneg: "0 \<le> trace_cost cost ops"
  by (induction ops) (simp_all add: trace_cost_def request_cost_def cost_nonneg)

lemma loop_over_requests:
  assumes step: "\<And>s I k a op ops. Inv a s I (op # ops) \<Longrightarrow> read_op k s = Inr (op, s) \<Longrightarrow> requests_ok N I (op # ops) \<Longrightarrow>
      has_room (request_cost cost op) (heap s) \<Longrightarrow> \<exists>a' t I'. (\<forall>n. M (Suc n) k a s = M n (k + 1) a' t) \<and>
        Inv a' t I' ops \<and> calm (request_cost cost op) s t \<and> requests_ok N I' ops"
    and stop: "\<And>k a s. M 0 k a s = Inr (ret a, s)"
    and inv: "Inv a s I (drop k (trace_ops (trace s)))" "requests_ok N I (drop k (trace_ops (trace s)))"
    and n: "k + n = length (trace_ops (trace s))" "length (trace_ops (trace s)) < 2 ^ 31"
    and room: "has_room (trace_cost cost (drop k (trace_ops (trace s)))) (heap s)"
  shows "\<exists>a' t I'. M n (word_of_nat k) a s = Inr (ret a', t) \<and> Inv a' t I' [] \<and> calm (trace_cost cost (drop k (trace_ops (trace s)))) s t"
  using inv n room
proof (induction n arbitrary: s I k a)
  case 0
  then have "M 0 (word_of_nat k) a s = Inr (ret a, s) \<and> Inv a s I [] \<and> calm (trace_cost cost (drop k (trace_ops (trace s)))) s s"
    by (simp add: stop calm_def settled_def grows_def trace_cost_def)
  then show ?case by blast
next
  case (Suc n)
  let ?ops = "trace_ops (trace s)"
  have k: "k < length ?ops" using Suc.prems(3) by simp
  then have w: "sint (word_of_nat k :: cint) = int k" using Suc.prems(4) by (simp add: signed_of_nat signed_take_bit_int_eq_self)
  have op: "read_op (word_of_nat k) s = Inr (?ops ! k, s)"
    using k by (simp add: array_run array_index_def w)
  have d: "drop k ?ops = ?ops ! k # drop (Suc k) ?ops" by (rule Cons_nth_drop_Suc [OF k, symmetric])
  let ?c = "request_cost cost (?ops ! k)" and ?r = "trace_cost cost (drop (Suc k) ?ops)"
  have tc: "trace_cost cost (drop k ?ops) = ?c + ?r" "0 \<le> ?r" unfolding d by (rule trace_cost_Cons) (rule trace_cost_nonneg)
  have "has_room ?c (heap s)" using Suc.prems(5) tc by (simp add: has_room_def)
  then obtain a' t I' where go: "M (Suc n) (word_of_nat k) a s = M n (word_of_nat k + 1) a' t" "Inv a' t I' (drop (Suc k) ?ops)" "calm ?c s t"
      "requests_ok N I' (drop (Suc k) ?ops)"
    using step [OF Suc.prems(1) [unfolded d] op Suc.prems(2) [unfolded d]] by blast
  have e: "trace_ops (trace t) = ?ops" using go(3) by (simp add: calm_def settled_def)
  have "\<exists>a'' u I''. M n (word_of_nat (Suc k)) a' t = Inr (ret a'', u) \<and> Inv a'' u I'' [] \<and>
      calm (trace_cost cost (drop (Suc k) (trace_ops (trace t)))) t u"
    by (rule Suc.IH [where I = I']) (use go(2-4) Suc.prems tc in \<open>simp_all add: e calm_def settled_def has_room_def grows_def\<close>)
  then obtain a'' u I'' where "M n (word_of_nat (Suc k)) a' t = Inr (ret a'', u)" "Inv a'' u I'' []"
      "calm (trace_cost cost (drop (Suc k) ?ops)) t u"
    unfolding e by blast
  moreover have "calm (trace_cost cost (drop k ?ops)) s u"
    using calculation(3) go(3) tc by (simp add: calm_def settled_def grows_def)
  ultimately show ?case using go(1) by (intro exI conjI) (simp_all add: add.commute)
qed

subsection \<open>eval_mm_valid\<close>

lemma valid_steps:
  assumes "tracks s N L I" "read_op k s = Inr (op, s)" "requests_ok N I (op # ops)" "has_room (request_cost cost op) (heap s)"
  shows "\<exists>t L' I'. valid_step A tn k s = Inr (True, t) \<and> tracks t N L' I' \<and> calm (request_cost cost op) s t \<and> requests_ok N I' ops"
  using assms(3,4) valid_alloc [OF assms(1,2)] valid_free [OF assms(1,2)] valid_realloc [OF assms(1,2)]
  by (cases "op_type op") (simp_all add: Let_def request_cost_def, blast+)

lemma init_runs:
  assumes "arena_ok (heap s)" "runnable cost start_cost (trace s)"
  shows "\<exists>r h'. 0 \<le> sint r \<and> init_op A ((heap s)\<lparr>mem_brk := mem_start_brk (heap s)\<rparr>) = Inr (r, h') \<and>
      live h' Map.empty \<and> has_room (trace_cost cost (trace_ops (trace s))) h' \<and> arena_ok h'"
proof -
  let ?h = "(heap s)\<lparr>mem_brk := mem_start_brk (heap s)\<rparr>"
  obtain r h' where i: "init_op A ?h = Inr (r, h')" "0 \<le> sint r" "live h' Map.empty" "grows start_cost ?h h'"
    using init_law [of ?h] assms trace_cost_nonneg [of "trace_ops (trace s)"] by (auto simp: arena_ok_def has_room_def runnable_def)
  then show ?thesis using assms
    by (intro exI [of _ r] exI [of _ h']) (simp add: has_room_def grows_def arena_ok_def runnable_def)
qed

lemma settled_runnable: "settled s t \<Longrightarrow> runnable cost start_cost (trace t) = runnable cost start_cost (trace s)"
  by (simp add: settled_def runnable_def)

lemma eval_mm_valid_runs:
  assumes "runnable cost start_cost (trace s)" "arena_ok (heap s)"
  shows "\<exists>t. eval_mm_valid A tn s = Inr (1, t) \<and> settled s t \<and> arena_ok (heap t)"
proof -
  let ?N = "length (blocks (trace s))" and ?ops = "trace_ops (trace s)"
  obtain r h' where i: "0 \<le> sint r" "init_op A ((heap s)\<lparr>mem_brk := mem_start_brk (heap s)\<rparr>) = Inr (r, h')"
     "live h' Map.empty" "has_room (trace_cost cost ?ops) h'" "arena_ok h'"
    using init_runs [OF assms(2,1)] by blast
  let ?s = "s\<lparr>ranges := [], heap := h'\<rparr>"
  have run: "eval_mm_valid A tn s = valid_loop A tn (nat (sint (num_ops (trace s)))) 0 ?s"
    using i(1) by (simp add: eval_mm_valid_def on_heap_def mem_reset_brk_def clear_ranges_def bindE_def i(2))
  have tr: "tracks ?s ?N Map.empty {}"
    using i(3) assms(1) by (simp add: tracks_def listed_def owned_def filled_def in_arrays_def runnable_def)
  have "\<exists>(a' :: unit) t I'. valid_loop A tn (length ?ops) (word_of_nat 0) ?s = Inr (1, t) \<and> (\<exists>L. tracks t ?N L I') \<and>
      calm (trace_cost cost (drop 0 (trace_ops (trace ?s)))) ?s t"
  proof (rule loop_over_requests [of "\<lambda>_ s I _. \<exists>L. tracks s ?N L I" ?N "\<lambda>n k _. valid_loop A tn n k" "\<lambda>_. 1" "()" ?s "{}" 0 "length ?ops"])
    show "\<exists>(a' :: unit) t I'. (\<forall>n. valid_loop A tn (Suc n) k u = valid_loop A tn n (k + 1) t) \<and>
        (\<exists>L. tracks t ?N L I') \<and> calm (request_cost cost op) u t \<and> requests_ok ?N I' ops"
      if "\<exists>L. tracks u ?N L I" "read_op k u = Inr (op, u)" "requests_ok ?N I (op # ops)" "has_room (request_cost cost op) (heap u)"
      for u I k op ops
    proof -
      note prems = that
      from prems(1) obtain L where L: "tracks u ?N L I" ..
      obtain t L' I' where t: "valid_step A tn k u = Inr (True, t)" "tracks t ?N L' I'" "calm (request_cost cost op) u t" "requests_ok ?N I' ops"
        using valid_steps [OF L prems(2-4)] by blast
      have "\<forall>n. valid_loop A tn (Suc n) k u = valid_loop A tn n (k + 1) t" using t(1) by (simp add: bindE_step)
      then show ?thesis using t(2-4) by blast
    qed
  qed (use assms tr i in \<open>auto simp: runnable_def\<close>)
  then obtain t where "valid_loop A tn (length ?ops) 0 ?s = Inr (1, t)" "calm (trace_cost cost ?ops) ?s t" by auto
  moreover have "nat (sint (num_ops (trace s))) = length ?ops" using assms(1) by (simp add: runnable_def nat_num_ops)
  ultimately show ?thesis using run i(5) by (auto simp: calm_def settled_def grows_def arena_ok_def)
qed

end

end
