(* ===== verification/DriverMeasures.thy ===== *)
theory DriverMeasures
  imports DriverContract "HOL-Library.Disjoint_Sets"
begin

section \<open>The driver's measurements of a correct allocator (mdriver.c)\<close>

text \<open>
  \<open>eval_mm_util\<close> and \<open>eval_mm_speed\<close> of \<^verbatim>\<open>labs/malloclab/mdriver.c\<close> under the contract of
  \<open>correct_allocator\<close>. The requests of a trace have a meaning of their own: a map from the ids that
  are live to their sizes. The driver's arrays refine it, and the utilization that
  \<open>eval_mm_util\<close> returns is the largest total of that map over the prefixes of the trace,
  divided by the size of the heap.
\<close>

subsection \<open>What a trace asks for\<close>

fun after_request :: "traceop_t \<Rightarrow> (nat \<rightharpoonup> int) \<Rightarrow> (nat \<rightharpoonup> int)" where
  "after_request p f =
     (let i = nat (sint (op_index p)) in
      if op_type p = FREE then f(i := None) else f(i \<mapsto> sint (op_size p)))"

definition live_bytes :: "nat \<Rightarrow> (nat \<rightharpoonup> int) \<Rightarrow> int" where
  "live_bytes N f = (\<Sum>i<N. case f i of None \<Rightarrow> 0 | Some n \<Rightarrow> n)"

fun peak :: "nat \<Rightarrow> (nat \<rightharpoonup> int) \<Rightarrow> traceop_t list \<Rightarrow> int" where
  "peak N f [] = live_bytes N f"
| "peak N f (p # ps) = max (live_bytes N f) (peak N (after_request p f) ps)"

text \<open>The two numbers that are divided: what the trace needs, and what the allocator has taken.\<close>

definition ideal_heap :: "trace_t \<Rightarrow> int" where
  "ideal_heap T = max 65536 (peak (length (blocks T)) Map.empty (trace_ops T))"

definition heap_bytes :: "'m memlib_scheme \<Rightarrow> int" where
  "heap_bytes h = mem_brk h - mem_start_brk h"

lemma peak_ge: "live_bytes N f \<le> peak N f ps"
  by (cases ps) auto

lemma live_bytes_update:
  assumes "i < N"
  shows "live_bytes N (f(i := v)) = live_bytes N f - (case f i of None \<Rightarrow> 0 | Some n \<Rightarrow> n) + (case v of None \<Rightarrow> 0 | Some n \<Rightarrow> n)"
proof -
  let ?g = "\<lambda>f :: nat \<rightharpoonup> int. \<lambda>j. case f j of None \<Rightarrow> 0 | Some n \<Rightarrow> n"
  have "sum (?g h) {..<N} = ?g h i + sum (?g h) ({..<N} - {i})" for h using assms by (intro sum.remove) auto
  moreover have "sum (?g (f(i := v))) ({..<N} - {i}) = sum (?g f) ({..<N} - {i})" by (rule sum.cong) auto
  ultimately show ?thesis unfolding live_bytes_def by simp
qed

lemma live_bytes_dom:
  assumes "dom f \<subseteq> {..<N}"
  shows "live_bytes N f = (\<Sum>i\<in>dom f. the (f i))"
  unfolding live_bytes_def
  by (rule sum.mono_neutral_cong_right) (use assms in \<open>auto split: option.splits\<close>)

text \<open>Disjoint intervals between two bounds are together no longer than the distance.\<close>

lemma disjoint_lengths:
  fixes p n :: "'b \<Rightarrow> int"
  assumes "finite I" "lo \<le> hi" "\<And>i. i \<in> I \<Longrightarrow> lo \<le> p i \<and> 0 \<le> n i \<and> p i + n i \<le> hi"
    and "\<And>i j. i \<in> I \<Longrightarrow> j \<in> I \<Longrightarrow> i \<noteq> j \<Longrightarrow> p i + n i \<le> p j \<or> p j + n j \<le> p i"
  shows "(\<Sum>i\<in>I. n i) \<le> hi - lo"
proof -
  let ?R = "\<lambda>i. {p i..<p i + n i}"
  have "card (\<Union>i\<in>I. ?R i) = (\<Sum>i\<in>I. card (?R i))"
    using assms(1,4) by (intro card_UN_disjoint) fastforce+
  moreover have "card (\<Union>i\<in>I. ?R i) \<le> card {lo..<hi}"
    using assms(3) by (intro card_mono) fastforce+
  moreover have "int (\<Sum>i\<in>I. card (?R i)) = (\<Sum>i\<in>I. n i)"
    using assms(3) by (auto simp: int_sum intro!: sum.cong)
  ultimately show ?thesis using assms(2) by (metis card_atLeastLessThan_int int_nat_eq diff_ge_0_iff_ge of_nat_mono)
qed

context correct_allocator
begin

subsection \<open>The requests on the allocator\<close>

text \<open>
  The measurements do not look into the payloads: what counts is where they are. The map
  \<open>f\<close> gives the sizes asked for; \<open>eval_mm_speed\<close> does not record them.
\<close>

definition placed :: "'m driver \<Rightarrow> nat \<Rightarrow> (nat \<rightharpoonup> int) \<Rightarrow> bool" where
  "placed s N f \<longleftrightarrow> in_arrays s N (dom f) \<and> (\<exists>L. live (heap s) L \<and> inj_on (block_of s) (dom f) \<and>
     dom L = block_of s ` dom f \<and> (\<forall>i\<in>dom f. L (block_of s i) = f i))"

text \<open>The payloads all lie inside the heap, so their sizes add up to no more than the heap's.\<close>

lemma placed_bytes:
  assumes "placed s N f" "mem_start_brk (heap s) \<le> mem_brk (heap s)"
  shows "0 \<le> live_bytes N f" "live_bytes N f \<le> mem_brk (heap s) - mem_start_brk (heap s)"
proof -
  obtain L where L: "live (heap s) L" "inj_on (block_of s) (dom f)" "\<forall>i\<in>dom f. L (block_of s i) = f i" "\<forall>i\<in>dom f. i < N"
    using assms(1) by (auto simp: placed_def in_arrays_def)
  have n: "live_bytes N f = (\<Sum>i\<in>dom f. the (f i))" using L(4) by (intro live_bytes_dom) auto
  have ok: "payload_ok (heap s) (block_of s i) (the (f i))" if "i \<in> dom f" for i
    using live_payload [OF L(1)] L(3) that by force
  have inside: "mem_start_brk (heap s) \<le> block_of s i \<and> 0 \<le> the (f i) \<and> block_of s i + the (f i) \<le> mem_brk (heap s)" if "i \<in> dom f" for i
    using ok [OF that] by (simp add: payload_ok_def)
  show "0 \<le> live_bytes N f" unfolding n using inside by (intro sum_nonneg) blast
  show "live_bytes N f \<le> mem_brk (heap s) - mem_start_brk (heap s)" unfolding n
  proof (rule disjoint_lengths [where p = "block_of s"])
    show "finite (dom f)" using L(4) by (intro finite_subset [of "dom f" "{..<N}"]) auto
    show "block_of s i + the (f i) \<le> block_of s j \<or> block_of s j + the (f j) \<le> block_of s i"
      if "i \<in> dom f" "j \<in> dom f" "i \<noteq> j" for i j
    proof -
      have "block_of s i \<noteq> block_of s j" using L(2) that by (auto simp: inj_on_def)
      moreover have "L (block_of s i) = Some (the (f i))" "L (block_of s j) = Some (the (f j))" using L(3) that by force+
      ultimately show ?thesis using live_disjoint [OF L(1)] unfolding disjoint_payloads_def by blast
    qed
  qed (use inside assms(2) in blast)+
qed

lemma placed_alloc:
  fixes sz :: cint
  assumes pl: "placed s N f" and sz: "0 < sint sz" and room: "has_room (cost (scast sz)) (heap s)" and i: "i \<notin> dom f" "i < N"
  obtains p h' where "malloc_op A (scast sz) (heap s) = Inr (p, h')" "p \<noteq> NULL" "grows (cost (scast sz)) (heap s) h'"
    "\<forall>t. heap t = h' \<longrightarrow> block_of t = (block_of s)(i := p) \<longrightarrow> in_arrays t N {} \<longrightarrow> placed t N (f(i \<mapsto> sint sz))"
proof -
  obtain L where L: "live (heap s) L" "inj_on (block_of s) (dom f)" "dom L = block_of s ` dom f" "\<forall>i\<in>dom f. L (block_of s i) = f i"
    "in_arrays s N (dom f)"
    using pl by (auto simp: placed_def)
  obtain p h' where p: "malloc_op A (scast sz) (heap s) = Inr (p, h')" "p \<noteq> NULL" "L p = None" "live h' (L(p \<mapsto> sint sz))"
      "grows (cost (scast sz)) (heap s) h'"
    using malloc_law [OF L(1) positive_size(3) [OF sz] room] positive_size(1) [OF sz] by auto
  let ?b = "(block_of s)(i := p)"
  have fresh: "p \<notin> block_of s ` dom f" using p(3) L(3) by auto
  have same: "?b j = block_of s j" if "j \<in> dom f" for j using that i by auto
  have "?b ` dom f = block_of s ` dom f" using same by (intro image_cong) auto
  moreover have "inj_on ?b (insert i (dom f))" using L(2) i fresh same by (auto simp: inj_on_def)
  moreover have "(L(p \<mapsto> sint sz)) (?b j) = (f(i \<mapsto> sint sz)) j" if "j \<in> insert i (dom f)" for j
    using that same fresh L(4) by (cases "j = i") auto
  ultimately have "placed t N (f(i \<mapsto> sint sz))" if "heap t = h'" "block_of t = ?b" "in_arrays t N {}" for t
    unfolding placed_def that(1,2) using p(4) L i that(3)
    by (intro conjI exI [of _ "L(p \<mapsto> sint sz)"]) (auto simp: in_arrays_def)
  then show thesis using that p by blast
qed

lemma placed_free:
  assumes pl: "placed s N f" and i: "i \<in> dom f"
  obtains h' where "free_op A (block_of s i) (heap s) = Inr ((), h')" "grows 0 (heap s) h'"
    "placed (s\<lparr>heap := h'\<rparr>) N (f(i := None))"
proof -
  obtain L where L: "live (heap s) L" "inj_on (block_of s) (dom f)" "dom L = block_of s ` dom f" "\<forall>i\<in>dom f. L (block_of s i) = f i"
    "in_arrays s N (dom f)"
    using pl by (auto simp: placed_def)
  then obtain n where "L (block_of s i) = Some n" using i by auto
  then obtain h' where h: "free_op A (block_of s i) (heap s) = Inr ((), h')" "live h' (L(block_of s i := None))" "grows 0 (heap s) h'"
    using free_law [OF L(1)] by blast
  have other: "block_of s j \<noteq> block_of s i" if "j \<in> dom f" "j \<noteq> i" for j using L(2) i that by (auto simp: inj_on_def)
  have "dom (L(block_of s i := None)) = block_of s ` (dom f - {i})" "inj_on (block_of s) (dom f - {i})"
    using L(2,3) i by (auto simp: inj_on_def)
  moreover have "block_of (s\<lparr>heap := h'\<rparr>) = block_of s" by (simp add: block_of_def fun_eq_iff)
  ultimately have "placed (s\<lparr>heap := h'\<rparr>) N (f(i := None))" using h(2) L(4,5) other
    unfolding placed_def by (intro conjI exI [of _ "L(block_of s i := None)"]) (auto simp: in_arrays_def)
  then show thesis using that h by blast
qed

lemma placed_realloc:
  fixes sz :: cint
  assumes pl: "placed s N f" and sz: "0 < sint sz" and room: "has_room (cost (scast sz)) (heap s)" and i: "i \<in> dom f"
  obtains q h' where "realloc_op A (block_of s i) (scast sz) (heap s) = Inr (q, h')" "q \<noteq> NULL" "grows (cost (scast sz)) (heap s) h'"
    "\<forall>t. heap t = h' \<longrightarrow> block_of t = (block_of s)(i := q) \<longrightarrow> in_arrays t N {} \<longrightarrow> placed t N (f(i \<mapsto> sint sz))"
proof -
  obtain L where L: "live (heap s) L" "inj_on (block_of s) (dom f)" "dom L = block_of s ` dom f" "\<forall>i\<in>dom f. L (block_of s i) = f i"
    "in_arrays s N (dom f)"
    using pl by (auto simp: placed_def)
  then obtain n where n: "L (block_of s i) = Some n" using i by auto
  let ?L = "L(block_of s i := None)"
  obtain q h' where q: "realloc_op A (block_of s i) (scast sz) (heap s) = Inr (q, h')" "q \<noteq> NULL" "?L q = None"
      "live h' (?L(q \<mapsto> sint sz))" "grows (cost (scast sz)) (heap s) h'"
    using realloc_law [OF L(1) n positive_size(3) [OF sz] room] positive_size(1) [OF sz] by auto
  let ?b = "(block_of s)(i := q)"
  have other: "block_of s j \<noteq> block_of s i" if "j \<in> dom f" "j \<noteq> i" for j using L(2) i that by (auto simp: inj_on_def)
  have d: "dom ?L = block_of s ` (dom f - {i})" "inj_on (block_of s) (dom f - {i})"
    using L(2,3) i by (auto simp: inj_on_def)
  then have fresh: "q \<notin> block_of s ` (dom f - {i})" using q(3) by blast
  have "?b ` dom f = insert q (block_of s ` (dom f - {i}))" "insert i (dom f) = dom f" using i by auto
  moreover have "inj_on ?b (dom f)" using d(2) fresh by (auto simp: inj_on_def)
  moreover have "(?L(q \<mapsto> sint sz)) (?b j) = (f(i \<mapsto> sint sz)) j" if "j \<in> dom f" for j
  proof (cases "j = i")
    case False
    then have "block_of s j \<noteq> q" using fresh that by blast
    then show ?thesis using False that L(4) other [OF that] by simp
  qed simp
  ultimately have "placed t N (f(i \<mapsto> sint sz))" if "heap t = h'" "block_of t = ?b" "in_arrays t N {}" for t
    unfolding placed_def that(1,2) using q(4) L that(3) d
    by (intro conjI exI [of _ "?L(q \<mapsto> sint sz)"]) (auto simp: in_arrays_def)
  then show thesis using that q by blast
qed

text \<open>What the allocator does with a request, whatever the step writes into the array of sizes.\<close>

definition stored :: "'m driver \<Rightarrow> nat \<Rightarrow> int \<Rightarrow> 'm memlib_scheme \<Rightarrow> uint64 list \<Rightarrow> 'm driver" where
  "stored s i p h z = s\<lparr>heap := h, trace := (trace s)\<lparr>blocks := (blocks (trace s))[i := p], block_sizes := z\<rparr>\<rparr>"

definition request_done :: "nat \<Rightarrow> traceop_t \<Rightarrow> traceop_t list \<Rightarrow> (nat \<rightharpoonup> int) \<Rightarrow> 'm driver \<Rightarrow> 'm driver \<Rightarrow> bool" where
  "request_done N op ops f s t \<longleftrightarrow> placed t N (after_request op f) \<and> requests_ok N (dom (after_request op f)) ops \<and>
     calm (request_cost cost op) s t \<and> same_arena (heap s) (heap t)"

lemma request_runs:
  assumes pl: "placed s N f" and req: "requests_ok N (dom f) (op # ops)" and room: "has_room (request_cost cost op) (heap s)"
  defines "i \<equiv> nat (sint (op_index op))"
  shows "op_type op = ALLOC \<Longrightarrow> \<exists>p h'. malloc_op A (scast (op_size op)) (heap s) = Inr (p, h') \<and> p \<noteq> NULL \<and>
      (\<forall>z. length z = N \<longrightarrow> request_done N op ops f s (stored s i p h' z))"
    and "op_type op = REALLOC \<Longrightarrow> \<exists>q h'. realloc_op A (block_of s i) (scast (op_size op)) (heap s) = Inr (q, h') \<and> q \<noteq> NULL \<and>
      (\<forall>z. length z = N \<longrightarrow> request_done N op ops f s (stored s i q h' z))"
    and "op_type op = FREE \<Longrightarrow> \<exists>h'. free_op A (block_of s i) (heap s) = Inr ((), h') \<and> request_done N op ops f s (s\<lparr>heap := h'\<rparr>)"
proof -
  have i: "i < N" and ar: "in_arrays s N (dom f)" using req pl by (auto simp: placed_def i_def)
  have st: "heap (stored s i p h z) = h" "block_of (stored s i p h z) = (block_of s)(i := p)"
    "length z = N \<Longrightarrow> in_arrays (stored s i p h z) N {}" "length z = N \<Longrightarrow> settled s (stored s i p h z)" for p h z
    using ar i by (auto simp: stored_def block_of_def in_arrays_def nth_list_update fun_eq_iff settled_def)
  show "\<exists>p h'. malloc_op A (scast (op_size op)) (heap s) = Inr (p, h') \<and> p \<noteq> NULL \<and>
      (\<forall>z. length z = N \<longrightarrow> request_done N op ops f s (stored s i p h' z))" if t: "op_type op = ALLOC"
  proof -
    let ?f = "f(i \<mapsto> sint (op_size op))"
    from t have n: "i \<notin> dom f" "0 < sint (op_size op)" "requests_ok N (dom ?f) ops" "has_room (cost (scast (op_size op))) (heap s)"
      and e: "request_cost cost op = cost (scast (op_size op))" "after_request op f = ?f"
      using req room by (simp_all add: Let_def request_cost_def i_def)
    obtain p h' where p: "malloc_op A (scast (op_size op)) (heap s) = Inr (p, h')" "p \<noteq> NULL" "grows (cost (scast (op_size op))) (heap s) h'"
      "\<forall>t. heap t = h' \<longrightarrow> block_of t = (block_of s)(i := p) \<longrightarrow> in_arrays t N {} \<longrightarrow> placed t N ?f"
      by (rule placed_alloc [OF pl n(2,4,1) i])
    have "request_done N op ops f s (stored s i p h' z)" if "length z = N" for z
    proof -
      have "placed (stored s i p h' z) N ?f" using p(4) st(1,2) st(3) [OF that] by blast
      then show ?thesis using n(3) p(3) st(4) [OF that] keepsD [OF malloc_arena p(1)] unfolding request_done_def calm_def st(1) e by blast
    qed
    then show ?thesis using p by blast
  qed
  show "\<exists>q h'. realloc_op A (block_of s i) (scast (op_size op)) (heap s) = Inr (q, h') \<and> q \<noteq> NULL \<and>
      (\<forall>z. length z = N \<longrightarrow> request_done N op ops f s (stored s i q h' z))" if t: "op_type op = REALLOC"
  proof -
    let ?f = "f(i \<mapsto> sint (op_size op))"
    from t have n: "i \<in> dom f" "0 < sint (op_size op)" "requests_ok N (dom f) ops" "has_room (cost (scast (op_size op))) (heap s)"
      and e: "request_cost cost op = cost (scast (op_size op))" "after_request op f = ?f"
      using req room by (simp_all add: Let_def request_cost_def i_def)
    obtain q h' where q: "realloc_op A (block_of s i) (scast (op_size op)) (heap s) = Inr (q, h')" "q \<noteq> NULL" "grows (cost (scast (op_size op))) (heap s) h'"
      "\<forall>t. heap t = h' \<longrightarrow> block_of t = (block_of s)(i := q) \<longrightarrow> in_arrays t N {} \<longrightarrow> placed t N ?f"
      by (rule placed_realloc [OF pl n(2,4,1)])
    have d: "dom ?f = dom f" using n(1) by auto
    have "request_done N op ops f s (stored s i q h' z)" if "length z = N" for z
    proof -
      have "placed (stored s i q h' z) N ?f" using q(4) st(1,2) st(3) [OF that] by blast
      then show ?thesis using n(3) q(3) st(4) [OF that] keepsD [OF realloc_arena q(1)] unfolding request_done_def calm_def st(1) e d by blast
    qed
    then show ?thesis using q by blast
  qed
  show "\<exists>h'. free_op A (block_of s i) (heap s) = Inr ((), h') \<and> request_done N op ops f s (s\<lparr>heap := h'\<rparr>)" if t: "op_type op = FREE"
  proof -
    from t have n: "i \<in> dom f" "requests_ok N (dom f - {i}) ops" "request_cost cost op = 0" "after_request op f = f(i := None)"
      using req by (simp_all add: Let_def request_cost_def i_def)
    obtain h' where "free_op A (block_of s i) (heap s) = Inr ((), h')" "grows 0 (heap s) h'" "placed (s\<lparr>heap := h'\<rparr>) N (f(i := None))"
      by (rule placed_free [OF pl n(1)])
    then show ?thesis using n(2-4) keepsD [OF free_arena, of "block_of s i" "heap s"] by (auto simp: request_done_def calm_def settled_def)
  qed
qed

lemma stored_run:
  assumes "in_arrays s N I" "0 \<le> sint i" "sint i < int N"
  shows "write_block i p (s\<lparr>heap := h\<rparr>) = Inr ((), stored s (nat (sint i)) p h (block_sizes (trace s)))"
    "bindE (write_block i p) (\<lambda>_. bindE (write_size i n) f) (s\<lparr>heap := h\<rparr>) =
      f () (stored s (nat (sint i)) p h ((block_sizes (trace s))[nat (sint i) := n]))"
    "read_block i s = Inr (block_of s (nat (sint i)), s)" "read_size i s = Inr (block_sizes (trace s) ! nat (sint i), s)"
  using assms by (simp_all add: array_defs array_index_def in_arrays_def block_of_def stored_def bindE_def)

subsection \<open>eval_mm_speed\<close>

lemma speed_steps:
  assumes pl: "placed s N f" and op: "read_op k s = Inr (op, s)" and req: "requests_ok N (dom f) (op # ops)"
    and room: "has_room (request_cost cost op) (heap s)"
  shows "\<exists>t. speed_step A k s = Inr ((), t) \<and> request_done N op ops f s t"
proof -
  have i: "0 \<le> sint (op_index op)" "sint (op_index op) < int N" and ar: "in_arrays s N (dom f)" "length (block_sizes (trace s)) = N"
    using req pl by (auto simp: placed_def in_arrays_def)
  note run = request_runs [OF pl req room] and st = stored_run [OF ar(1) i]
  show ?thesis
  proof (cases "op_type op")
    case ALLOC
    from run(1) [OF this] show ?thesis using op ALLOC ar(2)
      by (auto simp: speed_step_def bindE_step on_heap_run st Let_def)
  next
    case FREE
    from run(3) [OF this] show ?thesis using op FREE
      by (auto simp: speed_step_def bindE_step on_heap_def st Let_def)
  next
    case REALLOC
    from run(2) [OF this] show ?thesis using op REALLOC ar(2)
      by (auto simp: speed_step_def bindE_step on_heap_run st Let_def)
  qed
qed

text \<open>Both measurements begin with an empty map on a fresh heap.\<close>

lemma measure_starts:
  assumes "runnable cost start_cost (trace s)" "arena_ok (heap s)"
  obtains r h' where "0 \<le> sint r" "init_op A ((heap s)\<lparr>mem_brk := mem_start_brk (heap s)\<rparr>) = Inr (r, h')"
    "has_room (trace_cost cost (trace_ops (trace s))) h'" "arena_ok h'" "mem_start_brk h' \<le> mem_brk h'"
    "placed (s\<lparr>heap := h'\<rparr>) (length (blocks (trace s))) Map.empty"
proof -
  obtain r h' where i: "0 \<le> sint r" "init_op A ((heap s)\<lparr>mem_brk := mem_start_brk (heap s)\<rparr>) = Inr (r, h')"
     "live h' Map.empty" "has_room (trace_cost cost (trace_ops (trace s))) h'" "arena_ok h'"
    using init_runs [OF assms(2,1)] by blast
  have "mem_start_brk h' \<le> mem_brk h'" using keepsD [OF init_arena i(2)] by (simp add: same_arena_def)
  moreover have "placed (s\<lparr>heap := h'\<rparr>) (length (blocks (trace s))) Map.empty"
    using i(3) assms(1) by (auto simp: placed_def in_arrays_def runnable_def)
  ultimately show thesis using that i by blast
qed

lemma eval_mm_speed_runs:
  assumes "runnable cost start_cost (trace s)" "arena_ok (heap s)"
  shows "\<exists>t. eval_mm_speed A s = Inr ((), t) \<and> settled s t \<and> arena_ok (heap t)"
proof -
  let ?N = "length (blocks (trace s))" and ?ops = "trace_ops (trace s)"
  obtain r h' where i: "0 \<le> sint r" "init_op A ((heap s)\<lparr>mem_brk := mem_start_brk (heap s)\<rparr>) = Inr (r, h')"
    "has_room (trace_cost cost ?ops) h'" "arena_ok h'" "mem_start_brk h' \<le> mem_brk h'" "placed (s\<lparr>heap := h'\<rparr>) ?N Map.empty"
    by (rule measure_starts [OF assms])
  let ?s = "s\<lparr>heap := h'\<rparr>"
  let ?Inv = "\<lambda>_ s I _. \<exists>f. dom f = I \<and> placed s ?N f"
  have "\<exists>(a :: unit) t I'. speed_loop A (length ?ops) (word_of_nat 0) ?s = Inr ((), t) \<and> (\<exists>f. dom f = I' \<and> placed t ?N f) \<and>
      calm (trace_cost cost (drop 0 (trace_ops (trace ?s)))) ?s t"
  proof (rule loop_over_requests [of ?Inv ?N "\<lambda>n k _. speed_loop A n k" "\<lambda>_. ()" "()" ?s "{}" 0 "length ?ops"])
    show "\<exists>(a' :: unit) t I'. (\<forall>n. speed_loop A (Suc n) k u = speed_loop A n (k + 1) t) \<and>
        (\<exists>f. dom f = I' \<and> placed t ?N f) \<and> calm (request_cost cost op) u t \<and> requests_ok ?N I' ops"
      if f: "\<exists>f. dom f = I \<and> placed u ?N f" and prems: "read_op k u = Inr (op, u)" "requests_ok ?N I (op # ops)" "has_room (request_cost cost op) (heap u)"
      for u I k op ops
    proof -
      from f obtain f where f: "dom f = I" "placed u ?N f" by blast
      obtain t where t: "speed_step A k u = Inr ((), t)" "request_done ?N op ops f u t"
        using speed_steps [OF f(2) prems(1) _ prems(3)] prems(2) f(1) by blast
      have "\<forall>n. speed_loop A (Suc n) k u = speed_loop A n (k + 1) t" using t(1) by (simp add: bindE_step)
      then show ?thesis using t(2) unfolding request_done_def by blast
    qed
  qed (use assms i in \<open>auto simp: runnable_def\<close>)
  then obtain t where u: "speed_loop A (length ?ops) 0 ?s = Inr ((), t)" "calm (trace_cost cost ?ops) ?s t" by auto
  have n: "nat (sint (num_ops (trace s))) = length ?ops" using assms(1) by (simp add: runnable_def nat_num_ops)
  have "eval_mm_speed A s = Inr ((), t)"
    using i(1) u(1) n by (simp add: eval_mm_speed_def on_heap_def mem_reset_brk_def bindE_def i(2))
  then show ?thesis using u(2) i(4) by (auto simp: calm_def settled_def grows_def arena_ok_def)
qed

subsection \<open>eval_mm_util\<close>

text \<open>Here the recorded sizes are those of the map, and the running total is its total.\<close>

definition recorded :: "'m driver \<Rightarrow> (nat \<rightharpoonup> int) \<Rightarrow> bool" where
  "recorded s f \<longleftrightarrow> (\<forall>i\<in>dom f. size_at s i = the (f i))"

lemma util_steps:
  assumes pl: "placed s N f" and op: "read_op k s = Inr (op, s)" and req: "requests_ok N (dom f) (op # ops)"
    and room: "has_room (request_cost cost op) (heap s)" and rec: "recorded s f"
  defines "tot \<equiv> word_of_int (live_bytes N (after_request op f)) :: cint"
  shows "\<exists>t. util_step A k (word_of_int (live_bytes N f), m) s =
        Inr ((tot, if op_type op \<noteq> FREE \<and> m <s tot then tot else m), t) \<and>
      request_done N op ops f s t \<and> recorded t (after_request op f)"
proof -
  let ?i = "nat (sint (op_index op))" and ?n = "op_size op"
  have i: "0 \<le> sint (op_index op)" "sint (op_index op) < int N" and ar: "in_arrays s N (dom f)" "length (block_sizes (trace s)) = N"
    using req pl by (auto simp: placed_def in_arrays_def)
  have iN: "?i < N" using i by linarith
  note run = request_runs [OF pl req room] and st = stored_run [OF ar(1) i]
  have rec': "recorded (stored s ?i p h ((block_sizes (trace s))[?i := scast ?n])) (f(?i \<mapsto> sint ?n))" if "0 < sint ?n" for p h
    using rec ar iN positive_size(1) [OF that] by (auto simp: recorded_def stored_def size_at_def nth_list_update)
  have old: "word_of_int (the (f ?i)) = (ucast (block_sizes (trace s) ! ?i) :: cint)" if "?i \<in> dom f"
    using rec that by (simp add: recorded_def size_at_def ucast_eq flip: size_at_def)
  show ?thesis
  proof (cases "op_type op")
    case ALLOC
    then have d: "?i \<notin> dom f" "0 < sint ?n" using req by (simp_all add: Let_def)
    have t: "word_of_int (live_bytes N f) + ?n = tot"
      using ALLOC d(1) live_bytes_update [OF iN, of f "Some (sint ?n)"] by (auto simp: tot_def domIff)
    from run(1) [OF ALLOC] obtain p h' where p: "malloc_op A (scast ?n) (heap s) = Inr (p, h')" "p \<noteq> NULL"
      "\<forall>z. length z = N \<longrightarrow> request_done N op ops f s (stored s ?i p h' z)" by blast
    then show ?thesis using op ALLOC ar(2) rec' [OF d(2), of p h'] t
      by (intro exI [of _ "stored s ?i p h' ((block_sizes (trace s))[?i := scast ?n])"])
         (simp add: util_step_def bindE_step on_heap_run st Let_def)
  next
    case FREE
    then have d: "?i \<in> dom f" using req by (simp add: Let_def)
    have t: "word_of_int (live_bytes N f) - ucast (block_sizes (trace s) ! ?i) = tot"
      using FREE d live_bytes_update [OF iN, of f None] by (auto simp: tot_def domIff simp flip: old [OF d])
    from run(3) [OF FREE] obtain h' where p: "free_op A (block_of s ?i) (heap s) = Inr ((), h')"
      "request_done N op ops f s (s\<lparr>heap := h'\<rparr>)" by blast
    have "recorded (s\<lparr>heap := h'\<rparr>) (after_request op f)" using rec FREE by (auto simp: recorded_def size_at_def)
    then show ?thesis using op FREE p t
      by (intro exI [of _ "s\<lparr>heap := h'\<rparr>"]) (simp add: util_step_def bindE_step on_heap_def st Let_def)
  next
    case REALLOC
    then have d: "?i \<in> dom f" "0 < sint ?n" using req by (simp_all add: Let_def)
    have t: "word_of_int (live_bytes N f) + (?n - ucast (block_sizes (trace s) ! ?i)) = tot"
      using REALLOC d(1) live_bytes_update [OF iN, of f "Some (sint ?n)"] by (auto simp: tot_def domIff simp flip: old [OF d(1)])
    from run(2) [OF REALLOC] obtain p h' where p: "realloc_op A (block_of s ?i) (scast ?n) (heap s) = Inr (p, h')" "p \<noteq> NULL"
      "\<forall>z. length z = N \<longrightarrow> request_done N op ops f s (stored s ?i p h' z)" by blast
    then show ?thesis using op REALLOC ar(2) rec' [OF d(2), of p h'] t
      by (intro exI [of _ "stored s ?i p h' ((block_sizes (trace s))[?i := scast ?n])"])
         (simp add: util_step_def bindE_step on_heap_run st Let_def)
  qed
qed

text \<open>
  The invariant of the loop: \<open>W\<close>, the larger of the high-water mark so far and the peak still to
  come, stays the same, and the mark is at most \<open>FREE_HEAP\<close> or the size of the heap.
\<close>

definition util_inv :: "int \<Rightarrow> nat \<Rightarrow> cint \<times> cint \<Rightarrow> 'm driver \<Rightarrow> (nat \<rightharpoonup> int) \<Rightarrow> traceop_t list \<Rightarrow> bool" where
  "util_inv W N acc s f ops \<longleftrightarrow> placed s N f \<and> recorded s f \<and> arena_ok (heap s) \<and> 0 \<le> heap_bytes (heap s) \<and>
     fst acc = word_of_int (live_bytes N f) \<and> live_bytes N f \<le> sint (snd acc) \<and>
     max (sint (snd acc)) (peak N f ops) = W \<and> sint (snd acc) \<le> max 65536 (heap_bytes (heap s))"

lemma util_keeps:
  assumes inv: "util_inv W N acc s f (op # ops)" and op: "read_op k s = Inr (op, s)" and req: "requests_ok N (dom f) (op # ops)"
    and room: "has_room (request_cost cost op) (heap s)"
  shows "\<exists>acc' t. util_step A k acc s = Inr (acc', t) \<and> util_inv W N acc' t (after_request op f) ops \<and> request_done N op ops f s t"
proof -
  note v = inv [unfolded util_inv_def]
  let ?f = "after_request op f" and ?m = "snd acc"
  let ?T = "live_bytes N ?f"
  let ?total = "word_of_int ?T :: cint"
  let ?m' = "if op_type op \<noteq> FREE \<and> ?m <s ?total then ?total else ?m"
  obtain t where t: "util_step A k acc s = Inr ((?total, ?m'), t)" "request_done N op ops f s t" "recorded t ?f"
    using util_steps [OF _ op req room, of ?m] v by (metis prod.collapse)
  have p: "placed t N ?f" and g: "grows (request_cost cost op) (heap s) (heap t)" and a: "same_arena (heap s) (heap t)"
    using t(2) by (simp_all add: request_done_def calm_def)
  have ar: "arena_ok (heap t)" "heap_bytes (heap s) \<le> heap_bytes (heap t)" "heap_bytes (heap t) \<le> MAX_HEAP"
    using v g a room by (simp_all add: arena_ok_def grows_def same_arena_def heap_bytes_def has_room_def)
  have T: "0 \<le> ?T" "?T \<le> heap_bytes (heap t)" using placed_bytes [OF p] v ar(2) by (simp_all add: heap_bytes_def)
  then have s: "sint ?total = ?T" using ar(3) by (intro sint_word_of_int_small) (simp_all add: MAX_HEAP_def)
  have fr: "?T \<le> live_bytes N f" if "op_type op = FREE"
  proof -
    let ?i = "nat (sint (op_index op))"
    have i: "?i < N" "?i \<in> dom f" using req that by (auto simp: Let_def)
    have "0 \<le> the (f ?i)" using v i(2) by (force simp: recorded_def size_at_def)
    then show ?thesis using that i live_bytes_update [OF i(1), of f None] by auto
  qed
  have "?T \<le> sint ?m" if "op_type op = FREE" using fr [OF that] v by linarith
  then have m': "sint ?m' = max (sint ?m) ?T"
    by (cases "op_type op = FREE") (simp_all add: word_sless_alt s del: after_request.simps)
  have "util_inv W N (?total, ?m') t ?f ops"
    unfolding util_inv_def fst_conv snd_conv m' using v p t(3) ar T peak_ge [of N ?f ops]
    by (simp del: after_request.simps) (auto simp: max_def split: if_splits)
  then show ?thesis using t(1,2) by blast
qed

text \<open>
  So the first component of the result is the largest number of bytes the trace ever has live, if
  that is above \<open>FREE_HEAP\<close>, and it never exceeds the second, the size of the heap at the end.
\<close>

lemma eval_mm_util_exact:
  assumes "runnable cost start_cost (trace s)" "arena_ok (heap s)"
  shows "\<exists>i m t. eval_mm_util ddiv A s = Inr ((i, m, ddiv i m), t) \<and> settled s t \<and> arena_ok (heap t) \<and>
    sint i = ideal_heap (trace s) \<and> sint m = max 65536 (heap_bytes (heap t)) \<and> sint i \<le> sint m \<and> sint m \<le> MAX_HEAP"
proof -
  let ?N = "length (blocks (trace s))" and ?ops = "trace_ops (trace s)" and ?W = "ideal_heap (trace s)"
  obtain r h' where i: "0 \<le> sint r" "init_op A ((heap s)\<lparr>mem_brk := mem_start_brk (heap s)\<rparr>) = Inr (r, h')"
    "has_room (trace_cost cost ?ops) h'" "arena_ok h'" "mem_start_brk h' \<le> mem_brk h'" "placed (s\<lparr>heap := h'\<rparr>) ?N Map.empty"
    by (rule measure_starts [OF assms])
  let ?s = "s\<lparr>heap := h'\<rparr>"
  let ?Inv = "\<lambda>acc s I ops. \<exists>f. dom f = I \<and> util_inv ?W ?N acc s f ops"
  have "util_inv ?W ?N (0, FREE_HEAP) ?s Map.empty ?ops"
    using i(4-6) by (simp add: util_inv_def recorded_def heap_bytes_def ideal_heap_def live_bytes_def FREE_HEAP_def)
  then have start: "?Inv (0, FREE_HEAP) ?s {} (drop 0 (trace_ops (trace ?s)))" by auto
  have "\<exists>acc t I'. util_loop A (length ?ops) (word_of_nat 0) (0, FREE_HEAP) ?s = Inr (acc, t) \<and> ?Inv acc t I' [] \<and>
      calm (trace_cost cost (drop 0 (trace_ops (trace ?s)))) ?s t"
  proof (rule loop_over_requests [of ?Inv ?N "util_loop A" "\<lambda>a. a" "(0, FREE_HEAP)" ?s "{}" 0 "length ?ops"])
    show "\<exists>acc' t I'. (\<forall>n. util_loop A (Suc n) k acc u = util_loop A n (k + 1) acc' t) \<and>
        ?Inv acc' t I' ops \<and> calm (request_cost cost op) u t \<and> requests_ok ?N I' ops"
      if f: "?Inv acc u I (op # ops)" and prems: "read_op k u = Inr (op, u)" "requests_ok ?N I (op # ops)" "has_room (request_cost cost op) (heap u)"
      for u I k acc op ops
    proof -
      from f obtain f where f: "dom f = I" "util_inv ?W ?N acc u f (op # ops)" by blast
      obtain acc' t where t: "util_step A k acc u = Inr (acc', t)" "util_inv ?W ?N acc' t (after_request op f) ops" "request_done ?N op ops f u t"
        using util_keeps [OF f(2) prems(1) _ prems(3)] prems(2) f(1) by blast
      have "\<forall>n. util_loop A (Suc n) k acc u = util_loop A n (k + 1) acc' t" using t(1) by (simp add: bindE_step)
      then show ?thesis using t(2,3) unfolding request_done_def by blast
    qed
    show "?Inv (0, FREE_HEAP) ?s {} (drop 0 (trace_ops (trace ?s)))" by (rule start)
  qed (use assms i in \<open>auto simp: runnable_def\<close>)
  then obtain a m t f where u: "util_loop A (length ?ops) 0 (0, FREE_HEAP) ?s = Inr ((a, m), t)" "util_inv ?W ?N (a, m) t f []"
      "calm (trace_cost cost ?ops) ?s t" by auto
  note v = u(2) [unfolded util_inv_def, simplified]
  have bytes: "0 \<le> heap_bytes (heap t)" "heap_bytes (heap t) \<le> MAX_HEAP"
    using v u(3) i(3,4) by (simp_all add: calm_def grows_def has_room_def arena_ok_def heap_bytes_def)
  then have hs: "uint (mem_heapsize (heap t)) = heap_bytes (heap t)"
    unfolding mem_heapsize_def heap_bytes_def uint_word_of_int by (intro mod_pos_pos_trivial) (simp_all add: MAX_HEAP_def)
  let ?m = "if scast FREE_HEAP < mem_heapsize (heap t) then ucast (mem_heapsize (heap t)) else FREE_HEAP"
  have m: "sint ?m = max 65536 (heap_bytes (heap t))"
    using hs bytes sint_ucast_small [of "mem_heapsize (heap t)"] by (simp add: FREE_HEAP_def word_less_alt MAX_HEAP_def)
  have n: "nat (sint (num_ops (trace s))) = length ?ops" using assms(1) by (simp add: runnable_def nat_num_ops)
  have "eval_mm_util ddiv A s = Inr ((m, ?m, ddiv m ?m), t)"
    using i(1) u(1) n by (simp add: eval_mm_util_def on_heap_def mem_reset_brk_def bindE_def i(2))
  moreover have "sint m = ?W" using v by (metis max_absorb1)
  ultimately show ?thesis using u(3) v m bytes i(4)
    by (intro exI [of _ m] exI [of _ ?m] exI [of _ t]) (auto simp: calm_def settled_def MAX_HEAP_def)
qed

end

end
