(* ===== verification/DriverRuns.thy ===== *)
theory DriverRuns
  imports DriverMeasures Mdriver
begin

section \<open>The whole driver on a correct allocator (mdriver.c)\<close>

text \<open>
  Under the contract of \<open>correct_allocator\<close> the check and the two measurements run to their end,
  and with them the evaluation of a trace, of all traces, and \<open>main\<close>, which then reports a run
  without errors (\<open>driver_accepts\<close>).
\<close>

subsection \<open>What the run needs of its surroundings\<close>

text \<open>A clock that answers and leaves the arena alone, and a file that holds a runnable trace.\<close>

definition clock_ok :: "'m platform \<Rightarrow> bool" where
  "clock_ok P \<longleftrightarrow> (\<forall>h. \<exists>c. gettod P h = Inr (c, h))"

definition readable :: "(uint64 \<Rightarrow> int) \<Rightarrow> int \<Rightarrow> 'm platform \<Rightarrow> string \<Rightarrow> cint \<Rightarrow> string \<Rightarrow> bool" where
  "readable cost start_cost P dir i name \<longleftrightarrow>
     (\<exists>T. read_trace (files P) (fresh P True i) dir name = Inr T \<and> runnable cost start_cost T)"

text \<open>
  What the statistics of a trace then say: it is valid, and the recorded utilization is the
  quotient of the two heap sizes, of which the ideal one is the smaller.
\<close>

definition passed :: "'d fp \<Rightarrow> 'd stats_t \<Rightarrow> bool" where
  "passed F st \<longleftrightarrow> valid st = 1 \<and> 65536 \<le> sint (ideal_max_heap st) \<and> sint (ideal_max_heap st) \<le> sint (max_heap st) \<and>
     sint (max_heap st) \<le> MAX_HEAP \<and> util st = fp_div F (fp_of F (sint (ideal_max_heap st))) (fp_of F (sint (max_heap st)))"

context correct_allocator
begin

subsection \<open>The whole run\<close>

lemma repeated_speed:
  assumes "runnable cost start_cost (trace s)" "arena_ok (heap s)"
  shows "\<exists>t. repeat_op n (eval_mm_speed A) s = Inr ((), t) \<and> settled s t \<and> arena_ok (heap t)"
  using assms
proof (induction n arbitrary: s)
  case 0
  then show ?case by (simp add: settled_def)
next
  case (Suc n)
  obtain u where u: "eval_mm_speed A s = Inr ((), u)" "settled s u" "arena_ok (heap u)"
    using eval_mm_speed_runs [OF Suc.prems] by blast
  obtain t where "repeat_op n (eval_mm_speed A) u = Inr ((), t)" "settled u t" "arena_ok (heap t)"
    using Suc.IH [of u] u settled_runnable Suc.prems(1) by blast
  then show ?case using u by (auto simp: bindE_step settled_def)
qed

lemma mm_trace_runs:
  assumes "readable cost start_cost P dir i name" "clock_ok P" "arena_ok (heap s)"
  shows "\<exists>st t. mm_trace F P A dir i name s = Inr (st, t) \<and> passed F st \<and> filename st = name \<and>
     errors t = errors s \<and> reports t = reports s \<and> arena_ok (heap t)"
proof -
  obtain T where T: "read_trace (files P) (fresh P True i) dir name = Inr T" "runnable cost start_cost T" using assms(1) by (auto simp: readable_def)
  let ?ddiv = "\<lambda>a b. fp_div F (fp_of F (sint a)) (fp_of F (sint b))"
  let ?s = "s\<lparr>trace := T\<rparr>"
  obtain u where u: "eval_mm_valid A i ?s = Inr (1, u)" "settled ?s u" "arena_ok (heap u)"
    using eval_mm_valid_runs [of ?s] T(2) assms(3) by auto
  have ru: "runnable cost start_cost (trace u)" using settled_runnable [OF u(2)] T(2) by simp
  obtain a b v where v: "eval_mm_util ?ddiv A u = Inr ((a, b, ?ddiv a b), v)" "settled u v" "arena_ok (heap v)"
     "sint a = ideal_heap (trace u)" "sint a \<le> sint b" "sint b \<le> MAX_HEAP"
    using eval_mm_util_exact [OF ru u(3), of ?ddiv] by auto
  have rv: "runnable cost start_cost (trace v)" using settled_runnable [OF v(2)] ru by simp
  have clk: "\<exists>c. on_heap (gettod P) w = Inr (c, w)" for w
    using assms(2) unfolding clock_ok_def on_heap_def by (metis (mono_tags, lifting) old.sum.simps(6) prod.case driver.surjective driver.update_convs(1))
  obtain t where t: "repeat_op 10 (eval_mm_speed A) v = Inr ((), t)" "settled v t" "arena_ok (heap t)"
    using repeated_speed [OF rv v(3)] by blast
  obtain c c' where c: "on_heap (gettod P) v = Inr (c, v)" "on_heap (gettod P) t = Inr (c', t)" using clk by metis
  have "\<exists>d. fsecs F (on_heap (gettod P)) (eval_mm_speed A) v = Inr (d, t)"
    using c t(1) by (cases c; cases c') (simp add: fsecs_def ftimer_gettod_def bindE_step Let_def)
  then obtain d where d: "fsecs F (on_heap (gettod P)) (eval_mm_speed A) v = Inr (d, t)" ..
  have "65536 \<le> sint a" using v(4) by (simp add: ideal_heap_def)
  then show ?thesis
    using T(1) u v d t by (simp add: mm_trace_def load_trace_def bindE_def settled_def cleared_stats_def passed_def Let_def)
qed

lemma run_traces_runs:
  assumes "clock_ok P" "arena_ok (heap s)" "\<And>j. j < length names \<Longrightarrow> readable cost start_cost P dir (i + word_of_nat j) (names ! j)"
  shows "\<exists>sts t. run_traces (mm_trace F P A dir) i names s = Inr (sts, t) \<and> (\<forall>st\<in>set sts. passed F st) \<and>
     map filename sts = names \<and> errors t = errors s \<and> reports t = reports s"
  using assms(2,3)
proof (induction names arbitrary: i s)
  case Nil
  then show ?case by simp
next
  case (Cons name names)
  have r: "readable cost start_cost P dir i name" using Cons.prems(2) [of 0] by simp
  obtain st u where u: "mm_trace F P A dir i name s = Inr (st, u)" "passed F st" "filename st = name"
      "errors u = errors s" "reports u = reports s" "arena_ok (heap u)"
    using mm_trace_runs [OF r assms(1) Cons.prems(1)] by blast
  have "readable cost start_cost P dir ((i + 1) + word_of_nat j) (names ! j)" if "j < length names" for j
    using Cons.prems(2) [of "Suc j"] that by (simp add: add.assoc)
  then obtain sts t where "run_traces (mm_trace F P A dir) (i + 1) names u = Inr (sts, t)" "\<forall>st\<in>set sts. passed F st"
      "map filename sts = names" "errors t = errors u" "reports t = reports u"
    using Cons.IH [OF u(6), of "i + 1"] by blast
  then show ?case using u by (auto simp: bindE_step)
qed

text \<open>
  The whole program, without the run of libc's allocator: the report is the one of a run
  without errors, with every trace counted as correct.
\<close>

lemma driver_accepts:
  assumes "clock_ok P" "0 < arena P MAX_HEAP" "8 dvd arena P MAX_HEAP" "arena P MAX_HEAP + MAX_HEAP < 2 ^ 64"
    and cfg: "read_options argv driver_defaults = Inr cfg" "\<not> run_libc cfg" "\<not> team_check cfg \<and> who = [] \<or> team_check cfg \<and> check_team tm = Inr who"
    and r: "\<And>j. j < length (trace_names cfg) \<Longrightarrow> readable cost start_cost P (tracedir cfg) (word_of_nat j) (trace_names cfg ! j)"
    and s: "errors s = 0"
  shows "\<exists>sts t. driver_main F P A tm argv s =
      Inr (who @ (if verbose cfg \<noteq> 0 then printresults F 0 sts else []) @ verdict F (autograder cfg) 0 sts, t) \<and>
    map filename sts = trace_names cfg \<and> (\<forall>st\<in>set sts. passed F st) \<and> numcorrect sts = word_of_nat (length sts) \<and> reports t = reports s"
proof -
  let ?p = "arena P MAX_HEAP"
  let ?s = "s\<lparr>heap := (heap s)\<lparr>mem_start_brk := ?p, mem_max_addr := ?p + MAX_HEAP, mem_brk := ?p\<rparr>\<rparr>"
  have i: "on_heap (mem_init (arena P)) s = Inr ((), ?s)"
    using assms(2) by (simp add: on_heap_def mem_init_def NULL_def Let_def)
  have ok: "arena_ok (heap ?s)" using assms(2-4) by (simp add: arena_ok_def)
  obtain sts t where t: "run_traces (mm_trace F P A (tracedir cfg)) 0 (trace_names cfg) ?s = Inr (sts, t)"
    "\<forall>st\<in>set sts. passed F st" "map filename sts = trace_names cfg" "errors t = errors ?s" "reports t = reports ?s"
    using run_traces_runs [OF assms(1) ok, where F = F and names = "trace_names cfg" and dir = "tracedir cfg" and i = 0] r by auto
  have "failed sts = 0" using t(2) by (simp add: failed_def filter_empty_conv passed_def)
  then have "numcorrect sts = word_of_nat (length sts)" using numcorrect_count [of sts] t(2) by (simp add: passed_def)
  moreover have "driver_main F P A tm argv s =
      Inr (who @ (if verbose cfg \<noteq> 0 then printresults F 0 sts else []) @ verdict F (autograder cfg) 0 sts, t)"
    using cfg s t(1,4) by (auto simp: driver_main_def liftE_def bindE_step i table_def)
  ultimately show ?thesis using t s by auto
qed

end

end
