(* ===== verification/ImplicitAllocator.thy ===== *)
theory ImplicitAllocator
  imports MmCheck MmImplicit MmOperations DriverRuns
begin

section \<open>The allocator on the implicit list (mm.c), and the driver's verdict on it\<close>

text \<open>
  An instance of the contract \<open>correct_allocator\<close>, and the theorems about \<^verbatim>\<open>mdriver.c\<close> on allocators
  that satisfy it. The compiled \<open>mm_init\<close>, \<open>mm_malloc\<close> and \<open>mm_free\<close> of \<^verbatim>\<open>mm.c\<close> do not satisfy
  the contract (\<open>MmOperations\<close>), so the instance is an allocator of this development, not of the
  repository: it is a test of the contract, in which the routines \<open>find_fit\<close>, \<open>place\<close> and
  \<open>coalesce\<close> of \<^verbatim>\<open>mm.c\<close>, proved correct in \<open>MmImplicit\<close>, do the work. Its operations follow the
  textbook allocator that \<^verbatim>\<open>mm.c\<close> keeps in comments; no claim about compiled code is made for them.
  Payloads are aligned, disjoint, inside the heap, and keep their bytes, and a request is granted as
  long as the arena has room for \<open>max (k + 16) 65536\<close> more bytes.
\<close>

subsection \<open>The allocator\<close>

definition implicit_extend :: "uint64 \<Rightarrow> ('a mm_scheme, int) cmd" where
  "implicit_extend words =
     bindE (retE (extend_size words)) (\<lambda>sz.
     bindE (mem_sbrk sz) (\<lambda>bp.
       if bp = SBRK_FAILED then retE NULL
       else
         bindE (PUT (HDRP bp) (PACK sz 0)) (\<lambda>_.
         bindE (FTRP bp) (\<lambda>f. bindE (PUT f (PACK sz 0)) (\<lambda>_.
         bindE (bindE (NEXT_BLKP bp) (\<lambda>n. PUT (HDRP n) (PACK 0 1))) (\<lambda>_.
           coalesce bp))))))"

definition implicit_init :: "('a mm_scheme, cint) cmd" where
  "implicit_init =
     bindE (mem_sbrk 32) (\<lambda>p.
     bindE (modifyE (\<lambda>s. s\<lparr>heap_listp := p\<rparr>)) (\<lambda>_.
       if p = NULL then retE (- 1)
       else
         bindE (bindE (getsE heap_listp) (\<lambda>l. PUT l 0)) (\<lambda>_.
         bindE (modifyE (\<lambda>s. s\<lparr>heap_listp := heap_listp s + WSIZE\<rparr>)) (\<lambda>_.
         bindE (bindE (getsE heap_listp) (\<lambda>l. PUT l (PACK 24 1))) (\<lambda>_.
         bindE (modifyE (\<lambda>s. s\<lparr>heap_listp := heap_listp s + WSIZE\<rparr>)) (\<lambda>_.
         bindE (getsE heap_listp) (\<lambda>l.
         bindE (PUT (l + DSIZE * 2) (PACK 24 1)) (\<lambda>_.
         bindE (PUT (l + DSIZE * 2 + WSIZE) (PACK 0 1)) (\<lambda>_.
         bindE (implicit_extend (ucast (CHUNKSIZE div 4))) (\<lambda>e.
           retE (if e = NULL then - 1 else 0)))))))))))"

definition implicit_malloc :: "uint64 \<Rightarrow> ('a mm_scheme, int) cmd" where
  "implicit_malloc n =
     (if n = 0 then retE NULL
      else
        bindE (retE (adjust_size n)) (\<lambda>asize.
        bindE (find_fit (ucast asize)) (\<lambda>bp.
          if bp \<noteq> NULL then bindE (place bp (ucast asize)) (\<lambda>_. retE bp)
          else
            bindE (retE (max asize CHUNKSIZE)) (\<lambda>extendsize.
            bindE (implicit_extend (ucast (extendsize div 4))) (\<lambda>bp.
              if bp = NULL then retE NULL
              else bindE (place bp (ucast asize)) (\<lambda>_. retE bp))))))"

definition implicit_free :: "int \<Rightarrow> ('a mm_scheme, unit) cmd" where
  "implicit_free bp =
     bindE (GET_SIZE (HDRP bp)) (\<lambda>sz.
     bindE (PUT (HDRP bp) (PACK sz 0)) (\<lambda>_.
     bindE (FTRP bp) (\<lambda>f. bindE (PUT f (PACK sz 0)) (\<lambda>_.
     bindE (coalesce bp) (\<lambda>_. retE ())))))"

definition implicit_realloc :: "int \<Rightarrow> uint64 \<Rightarrow> ('a mm_scheme, int) cmd" where
  "implicit_realloc ptr n =
     bindE (implicit_malloc n) (\<lambda>newp.
       if newp = NULL then throwE (Exit 1)
       else
         bindE (GET_SIZE (HDRP ptr)) (\<lambda>sz.
         bindE (retE (if n < ucast sz then n else ucast sz)) (\<lambda>copySize.
         bindE (memcpy newp ptr (unat copySize)) (\<lambda>_.
         bindE (implicit_free ptr) (\<lambda>_.
           retE newp)))))"

definition implicit_allocator :: "'a mm_ext allocator" where
  "implicit_allocator = \<lparr>init_op = implicit_init, malloc_op = implicit_malloc,
     free_op = implicit_free, realloc_op = implicit_realloc\<rparr>"

subsection \<open>Blocks at offsets\<close>

primrec block_at :: "block list \<Rightarrow> int \<Rightarrow> block \<Rightarrow> bool" where
  "block_at [] a b \<longleftrightarrow> False"
| "block_at (c # bs) a b \<longleftrightarrow> a = 0 \<and> c = b \<or> block_at bs (a - fst c) b"

definition all_pos :: "block list \<Rightarrow> bool" where
  "all_pos bs \<longleftrightarrow> (\<forall>b\<in>set bs. 0 < fst b)"

lemma all_pos_simps [simp]: "all_pos []" "all_pos (b # bs) \<longleftrightarrow> 0 < fst b \<and> all_pos bs"
  "all_pos (xs @ ys) \<longleftrightarrow> all_pos xs \<and> all_pos ys"
  by (auto simp: all_pos_def)

lemma all_pos_bsum: "all_pos bs \<Longrightarrow> 0 \<le> bsum bs"
  by (induction bs) auto

lemma block_at_append: "block_at (xs @ ys) a b \<longleftrightarrow> block_at xs a b \<or> block_at ys (a - bsum xs) b"
  by (induction xs arbitrary: a) (auto simp: algebra_simps)

lemma block_at_bounds: "all_pos bs \<Longrightarrow> block_at bs a b \<Longrightarrow> 0 \<le> a \<and> 0 < fst b \<and> a + fst b \<le> bsum bs"
proof (induction bs arbitrary: a)
  case (Cons c bs)
  then show ?case using all_pos_bsum [of bs] by fastforce
qed simp

lemma block_at_split:
  assumes "block_at bs a b"
  obtains xs ys where "bs = xs @ b # ys" "a = bsum xs"
  using assms
proof (induction bs arbitrary: a thesis)
  case (Cons c bs)
  show ?case
  proof (cases "a = 0 \<and> c = b")
    case True
    then show ?thesis using Cons.prems(1) [of "[]" bs] by simp
  next
    case False
    then have "block_at bs (a - fst c) b" using Cons.prems(2) by auto
    then obtain xs ys where "bs = xs @ b # ys" "a - fst c = bsum xs" using Cons.IH by blast
    then show ?thesis using Cons.prems(1) [of "c # xs" ys] by simp
  qed
qed simp

lemma block_at_disjoint:
  "all_pos bs \<Longrightarrow> block_at bs a b \<Longrightarrow> block_at bs a' b' \<Longrightarrow>
     a = a' \<and> b = b' \<or> a + fst b \<le> a' \<or> a' + fst b' \<le> a"
proof (induction bs arbitrary: a a')
  case (Cons c bs)
  then have IH: "block_at bs (a - fst c) b \<Longrightarrow> block_at bs (a' - fst c) b' \<Longrightarrow> ?case" by fastforce
  have "block_at bs (x - fst c) y \<Longrightarrow> fst c \<le> x" for x y
    using block_at_bounds [of bs "x - fst c" y] Cons.prems(1) by simp
  then show ?case using Cons.prems(2,3) IH by fastforce
qed simp

lemma block_at_middle: "block_at (xs @ zs @ ys) a b \<longleftrightarrow>
    block_at xs a b \<or> block_at zs (a - bsum xs) b \<or> block_at ys (a - bsum xs - bsum zs) b"
  by (simp add: block_at_append)

lemma wf_all_pos: "wf_heap s bs \<Longrightarrow> all_pos bs"
  using seg_sizes_pos by (auto simp: wf_heap_def all_pos_def)

subsection \<open>The payloads of a heap\<close>

text \<open>
  A payload is an allocated block other than the prologue with room for the request and its tags,
  and there are no other allocated blocks (\<open>no_leak\<close>). The blocks fill the heap up to the break, and
  no two free ones are neighbours.
\<close>

definition block_payloads :: "'a mm_scheme \<Rightarrow> block list \<Rightarrow> payloads \<Rightarrow> bool" where
  "block_payloads s bs L \<longleftrightarrow> (\<forall>p n. L p = Some n \<longrightarrow> 0 < n \<and> n < 2 ^ 31 \<and> p \<noteq> heap_listp s \<and>
     (\<exists>sz. n + 8 \<le> sz \<and> block_at bs (p - heap_listp s) (sz, True)))"

definition no_leak :: "'a mm_scheme \<Rightarrow> block list \<Rightarrow> payloads \<Rightarrow> bool" where
  "no_leak s bs L \<longleftrightarrow> (\<forall>a sz. block_at bs a (sz, True) \<longrightarrow> a = 0 \<or> heap_listp s + a \<in> dom L)"

definition full_heap :: "'a mm_scheme \<Rightarrow> block list \<Rightarrow> bool" where
  "full_heap s bs \<longleftrightarrow> wf_heap s bs \<and> no_free_pair bs \<and> mem_brk s = heap_listp s + bsum bs \<and>
     mem_max_addr s = mem_start_brk s + MAX_HEAP \<and> mem_max_addr s < 2 ^ 64"

definition implicit_cost :: "uint64 \<Rightarrow> int" where
  "implicit_cost k = max (uint k + 16) 65536"

definition implicit_live :: "'a mm_scheme \<Rightarrow> payloads \<Rightarrow> bool" where
  "implicit_live s L \<longleftrightarrow> (\<exists>bs. full_heap s bs \<and> block_payloads s bs L \<and> no_leak s bs L)"

lemma payload_block:
  assumes "full_heap s bs" "block_payloads s bs L" "L p = Some n"
  obtains xs sz ys where "bs = xs @ (sz, True) # ys" "xs \<noteq> []" "p = heap_listp s + bsum xs" "n + 8 \<le> sz" "0 < n" "n < 2 ^ 31"
proof -
  from assms obtain sz where sz: "n + 8 \<le> sz" "block_at bs (p - heap_listp s) (sz, True)" "p \<noteq> heap_listp s" "0 < n" "n < 2 ^ 31"
    unfolding block_payloads_def by blast
  obtain xs ys where "bs = xs @ (sz, True) # ys" "p - heap_listp s = bsum xs" by (rule block_at_split [OF sz(2)])
  then show thesis using that [of xs sz ys] sz by (cases xs) auto
qed

lemma implicit_payload_ok:
  assumes "implicit_live s L" "L p = Some n"
  shows "payload_ok s p n"
proof -
  from assms(1) obtain bs where f: "full_heap s bs" "block_payloads s bs L" "no_leak s bs L" by (auto simp: implicit_live_def)
  obtain xs sz ys where b: "bs = xs @ (sz, True) # ys" "xs \<noteq> []" "p = heap_listp s + bsum xs" "n + 8 \<le> sz" "0 < n" "n < 2 ^ 31"
    by (rule payload_block [OF f(1,2) assms(2)])
  have wf: "wf_heap s (xs @ (sz, True) # ys)" using f(1) b(1) by (simp add: full_heap_def)
  have pos: "0 \<le> bsum xs" "0 \<le> bsum ys" using wf_all_pos [OF wf] by (auto intro: all_pos_bsum)
  have "8 dvd bsum zs" if "seg m a zs" for m a zs
    using that by (induction zs arbitrary: a) (auto simp: block_ok_def size_ok_def)
  then have "8 dvd p" using wf b(3) by (auto simp: wf_heap_def)
  then have "IS_ALIGNED p" using ptr_aligned_iff [of p] by (simp add: IS_ALIGNED_def ALIGNMENT_def ptr_aligned_def)
  then show ?thesis using b f(1) wf pos by (auto simp: payload_ok_def full_heap_def wf_heap_def)
qed

lemma implicit_disjoint:
  assumes "implicit_live s L"
  shows "disjoint_payloads L"
  unfolding disjoint_payloads_def
proof (intro allI impI)
  fix p q n m assume pq: "L p = Some n" "L q = Some m" "p \<noteq> q"
  from assms obtain bs where f: "full_heap s bs" "block_payloads s bs L" "no_leak s bs L" by (auto simp: implicit_live_def)
  then obtain sp sq where "n + 8 \<le> sp" "block_at bs (p - heap_listp s) (sp, True)" "m + 8 \<le> sq" "block_at bs (q - heap_listp s) (sq, True)"
    using pq unfolding block_payloads_def by blast
  then show "p + n \<le> q \<or> q + m \<le> p"
    using block_at_disjoint [of bs "p - heap_listp s" "(sp, True)" "q - heap_listp s" "(sq, True)"] f(1) pq(3) wf_all_pos
    by (fastforce simp: full_heap_def)
qed

text \<open>Writing inside a payload leaves the tags alone.\<close>

lemma implicit_write:
  assumes "implicit_live s L" "L p = Some n" "\<And>x. x < p \<or> p + n \<le> x \<Longrightarrow> m' x = mem s x"
  shows "implicit_live (s\<lparr>mem := m'\<rparr>) L"
proof -
  from assms(1) obtain bs where f: "full_heap s bs" "block_payloads s bs L" "no_leak s bs L" by (auto simp: implicit_live_def)
  obtain xs sz ys where b: "bs = xs @ (sz, True) # ys" "xs \<noteq> []" "p = heap_listp s + bsum xs" "n + 8 \<le> sz" "0 < n" "n < 2 ^ 31"
    by (rule payload_block [OF f(1,2) assms(2)])
  have wf: "wf_heap s (xs @ [(sz, True)] @ ys)" using f(1) b(1) by (simp add: full_heap_def)
  have "block_ok (mem s) p (sz, True)" using wf_heap_block(1) [of s xs "(sz, True)" ys] wf b(3) by simp
  moreover have "get32 m' (p - 4) = get32 (mem s) (p - 4)" "get32 m' (p + sz - 8) = get32 (mem s) (p + sz - 8)"
    using assms(3) b(4) by (intro get32_local; simp)+
  ultimately have "block_ok m' p (sz, True)" by (simp add: block_ok_def)
  then have "wf_heap (s\<lparr>mem := m'\<rparr>) (xs @ [(sz, True)] @ ys)"
    using assms(3) b(3,4,5) by (intro wf_heap_replace [OF wf b(2)]) auto
  then show ?thesis using f b(1) by (auto simp: implicit_live_def full_heap_def block_payloads_def no_leak_def)
qed

text \<open>Replacing a stretch of blocks keeps the payloads that are not in it.\<close>

lemma payloads_replace:
  assumes "block_payloads s (xs @ zs @ ys) L" "bsum zs' = bsum zs" "heap_listp s' = heap_listp s"
    and "\<And>p n sz. L p = Some n \<Longrightarrow> block_at zs (p - heap_listp s - bsum xs) (sz, True) \<Longrightarrow> False"
  shows "block_payloads s' (xs @ zs' @ ys) L"
  unfolding block_payloads_def
proof (intro allI impI)
  fix p n assume L: "L p = Some n"
  then obtain sz where sz: "0 < n" "n < 2 ^ 31" "p \<noteq> heap_listp s" "n + 8 \<le> sz" "block_at (xs @ zs @ ys) (p - heap_listp s) (sz, True)"
    using assms(1) unfolding block_payloads_def by blast
  moreover have "block_at (xs @ zs' @ ys) (p - heap_listp s) (sz, True)"
    using sz(5) assms(2) assms(4) [OF L, of sz] unfolding block_at_middle by auto
  ultimately show "0 < n \<and> n < 2 ^ 31 \<and> p \<noteq> heap_listp s' \<and>
     (\<exists>sz. n + 8 \<le> sz \<and> block_at (xs @ zs' @ ys) (p - heap_listp s') (sz, True))"
    using assms(3) by auto
qed

text \<open>And a step that writes inside that stretch only leaves their bytes alone.\<close>

lemma payloads_untouched:
  assumes "block_payloads s (xs @ zs @ ys) L" "all_pos (xs @ zs @ ys)"
    and "\<And>p n sz. L p = Some n \<Longrightarrow> block_at zs (p - heap_listp s - bsum xs) (sz, True) \<Longrightarrow> False"
    and "\<And>x. x < heap_listp s + bsum xs - 4 \<or> heap_listp s + bsum xs + bsum zs - 4 \<le> x \<Longrightarrow> mem s' x = mem s x"
  shows "untouched L s s'"
  unfolding untouched_def
proof (intro allI impI)
  fix p n a assume L: "L p = Some n" and a: "p \<le> a" "a < p + n"
  then obtain sz where sz: "n + 8 \<le> sz" "block_at (xs @ zs @ ys) (p - heap_listp s) (sz, True)"
    using assms(1) unfolding block_payloads_def by blast
  then consider "block_at xs (p - heap_listp s) (sz, True)" | "block_at ys (p - heap_listp s - bsum xs - bsum zs) (sz, True)"
    using assms(3) [OF L, of sz] unfolding block_at_middle by auto
  then show "mem s' a = mem s a"
  proof cases
    case 1
    then show ?thesis using block_at_bounds [OF _ 1] assms(2) sz(1) a by (intro assms(4)) auto
  next
    case 2
    then show ?thesis using block_at_bounds [OF _ 2] assms(2) sz(1) a by (intro assms(4)) auto
  qed
qed

subsection \<open>Placing a request in a free block\<close>

lemma size_ok_word: "8 dvd uint w \<Longrightarrow> size_ok (uint (w :: uint32))"
  using uint_lt2p [of w] by (simp add: size_ok_def)

lemma payloads_insert:
  assumes "block_payloads s bs L" "0 < k" "k < 2 ^ 31" "p \<noteq> heap_listp s" "k + 8 \<le> c"
    and "block_at bs (p - heap_listp s) (c, True)"
  shows "block_payloads s bs (L(p \<mapsto> k))"
  unfolding block_payloads_def
proof (intro allI impI)
  fix q n assume q: "(L(p \<mapsto> k)) q = Some n"
  show "0 < n \<and> n < 2 ^ 31 \<and> q \<noteq> heap_listp s \<and>
     (\<exists>sz. n + 8 \<le> sz \<and> block_at bs (q - heap_listp s) (sz, True))"
  proof (cases "q = p")
    case True
    then show ?thesis using q assms(2-6) by (intro conjI exI [of _ c]) simp_all
  next
    case False
    then show ?thesis using q assms(1) by (simp add: block_payloads_def)
  qed
qed

lemma split_block_allocated: "block_at (split_block csz n) a (z, True) \<Longrightarrow> a = 0"
  by (auto simp: split_block_def split: if_splits)

lemma split_no_free_pair:
  "no_free_pair (xs @ (csz, False) # ys) \<Longrightarrow> no_free_pair (xs @ split_block csz n @ ys)"
  by (auto simp: no_free_pair_append no_free_pair_Cons split_block_def)

lemma split_block_head: "n \<le> csz \<Longrightarrow> \<exists>c r. split_block csz n = (c, True) # r \<and> n \<le> c"
  by (auto simp: split_block_def)

lemma implicit_place:
  assumes f: "full_heap s (xs @ (csz, False) # ys)" and L: "block_payloads s (xs @ (csz, False) # ys) L"
      "no_leak s (xs @ (csz, False) # ys) L"
    and n: "size_ok n" "16 \<le> n" "n \<le> csz" "k + 8 \<le> n" "0 < k" "k < 2 ^ 31"
  defines "p \<equiv> heap_listp s + bsum xs"
  shows "\<exists>h'. place p (word_of_int n) s = Inr ((), h') \<and> p \<noteq> NULL \<and> L p = None \<and>
     implicit_live h' (L(p \<mapsto> k)) \<and> untouched L s h' \<and> grows 0 s h'"
proof -
  let ?bs = "xs @ [(csz, False)] @ ys"
  have wf: "wf_heap s (xs @ (csz, False) # ys)" using f by (simp add: full_heap_def)
  obtain m' where m': "place p (word_of_int n) s = Inr ((), s\<lparr>mem := m'\<rparr>)"
      "wf_heap (s\<lparr>mem := m'\<rparr>) (xs @ split_block csz n @ ys)"
      "\<And>x. x < p - 4 \<or> p + csz - 4 \<le> x \<Longrightarrow> m' x = mem s x"
    using place_on_blocks [OF wf n(1-3)] unfolding p_def by blast
  have pos: "all_pos ?bs" using wf_all_pos [OF wf] by simp
  have xs: "xs \<noteq> []" using wf_heap_free_split [OF wf] by blast
  then obtain x zs where "xs = x # zs" by (cases xs) auto
  then have bx: "0 < bsum xs" using pos all_pos_bsum [of zs] by simp
  have sum: "bsum (split_block csz n) = csz" by (simp add: split_block_def)
  obtain c r where c: "split_block csz n = (c, True) # r" "n \<le> c" using split_block_head [OF n(3)] by blast
  have none: "L p = None"
  proof (rule ccontr)
    assume "L p \<noteq> None"
    then obtain m sz where "block_at ?bs (p - heap_listp s) (sz, True)"
      using L(1) unfolding block_payloads_def by fastforce
    moreover have "block_at ?bs (p - heap_listp s) (csz, False)" by (simp add: block_at_append p_def)
    ultimately show False
      using block_at_disjoint [OF pos, of "p - heap_listp s" "(sz, True)" "p - heap_listp s" "(csz, False)"]
        block_at_bounds [OF pos] by fastforce
  qed
  have no: "block_at [(csz, False)] x (sz, True) \<Longrightarrow> False" for x sz by simp
  have keep: "block_payloads (s\<lparr>mem := m'\<rparr>) (xs @ split_block csz n @ ys) L"
    by (rule payloads_replace [of s xs "[(csz, False)]"]) (use L(1) in \<open>simp_all add: sum\<close>)
  have "block_at (xs @ split_block csz n @ ys) (bsum xs) (c, True)"
    unfolding block_at_append by (subst c(1)) simp
  then have "block_payloads (s\<lparr>mem := m'\<rparr>) (xs @ split_block csz n @ ys) (L(p \<mapsto> k))"
    using n(4-6) c(2) bx by (intro payloads_insert [OF keep, of k p c]) (simp_all add: p_def)
  moreover have "full_heap (s\<lparr>mem := m'\<rparr>) (xs @ split_block csz n @ ys)"
    using f m'(2) sum split_no_free_pair by (simp add: full_heap_def)
  moreover have "no_leak (s\<lparr>mem := m'\<rparr>) (xs @ split_block csz n @ ys) (L(p \<mapsto> k))"
    unfolding no_leak_def
  proof (intro allI impI)
    fix a z assume "block_at (xs @ split_block csz n @ ys) a (z, True)"
    then consider "block_at (split_block csz n) (a - bsum xs) (z, True)" | "block_at ?bs a (z, True)"
      unfolding block_at_middle sum by auto
    then show "a = 0 \<or> heap_listp (s\<lparr>mem := m'\<rparr>) + a \<in> dom (L(p \<mapsto> k))"
    proof cases
      case 1
      then have "heap_listp s + a = p" using split_block_allocated [OF 1] by (simp add: p_def)
      then show ?thesis by simp
    next
      case 2
      then show ?thesis using L(2) unfolding no_leak_def by auto
    qed
  qed
  moreover have "untouched L s (s\<lparr>mem := m'\<rparr>)"
    by (rule payloads_untouched [of s xs "[(csz, False)]" ys]) (use L(1) pos m'(3) in \<open>simp_all add: p_def\<close>)
  moreover have "p \<noteq> NULL" using wf_heap_arena(3) [OF wf] bx by (simp add: p_def NULL_def)
  ultimately show ?thesis using m'(1) none by (auto simp: implicit_live_def grows_def)
qed

subsection \<open>free\<close>

lemma merge_left_split:
  fixes bs :: "block list"
  obtains l where "bs = fst (merge_left bs) @ l" "bsum l = snd (merge_left bs)" "\<forall>a z. \<not> block_at l a (z, True)"
proof (cases "bs \<noteq> [] \<and> \<not> snd (last bs)")
  case True
  then have "bs = butlast bs @ [last bs]" by simp
  moreover have "last bs = (fst (last bs), False)" using True by (metis prod.collapse)
  ultimately show thesis using True that [of "[last bs]"] by (simp add: merge_left_def) (metis prod.inject)
qed (use that [of "[]"] in \<open>auto simp: merge_left_def\<close>)

lemma implicit_free_mem:
  assumes live: "implicit_live s L" and L: "L p = Some n"
  shows "\<exists>m'. implicit_free p s = Inr ((), s\<lparr>mem := m'\<rparr>) \<and> implicit_live (s\<lparr>mem := m'\<rparr>) (L(p := None)) \<and>
     untouched (L(p := None)) s (s\<lparr>mem := m'\<rparr>)"
proof -
  let ?L = "L(p := None)"
  from live obtain bs where f: "full_heap s bs" "block_payloads s bs L" "no_leak s bs L" by (auto simp: implicit_live_def)
  obtain xs sz ys where b: "bs = xs @ (sz, True) # ys" "xs \<noteq> []" "p = heap_listp s + bsum xs" "n + 8 \<le> sz" "0 < n" "n < 2 ^ 31"
    by (rule payload_block [OF f(1,2) L])
  have wf: "wf_heap s (xs @ [(sz, True)] @ ys)" using f(1) b(1) by (simp add: full_heap_def)
  have ok: "block_ok (mem s) p (sz, True)" and ar: "in_arena s (p - 4) (p + sz - 4)"
    using wf_heap_block [of s xs "(sz, True)" ys] wf b(3) by (auto intro: in_arena_sub)
  then have sz: "size_ok sz" "16 \<le> sz" by (simp_all add: block_ok_def)
  let ?m = "set_block (mem s) p (sz, False)" and ?s = "s\<lparr>mem := set_block (mem s) p (sz, False)\<rparr>"
  have o: "?m x = mem s x" if "x < p - 4 \<or> p + sz - 4 \<le> x" for x using that sz by (auto simp: set_block_outside)
  have wf': "wf_heap ?s (xs @ [(sz, False)] @ ys)"
    using o sz b(3) by (intro wf_heap_replace [OF wf b(2)]) (auto simp: set_block_ok)
  let ?ls = "fst (merge_left xs)" and ?psz = "snd (merge_left xs)" and ?rs = "fst (merge_right ys)" and ?nsz = "snd (merge_right ys)"
  obtain m' where m': "coalesce p ?s = Inr (heap_listp s + bsum ?ls, s\<lparr>mem := m'\<rparr>)"
      "wf_heap (s\<lparr>mem := m'\<rparr>) (?ls @ (?psz + sz + ?nsz, False) # ?rs)"
      "\<And>x. x < heap_listp s + bsum ?ls - 4 \<or> p + sz + ?nsz - 4 \<le> x \<Longrightarrow> m' x = ?m x"
    using coalesce_refines [of ?s xs sz ys] wf' b(3) by auto
  have g: "GET_SIZE (p - 4) s = Inr (word_of_int sz, s)"
    using ok ar sz by (simp add: run_simps in_arenaD tag_simps block_ok_def)
  have run: "implicit_free p s = Inr ((), s\<lparr>mem := m'\<rparr>)"
    unfolding implicit_free_def HDRP_run
    by (simp add: bindE_step g PACK_tag put_block_run(2) [OF ar sz] m'(1))
  obtain l where l: "xs = ?ls @ l" "bsum l = ?psz" "\<forall>a z. \<not> block_at l a (z, True)" by (rule merge_left_split [of xs])
  obtain r where r: "ys = r @ ?rs" "bsum r = ?nsz" "\<And>a z. \<not> block_at r a (z, True)"
  proof (cases ys rule: merge_right.cases)
    case (1 k ys')
    then show thesis using that [of "[(k, False)]"] by simp
  qed (use that [of "[]"] in simp_all)
  let ?zs = "l @ (sz, True) # r"
  have bs: "bs = ?ls @ ?zs @ ?rs" using b(1) l(1) r(1) by (metis append.assoc append_Cons)
  have px: "p - heap_listp s - bsum ?ls = bsum l" using b(3) l(1) by (metis add_diff_cancel_left' bsum_simps(3) diff_diff_eq)
  have pos: "all_pos bs" using wf_all_pos f(1) by (auto simp: full_heap_def)
  have only: False if q: "?L q = Some m" "block_at ?zs (q - heap_listp s - bsum ?ls) (z, True)" for q m z
  proof -
    have "q - heap_listp s - bsum ?ls = bsum l" using q(2) l(3) r(3) unfolding block_at_append by auto
    then have "q = p" using px by simp
    then show False using q(1) by simp
  qed
  have L': "block_payloads s bs ?L" using f(2) unfolding block_payloads_def by auto
  have "block_payloads (s\<lparr>mem := m'\<rparr>) (?ls @ [(?psz + sz + ?nsz, False)] @ ?rs) ?L"
  proof (rule payloads_replace [of s ?ls ?zs ?rs])
    show "block_payloads s (?ls @ ?zs @ ?rs) ?L" using L' unfolding bs .
    show "bsum [(?psz + sz + ?nsz, False)] = bsum ?zs" using l(2) r(2) by simp
  qed (use only in auto)
  moreover have "untouched ?L s (s\<lparr>mem := m'\<rparr>)"
  proof (rule payloads_untouched [of s ?ls ?zs ?rs])
    have nn: "0 \<le> bsum l" "0 \<le> bsum r" using pos all_pos_bsum unfolding bs by auto
    fix x assume x: "x < heap_listp s + bsum ?ls - 4 \<or> heap_listp s + bsum ?ls + bsum ?zs - 4 \<le> x"
    then have "m' x = ?m x" using m'(3) px l(2) r(2) by auto
    also have "\<dots> = mem s x" using o [of x] x px nn by auto
    finally show "mem (s\<lparr>mem := m'\<rparr>) x = mem s x" by simp
  next
    show "block_payloads s (?ls @ ?zs @ ?rs) ?L" "all_pos (?ls @ ?zs @ ?rs)" using L' pos unfolding bs by simp_all
  qed (rule only)
  moreover have "full_heap (s\<lparr>mem := m'\<rparr>) (?ls @ [(?psz + sz + ?nsz, False)] @ ?rs)"
  proof -
    have "no_free_pair xs" "no_free_pair ys" using f(1) unfolding full_heap_def b(1) no_free_pair_append no_free_pair_Cons by auto
    then have "no_free_pair (?ls @ (?psz + sz + ?nsz, False) # ?rs)" by (rule merge_no_free_pair)
    then show ?thesis using f(1) m'(2) l(2) r(2) bs by (simp add: full_heap_def)
  qed
  moreover have "no_leak (s\<lparr>mem := m'\<rparr>) (?ls @ [(?psz + sz + ?nsz, False)] @ ?rs) ?L"
    unfolding no_leak_def
  proof (intro allI impI)
    fix a z assume at: "block_at (?ls @ [(?psz + sz + ?nsz, False)] @ ?rs) a (z, True)"
    have nn: "0 \<le> bsum l" "0 \<le> bsum r" "all_pos ?ls" "all_pos ?rs" using pos all_pos_bsum unfolding bs by auto
    from at consider "block_at ?ls a (z, True)" | "block_at ?rs (a - bsum ?ls - bsum ?zs) (z, True)"
      unfolding block_at_middle using l(2) r(2) by (auto simp: add.assoc)
    then have "block_at bs a (z, True) \<and> heap_listp s + a \<noteq> p"
    proof cases
      case 1
      then show ?thesis using block_at_bounds [OF nn(3) 1] px nn unfolding bs block_at_middle by auto
    next
      case 2
      then show ?thesis using block_at_bounds [OF nn(4) 2] px nn sz(2) unfolding bs block_at_middle by auto
    qed
    then show "a = 0 \<or> heap_listp (s\<lparr>mem := m'\<rparr>) + a \<in> dom ?L" using f(3) unfolding no_leak_def by auto
  qed
  ultimately show ?thesis using run unfolding implicit_live_def by blast
qed

lemma implicit_free_run:
  assumes "implicit_live s L" "L p = Some n"
  shows "\<exists>h'. implicit_free p s = Inr ((), h') \<and> implicit_live h' (L(p := None)) \<and>
     untouched (L(p := None)) s h' \<and> grows 0 s h'"
proof -
  obtain m' where "implicit_free p s = Inr ((), s\<lparr>mem := m'\<rparr>)" "implicit_live (s\<lparr>mem := m'\<rparr>) (L(p := None))"
     "untouched (L(p := None)) s (s\<lparr>mem := m'\<rparr>)"
    using implicit_free_mem [OF assms] by blast
  moreover have "grows 0 s (s\<lparr>mem := m'\<rparr>)" by (simp add: grows_def)
  ultimately show ?thesis by blast
qed

subsection \<open>Extending the heap\<close>

lemma mem_sbrk_grants:
  assumes "0 \<le> sint k" "mem_brk s + sint k \<le> mem_max_addr s"
  shows "mem_sbrk k s = Inr (mem_brk s, s\<lparr>mem_brk := mem_brk s + sint k\<rparr>)"
  using assms by (simp add: mem_sbrk_def bindE_def)

lemma sint_of_small: "uint (k :: uint32) < 2 ^ 31 \<Longrightarrow> sint k = uint k"
  by (simp add: sint_uint signed_take_bit_int_eq_self uint_ge_0 order_trans [of "- 2147483648" 0])

lemma extend_run:
  fixes k :: uint32
  assumes f: "full_heap s bs" and k: "8 dvd uint k" "24 \<le> uint k" "uint k < 2 ^ 31" and r: "mem_brk s + uint k \<le> mem_max_addr s"
  shows "\<exists>m'. implicit_extend (ucast (k div 4)) s
      = Inr (heap_listp s + bsum (fst (merge_left bs)), s\<lparr>mem_brk := mem_brk s + uint k, mem := m'\<rparr>) \<and>
     full_heap (s\<lparr>mem_brk := mem_brk s + uint k, mem := m'\<rparr>) (fst (merge_left bs) @ [(snd (merge_left bs) + uint k, False)]) \<and>
     (\<forall>x. x < heap_listp s + bsum (fst (merge_left bs)) - 4 \<longrightarrow> m' x = mem s x)"
  (is "\<exists>m'. ?P m'")
proof -
  let ?k = "uint k" and ?bp = "mem_brk s"
  have wf: "wf_heap s bs" and brk: "?bp = heap_listp s + bsum bs" using f by (simp_all add: full_heap_def)
  let ?s = "s\<lparr>mem_brk := ?bp + ?k\<rparr>"
  let ?m = "put32 (set_block (mem s) ?bp (?k, False)) (?bp + ?k - 4) (tag 0 True)"
  have kok: "size_ok ?k" "16 \<le> ?k" "word_of_int ?k = k" using k by (simp_all add: size_ok_word)
  have sk: "sint k = ?k" using k by (simp add: sint_of_small)
  have nn: "0 \<le> bsum bs" using wf_all_pos [OF wf] by (rule all_pos_bsum)
  have ar: "in_arena ?s (?bp - 4) (?bp + ?k)" using wf brk r nn by (auto simp: in_arena_def wf_heap_def)
  have 1: "mem_sbrk k s = Inr (?bp, ?s)" using k r sk by (simp add: mem_sbrk_grants)
  have nf: "?bp \<noteq> SBRK_FAILED" using f k r by (simp add: full_heap_def SBRK_FAILED_def)
  have ar1: "in_arena ?s (?bp - 4) (?bp + ?k - 4)" using ar by (simp add: in_arena_def)
  let ?u = "?s\<lparr>mem := set_block (mem s) ?bp (?k, False)\<rparr>" and ?t = "?s\<lparr>mem := ?m\<rparr>"
  have 2: "NEXT_BLKP ?bp ?u = Inr (?bp + ?k, ?u)"
    using block_header(1) [OF set_block_ok [of "(?k, False)" "mem s" ?bp]] ar kok
    by (simp add: run_simps in_arenaD tag_simps)
  have 3: "PUT (?bp + ?k - 4) (tag 0 True) ?u = Inr ((), ?t)" using ar kok by (simp add: run_simps in_arenaD)
  have 4: "PACK k 0 = tag ?k False" "PACK 0 1 = tag 0 True" by (simp_all add: tag_def)
  have o: "?m x = mem s x" if "x < ?bp - 4" for x using that kok by (auto simp: put32_outside set_block_outside)
  have ad: "size_ok 0" by (simp add: size_ok_def)
  have seg: "seg ?m (heap_listp s) bs" using wf o brk by (auto simp: wf_heap_def elim!: seg_frame)
  moreover have "block_ok ?m ?bp (?k, False)"
    by (rule block_ok_frame [OF _ set_block_ok]) (use kok in \<open>auto simp: put32_outside\<close>)
  ultimately have wf': "wf_heap ?t (bs @ (?k, False) # [])"
    using wf brk r k(2) by (auto simp: wf_heap_def c32.rd_wr_same)
  have run: "implicit_extend (ucast (k div 4)) s = coalesce ?bp ?t"
    unfolding implicit_extend_def extend_size_exact [OF k(1,2)] HDRP_run
    using nf by (simp add: bindE_step 1 4 put_block_run(2) [OF ar1 kok(1,2)] 2 3)
  obtain m' where m': "coalesce ?bp ?t = Inr (heap_listp s + bsum (fst (merge_left bs)), ?t\<lparr>mem := m'\<rparr>)"
      "wf_heap (?t\<lparr>mem := m'\<rparr>) (fst (merge_left bs) @ [(snd (merge_left bs) + ?k, False)])"
      "\<And>x. x < heap_listp s + bsum (fst (merge_left bs)) - 4 \<Longrightarrow> m' x = ?m x"
    using coalesce_refines [OF wf'] brk by auto
  have l: "bsum (fst (merge_left bs)) + snd (merge_left bs) = bsum bs \<and> 0 \<le> snd (merge_left bs)"
    using wf_all_pos [OF wf] by (cases bs rule: rev_cases) (auto simp: merge_left_def)
  have "no_free_pair (fst (merge_left bs) @ [(snd (merge_left bs) + ?k, False)])"
    using merge_no_free_pair [of bs "[]"] f by (simp add: full_heap_def)
  then have "?P m'"
    using run m' o brk l f r by (auto simp: full_heap_def)
  then show ?thesis by blast
qed

text \<open>The new free block keeps the payloads; a request that is not larger fits in it.\<close>

lemma extend_payloads:
  assumes f: "full_heap s bs" and L: "block_payloads s bs L" "no_leak s bs L"
    and t: "full_heap t (fst (merge_left bs) @ [(snd (merge_left bs) + k, False)])" "heap_listp t = heap_listp s"
      "\<And>x. x < heap_listp s + bsum (fst (merge_left bs)) - 4 \<Longrightarrow> mem t x = mem s x"
  shows "block_payloads t (fst (merge_left bs) @ [(snd (merge_left bs) + k, False)]) L" "untouched L s t"
    "no_leak t (fst (merge_left bs) @ [(snd (merge_left bs) + k, False)]) L"
proof -
  obtain l where l: "bs = fst (merge_left bs) @ l" "bsum l = snd (merge_left bs)" "\<forall>a z. \<not> block_at l a (z, True)"
    by (rule merge_left_split [of bs])
  let ?ls = "fst (merge_left bs)"
  have pos: "all_pos ?ls" using t(1) wf_all_pos [of t "?ls @ [(snd (merge_left bs) + k, False)]"] by (simp add: full_heap_def)
  have at: "block_at ?ls a (z, True)" if "block_at bs a (z, True)" for a z
    using that l(3) by (subst (asm) l(1)) (auto simp: block_at_append)
  show "block_payloads t (?ls @ [(snd (merge_left bs) + k, False)]) L"
    unfolding block_payloads_def
  proof (intro allI impI)
    fix p n assume "L p = Some n"
    then obtain sz where "0 < n" "n < 2 ^ 31" "p \<noteq> heap_listp s" "n + 8 \<le> sz" "block_at bs (p - heap_listp s) (sz, True)"
      using L(1) unfolding block_payloads_def by blast
    then show "0 < n \<and> n < 2 ^ 31 \<and> p \<noteq> heap_listp t \<and>
       (\<exists>sz. n + 8 \<le> sz \<and> block_at (?ls @ [(snd (merge_left bs) + k, False)]) (p - heap_listp t) (sz, True))"
      using at t(2) unfolding block_at_append by auto
  qed
  show "untouched L s t"
    unfolding untouched_def
  proof (intro allI impI)
    fix p n a assume "L p = Some n" and a: "p \<le> a" "a < p + n"
    then obtain sz where "n + 8 \<le> sz" "block_at ?ls (p - heap_listp s) (sz, True)"
      using L(1) at unfolding block_payloads_def by blast
    then have "a < heap_listp s + bsum ?ls - 4" using block_at_bounds [OF pos] a by fastforce
    then show "mem t a = mem s a" by (rule t(3))
  qed
  have "block_at bs a (z, True)" if "block_at (?ls @ [(snd (merge_left bs) + k, False)]) a (z, True)" for a z
    using that by (subst l(1)) (auto simp: block_at_append)
  then show "no_leak t (?ls @ [(snd (merge_left bs) + k, False)]) L" using L(2) unfolding no_leak_def t(2) by blast
qed

subsection \<open>malloc\<close>

text \<open>
  A request is granted, or there is no room for it in the arena; then \<open>NULL\<close> is returned and
  nothing but \<open>errno\<close> changes.
\<close>

definition granted :: "payloads \<Rightarrow> uint64 \<Rightarrow> 'a mm_scheme \<Rightarrow> int \<Rightarrow> 'a mm_scheme \<Rightarrow> bool" where
  "granted L k s p t \<longleftrightarrow> p \<noteq> NULL \<and> L p = None \<and> implicit_live t (L(p \<mapsto> uint k)) \<and> untouched L s t \<and> grows (implicit_cost k) s t"

lemma implicit_malloc_cases:
  assumes live: "implicit_live s L" and k: "request_size k"
  shows "(\<exists>p h'. implicit_malloc k s = Inr (p, h') \<and> granted L k s p h') \<or>
     implicit_malloc k s = Inr (NULL, s\<lparr>errno := ENOMEM\<rparr>) \<and> \<not> has_room (implicit_cost k) s"
proof -
  from live obtain bs where f: "full_heap s bs" "block_payloads s bs L" "no_leak s bs L" by (auto simp: implicit_live_def)
  have wf: "wf_heap s bs" using f(1) by (simp add: full_heap_def)
  have k0: "k \<noteq> 0" using k by (auto simp: request_size_def)
  have r: "0 < uint k" "uint k < 2 ^ 31" "uint k \<le> 2 ^ 32 - 16" using k by (auto simp: request_size_def)
  let ?w = "adjust_size k" let ?n = "uint ?w"
  have n: "size_ok ?n" "uint k + 8 \<le> ?n" "0 < uint k" "uint k < 2 ^ 31" "?n < uint k + 16" "8 dvd ?n"
    using adjust_size_bounds [OF k0] r size_ok_word [of ?w] by blast+
  then have n16: "16 \<le> ?n" by presburger
  have a: "word_of_int ?n = (ucast ?w :: uint64)" by (rule ucast_eq [symmetric])
  have start: "implicit_malloc k s = (if first_fit (heap_listp s) bs ?n \<noteq> NULL
       then bindE (place (first_fit (heap_listp s) bs ?n) (ucast ?w)) (\<lambda>_. retE (first_fit (heap_listp s) bs ?n)) s
       else bindE (implicit_extend (ucast (max ?w CHUNKSIZE div 4))) (\<lambda>bp.
              if bp = NULL then retE NULL
              else bindE (place bp (ucast ?w)) (\<lambda>_. retE bp)) s)"
    using k0 unfolding implicit_malloc_def by (simp add: bindE_step find_fit_refines [OF wf n(1), unfolded a])
  have pos: "\<forall>b\<in>set bs. 0 < fst b" using wf seg_sizes_pos by (auto simp: wf_heap_def)
  from first_fit_cases [OF wf_heap_arena(3) [OF wf] pos, of ?n]
  consider (fit) xs sz ys where "bs = xs @ (sz, False) # ys" "?n \<le> sz" "first_fit (heap_listp s) bs ?n = heap_listp s + bsum xs"
      "first_fit (heap_listp s) bs ?n \<noteq> NULL"
    | (more) "first_fit (heap_listp s) bs ?n = NULL" by blast
  then show ?thesis
  proof cases
    case fit
    from implicit_place [of s xs sz ys L ?n "uint k", unfolded a] f fit(1,2) n n16
    show ?thesis using start fit(3,4) by (auto simp: bindE_step granted_def grows_def implicit_cost_def)
  next
    case more
    let ?k = "max ?w CHUNKSIZE"
    have kk: "8 dvd uint ?k" "24 \<le> uint ?k" "?n \<le> uint ?k" "65536 \<le> uint ?k"
      using n(6) by (auto simp: max_def CHUNKSIZE_def word_le_def)
    have kc: "uint ?k \<le> implicit_cost k"
      using n(5) unfolding max_def CHUNKSIZE_def word_le_def implicit_cost_def by simp
    have brk: "mem_start_brk s \<le> mem_brk s" "mem_max_addr s = mem_start_brk s + MAX_HEAP"
      using f(1) all_pos_bsum [OF wf_all_pos [OF wf]] by (simp_all add: full_heap_def wf_heap_def)
    show ?thesis
    proof (cases "mem_brk s + uint ?k \<le> mem_max_addr s")
      case False
      have "mem_sbrk ?k s = Inr (SBRK_FAILED, s\<lparr>errno := ENOMEM\<rparr>)" using False by (intro mem_sbrk_fails) simp
      then have "implicit_extend (ucast (?k div 4)) s = Inr (NULL, s\<lparr>errno := ENOMEM\<rparr>)"
        unfolding implicit_extend_def extend_size_exact [OF kk(1,2)] by (simp add: bindE_step)
      moreover have "\<not> has_room (implicit_cost k) s" using False kc by (simp add: has_room_def)
      ultimately show ?thesis using start more by (simp add: bindE_step)
    next
      case rm: True
      have small: "uint ?k < 2 ^ 31" using rm brk by (simp add: MAX_HEAP_def)
      let ?ls = "fst (merge_left bs)" and ?psz = "snd (merge_left bs)"
      obtain m' where m': "implicit_extend (ucast (?k div 4)) s
         = Inr (heap_listp s + bsum ?ls, s\<lparr>mem_brk := mem_brk s + uint ?k, mem := m'\<rparr>)"
        "full_heap (s\<lparr>mem_brk := mem_brk s + uint ?k, mem := m'\<rparr>) (?ls @ [(?psz + uint ?k, False)])"
        "\<And>x. x < heap_listp s + bsum ?ls - 4 \<Longrightarrow> m' x = mem s x"
        using extend_run [OF f(1) kk(1,2) small rm] by auto
      let ?t = "s\<lparr>mem_brk := mem_brk s + uint ?k, mem := m'\<rparr>"
      have e: "block_payloads ?t (?ls @ [(?psz + uint ?k, False)]) L" "untouched L s ?t" "no_leak ?t (?ls @ [(?psz + uint ?k, False)]) L"
        using extend_payloads [OF f m'(2)] m'(3) by simp_all
      have "0 \<le> ?psz" using wf_all_pos [OF wf] by (cases bs rule: rev_cases) (auto simp: merge_left_def)
      then obtain h' where h: "place (heap_listp s + bsum ?ls) (ucast ?w) ?t = Inr ((), h')"
          "heap_listp s + bsum ?ls \<noteq> NULL" "L (heap_listp s + bsum ?ls) = None"
          "implicit_live h' (L(heap_listp s + bsum ?ls \<mapsto> uint k))" "untouched L ?t h'" "grows 0 ?t h'"
        using implicit_place [of ?t ?ls "?psz + uint ?k" "[]" L ?n "uint k", unfolded a] m'(2) e(1,3) n n16 kk by auto
      have "untouched L s h'" using e(2) h(5) unfolding untouched_def by metis
      then show ?thesis using start more m'(1) h(1-4,6) kc by (simp add: bindE_step granted_def grows_def)
    qed
  qed
qed

lemma implicit_malloc_run:
  assumes "implicit_live s L" "request_size k" "has_room (implicit_cost k) s"
  shows "\<exists>p h'. implicit_malloc k s = Inr (p, h') \<and> p \<noteq> NULL \<and> L p = None \<and>
     implicit_live h' (L(p \<mapsto> uint k)) \<and> untouched L s h' \<and> grows (implicit_cost k) s h'"
  using implicit_malloc_cases [OF assms(1,2)] assms(3) unfolding granted_def by blast

subsection \<open>realloc\<close>

lemma memcpy_run:
  assumes "accessible s src (int n)" "accessible s dst (int n)" "dst + int n \<le> src \<or> src + int n \<le> dst"
  shows "memcpy dst src n s = Inr ((), s\<lparr>mem := (\<lambda>a. if dst \<le> a \<and> a < dst + int n then mem s (src + (a - dst)) else mem s a)\<rparr>)"
  using assms
proof (induction n arbitrary: dst src s)
  case 0
  have "(\<lambda>a. if dst \<le> a \<and> a < dst + int 0 then mem s (src + (a - dst)) else mem s a) = mem s" by (rule ext) auto
  then show ?case by simp
next
  case (Suc n)
  let ?s = "s\<lparr>mem := (mem s)(dst := mem s src)\<rparr>"
  have a: "accessible s src 1" "accessible s dst 1" "accessible ?s (src + 1) (int n)" "accessible ?s (dst + 1) (int n)"
    "dst + 1 + int n \<le> src + 1 \<or> src + 1 + int n \<le> dst + 1"
    using Suc.prems by (auto simp: accessible_def)
  have "(\<lambda>a. if dst + 1 \<le> a \<and> a < dst + 1 + int n then mem ?s (src + 1 + (a - (dst + 1))) else mem ?s a)
      = (\<lambda>a. if dst \<le> a \<and> a < dst + int (Suc n) then mem s (src + (a - dst)) else mem s a)"
    using Suc.prems(3) by (auto simp: fun_eq_iff)
  with Suc.IH [OF a(3-5)] a(1,2) show ?case by (simp add: bindE_def load8_def store8_def)
qed

text \<open>\<open>copySize\<close> is the smaller of the request and the size of the old block.\<close>

lemma copy_size:
  fixes k :: uint64
  assumes "size_ok sz"
  shows "unat (if k < ucast (word_of_int sz :: uint32) then k else ucast (word_of_int sz :: uint32)) = nat (min (uint k) sz)"
proof -
  have u: "uint (word_of_int sz :: uint64) = sz" by (rule uint64_word_of_size [OF assms])
  have lt: "k < word_of_int sz \<longleftrightarrow> uint k < sz" by (simp only: word_less_def u)
  show ?thesis
    unfolding ucast_word_of_size(1) [OF assms]
  proof (cases "uint k < sz")
    case True
    then show "unat (if k < word_of_int sz then k else word_of_int sz) = nat (min (uint k) sz)"
      by (simp only: lt if_True unat_eq_nat_uint min_absorb1 less_imp_le)
  next
    case False
    then show "unat (if k < word_of_int sz then k else word_of_int sz) = nat (min (uint k) sz)"
      by (simp only: lt if_False unat_eq_nat_uint u)
  qed
qed

lemma untouched_through:
  assumes s: "untouched L s h1" and live: "implicit_live h1 (L(q \<mapsto> n))" and new: "L q = None"
    and w: "\<And>a. a < q \<or> q + n \<le> a \<Longrightarrow> mem h2 a = mem h1 a"
    and f: "untouched ((L(q \<mapsto> n))(p := None)) h2 h3"
  shows "untouched (L(p := None)) s h3"
  unfolding untouched_def
proof (intro allI impI)
  fix r m a assume r: "(L(p := None)) r = Some m" "r \<le> a" "a < r + m"
  then have rq: "r \<noteq> q" "L r = Some m" "(L(q \<mapsto> n)) r = Some m" "((L(q \<mapsto> n))(p := None)) r = Some m"
    using new by (auto split: if_splits)
  have "(L(q \<mapsto> n)) q = Some n" by simp
  then have "r + m \<le> q \<or> q + n \<le> r"
    using implicit_disjoint [OF live] rq(1,3) unfolding disjoint_payloads_def by blast
  then have "mem h2 a = mem h1 a" using r by (intro w) auto
  moreover have "mem h1 a = mem s a" using s r rq(2) unfolding untouched_def by blast
  moreover have "mem h3 a = mem h2 a" using f r rq(4) unfolding untouched_def by blast
  ultimately show "mem h3 a = mem s a" by simp
qed

lemma implicit_realloc_run:
  assumes live: "implicit_live s L" and L: "L p = Some m" and k: "request_size k" and room: "has_room (implicit_cost k) s"
  shows "\<exists>q h'. implicit_realloc p k s = Inr (q, h') \<and> q \<noteq> NULL \<and> (L(p := None)) q = None \<and>
        implicit_live h' ((L(p := None))(q \<mapsto> uint k)) \<and> untouched (L(p := None)) s h' \<and>
        (\<forall>i. 0 \<le> i \<longrightarrow> i < min m (uint k) \<longrightarrow> mem h' (q + i) = mem s (p + i)) \<and> grows (implicit_cost k) s h'"
proof -
  obtain q h1 where q: "implicit_malloc k s = Inr (q, h1)" "q \<noteq> NULL" "grows (implicit_cost k) s h1"
    and L1: "L q = None" "implicit_live h1 (L(q \<mapsto> uint k))" "untouched L s h1"
    using implicit_malloc_run [OF live k room] by blast
  let ?L1 = "L(q \<mapsto> uint k)"
  have pq: "p \<noteq> q" using L1(1) L by auto
  obtain bs where f: "full_heap h1 bs" "block_payloads h1 bs ?L1" using L1(2) unfolding implicit_live_def by blast
  have Lp: "?L1 p = Some m" and Lq: "?L1 q = Some (uint k)" using L pq by auto
  obtain xs sz ys where b: "bs = xs @ (sz, True) # ys" "xs \<noteq> []" "p = heap_listp h1 + bsum xs" "m + 8 \<le> sz" "0 < m" "m < 2 ^ 31"
    by (rule payload_block [OF f(1,2) Lp])
  obtain xq zq yq where e: "bs = xq @ (zq, True) # yq" "xq \<noteq> []" "q = heap_listp h1 + bsum xq" "uint k + 8 \<le> zq" "0 < uint k" "uint k < 2 ^ 31"
    by (rule payload_block [OF f(1,2) Lq])
  have wf: "wf_heap h1 (xs @ (sz, True) # ys)" "wf_heap h1 (xq @ (zq, True) # yq)" using f(1) b(1) e(1) by (simp_all add: full_heap_def)
  note B = wf_heap_block [OF wf(1)] wf_heap_block [OF wf(2)]
  have sz: "size_ok sz" "get32 (mem h1) (p - 4) = tag sz True" using B(1) b(3) by (simp_all add: block_ok_def)
  have g: "GET_SIZE (p - 4) h1 = Inr (word_of_int sz, h1)"
    using B(2) b(3,4,5) sz by (simp add: run_simps in_arenaD tag_simps)
  define c where "c = nat (min (uint k) sz)"
  note cs = copy_size [OF sz(1), of k, folded c_def]
  have bl: "block_at bs (p - heap_listp h1) (sz, True)" "block_at bs (q - heap_listp h1) (zq, True)"
    unfolding b(3) e(3) by (subst b(1), simp add: block_at_append) (subst e(1), simp add: block_at_append)
  have apart: "p + sz \<le> q \<or> q + zq \<le> p"
    using block_at_disjoint [OF wf_all_pos bl] f(1) pq by (fastforce simp: full_heap_def)
  define h2 where "h2 = h1\<lparr>mem := (\<lambda>a. if q \<le> a \<and> a < q + int c then mem h1 (p + (a - q)) else mem h1 a)\<rparr>"
  have cc: "int c \<le> sz" "int c \<le> uint k" using b(4,5) e(5) by (auto simp: c_def)
  have cp: "memcpy q p c h1 = Inr ((), h2)"
    unfolding h2_def
  proof (rule memcpy_run)
    show "accessible h1 p (int c)" by (rule in_arenaD [OF B(2)]) (use b(3) cc in simp_all)
    show "accessible h1 q (int c)" by (rule in_arenaD [OF B(4)]) (use e(3,4) cc in simp_all)
    show "q + int c \<le> p \<or> p + int c \<le> q" using apart cc e(4) by linarith
  qed
  have l2: "implicit_live h2 ?L1"
    unfolding h2_def by (rule implicit_write [OF L1(2) Lq]) (use cc in auto)
  obtain h3 where h3: "implicit_free p h2 = Inr ((), h3)" "implicit_live h3 (?L1(p := None))" "untouched (?L1(p := None)) h2 h3" "grows 0 h2 h3"
    using implicit_free_run [OF l2 Lp] by blast
  have run: "implicit_realloc p k s = Inr (q, h3)"
    unfolding implicit_realloc_def HDRP_run
    using q(2) by (simp add: bindE_step q(1) g cs cp h3(1) split del: if_split)
  have sw: "?L1(p := None) = (L(p := None))(q \<mapsto> uint k)" using pq by (simp add: fun_upd_twist)
  have u: "untouched (L(p := None)) s h3"
    by (rule untouched_through [OF L1(3,2,1) _ h3(3)]) (use cc in \<open>auto simp: h2_def\<close>)
  have "mem h3 (q + i) = mem s (p + i)" if i: "0 \<le> i" "i < min m (uint k)" for i
  proof -
    have "(?L1(p := None)) q = Some (uint k)" using pq by simp
    then have "mem h3 (q + i) = mem h2 (q + i)" using h3(3) i unfolding untouched_def by simp
    also have "\<dots> = mem h1 (p + i)" using i b(4) by (simp add: h2_def c_def)
    also have "\<dots> = mem s (p + i)" using L1(3) L i unfolding untouched_def by simp
    finally show ?thesis .
  qed
  moreover have "grows (implicit_cost k) s h3" using q(3) h3(4) by (simp add: grows_def h2_def)
  ultimately show ?thesis using run q(2) L1(1) pq h3(2) u unfolding sw by auto
qed

subsection \<open>init\<close>

lemma implicit_init_run:
  assumes a: "arena_ok s" "mem_brk s = mem_start_brk s"
  shows "\<exists>r h'. implicit_init s = Inr (r, h') \<and> 0 \<le> sint r \<and> implicit_live h' Map.empty \<and> grows 65568 s h'"
proof -
  let ?p = "mem_start_brk s"
  let ?m = "put32 (put32 (put32 (put32 (mem s) ?p 0) (?p + 4) (tag 24 True)) (?p + 24) (tag 24 True)) (?p + 28) (tag 0 True)"
  let ?s = "s\<lparr>mem_brk := ?p + 32, heap_listp := ?p + 8, mem := ?m\<rparr>"
  have p: "0 < ?p" "8 dvd ?p" "mem_max_addr s = ?p + 2097152000" "mem_max_addr s < 2 ^ 64" using a(1) by (simp_all add: arena_ok_def MAX_HEAP_def)
  have f: "full_heap ?s [(24, True)]"
    using p by (simp add: full_heap_def wf_heap_def no_free_pair_Cons block_ok_def size_ok_def word_mem_simps MAX_HEAP_def
      add.commute [of _ "mem_start_brk s"])
  have k: "uint (CHUNKSIZE) = 65536" by (simp add: CHUNKSIZE_def)
  obtain m' where e: "implicit_extend (ucast (CHUNKSIZE div 4)) ?s = Inr (?p + 8 + 24, ?s\<lparr>mem_brk := ?p + 32 + 65536, mem := m'\<rparr>)"
     "full_heap (?s\<lparr>mem_brk := ?p + 32 + 65536, mem := m'\<rparr>) [(24, True), (65536, False)]"
    using extend_run [OF f, of CHUNKSIZE] p by (auto simp: k merge_left_def)
  have sb: "mem_sbrk 32 s = Inr (?p, s\<lparr>mem_brk := ?p + 32\<rparr>)"
    using p a(2) mem_sbrk_grants [of 32 s] by simp
  have acc: "accessible s x 4" if "?p \<le> x" "x \<le> ?p + 28" for x using that p by (simp add: accessible_def)
  have tg: "PACK 24 1 = tag 24 True" "PACK 0 1 = tag 0 True" by (simp_all add: tag_def)
  have "implicit_init s = Inr (0, ?s\<lparr>mem_brk := ?p + 32 + 65536, mem := m'\<rparr>)"
    unfolding implicit_init_def
    using p(1) e(1) by (simp add: bindE_step sb NULL_def mm_consts tg store32_def accessible_def p(3)
      add.commute [of _ "mem_start_brk s"])
  moreover have "implicit_live (?s\<lparr>mem_brk := ?p + 32 + 65536, mem := m'\<rparr>) Map.empty"
    using e(2) unfolding implicit_live_def block_payloads_def no_leak_def
    by (intro exI [of _ "[(24, True), (65536, False)]"]) auto
  moreover have "grows 65568 s (?s\<lparr>mem_brk := ?p + 32 + 65536, mem := m'\<rparr>)" using a(2) by (simp add: grows_def)
  ultimately show ?thesis by fastforce
qed

lemma implicit_same_arena [arena_intros]:
  "keeps same_arena (coalesce bp)" "keeps same_arena (find_fit n)" "keeps same_arena (place bp m)"
  unfolding coalesce_def place_def find_fit_def
  by (auto intro!: arena_intros) (auto intro!: keepsI split: sum.splits)

lemma implicit_ops_same_arena [arena_intros]:
  "keeps same_arena (implicit_extend w)" "keeps same_arena (implicit_malloc n)" "keeps same_arena (implicit_free bp)"
  by (auto simp: implicit_extend_def implicit_malloc_def implicit_free_def intro!: arena_intros)

interpretation implicit: correct_allocator implicit_allocator implicit_live implicit_cost 65568
proof
  show "keeps same_arena (init_op implicit_allocator)" "keeps same_arena (malloc_op implicit_allocator n)"
    "keeps same_arena (free_op implicit_allocator p)" "keeps same_arena (realloc_op implicit_allocator p n)" for n p
    by (auto simp: implicit_allocator_def implicit_init_def implicit_realloc_def implicit_extend_def implicit_malloc_def
       implicit_free_def intro!: arena_intros)
  show "0 \<le> implicit_cost k" for k by (simp add: implicit_cost_def)
  show "implicit_live (h\<lparr>mem := (mem h)(a := v)\<rparr>) L"
    if "implicit_live h L" "L p = Some n" "p \<le> a" "a < p + n" for h :: "'a mm_scheme" and L p n a v
    by (rule implicit_write [OF that(1,2)]) (use that in auto)
qed (simp_all only: implicit_allocator_def allocator.select_convs implicit_payload_ok implicit_disjoint
    implicit_free_run implicit_malloc_run implicit_realloc_run implicit_init_run simp_thms)

subsection \<open>Properties\<close>

text \<open>
  C8: The driver accepts. For every allocator that satisfies the contract \<open>correct_allocator\<close> (the
  locale's predicate is the first hypothesis), if the options are read, \<open>-l\<close> is not among them and
  the team check is switched off or passes, the clock answers without touching the heap, the arena
  is aligned and below \<open>2 ^ 64\<close>, and every selected trace file is \<open>readable\<close>, \<open>main\<close> returns: every
  selected trace is judged valid, with a utilization that is the quotient of an ideal heap and a heap
  no smaller than it, nothing is reported, and the output ends with the score of a run without errors.
  Readable means that \<open>read_trace\<close> accepts the file, that ids are allocated before they are freed
  or reallocated and sizes are positive, that each reallocated id has a low byte below 128
  (\<open>data_preserved\<close> rejects every allocator on the others), and that the requests' total cost
  fits in the arena.
\<close>

theorem driver_accepts_correct:
  assumes "correct_allocator A live cost start_cost"
    and "clock_ok P" "0 < arena P MAX_HEAP" "8 dvd arena P MAX_HEAP" "arena P MAX_HEAP + MAX_HEAP < 2 ^ 64"
    and "read_options argv driver_defaults = Inr cfg" "\<not> run_libc cfg" "\<not> team_check cfg \<and> who = [] \<or> team_check cfg \<and> check_team tm = Inr who"
    and "\<And>j. j < length (trace_names cfg) \<Longrightarrow> readable cost start_cost P (tracedir cfg) (word_of_nat j) (trace_names cfg ! j)"
    and "errors s = 0"
  shows "\<exists>sts t. driver_main F P A tm argv s =
      Inr (who @ (if verbose cfg \<noteq> 0 then printresults F 0 sts else []) @ verdict F (autograder cfg) 0 sts, t) \<and>
    map filename sts = trace_names cfg \<and> (\<forall>st\<in>set sts. passed F st) \<and> numcorrect sts = word_of_nat (length sts) \<and> reports t = reports s"
  using assms by (rule correct_allocator.driver_accepts)

theorem driver_accepts_correct_witness:
  "\<exists>sts t. driver_main real_fp (small_machine small_trace) implicit_allocator team [(CHR ''a'', []), (CHR ''f'', ''e.rep''), (CHR ''g'', [])] cs33_driver =
     Inr (verdict real_fp True 0 sts, t) \<and> numcorrect sts = 1"
proof -
  let ?argv = "[(CHR ''a'', []), (CHR ''f'', ''e.rep''), (CHR ''g'', [])]"
  let ?cfg = "driver_defaults\<lparr>team_check := False, tracefiles := Some [''e.rep''], tracedir := ''./'', autograder := True\<rparr>"
  let ?P = "small_machine small_trace :: unit mm_ext platform"
  have o: "read_options ?argv driver_defaults = Inr ?cfg" by (simp add: read_option_def driver_defaults_def)
  have "read_trace (files ?P) (fresh ?P True i) ''./'' ''e.rep'' = Inr small_trace" for i
    unfolding small_machine_def platform.select_convs by (rule read_rendered [OF small_trace_complete]) simp_all
  moreover have "runnable implicit_cost 65568 small_trace"
    by (simp add: runnable_def small_trace_def trace_cost_def request_cost_def implicit_cost_def MAX_HEAP_def)
  ultimately have "readable implicit_cost 65568 ?P ''./'' i ''e.rep''" for i unfolding readable_def by blast
  then have r: "readable implicit_cost 65568 ?P (tracedir ?cfg) (word_of_nat j) (trace_names ?cfg ! j)" if "j < length (trace_names ?cfg)" for j
    using that by (simp add: trace_names_def)
  have "clock_ok ?P" by (simp add: clock_ok_def small_machine_def cmd_defs)
  from driver_accepts_correct [OF implicit.correct_allocator_axioms this _ _ _ o _ _ r, of "[]" team cs33_driver real_fp]
  obtain sts t where "driver_main real_fp ?P implicit_allocator team ?argv cs33_driver = Inr (verdict real_fp True 0 sts, t)"
    "map filename sts = [''e.rep'']" "numcorrect sts = word_of_nat (length sts)"
    by (auto simp: small_machine_def MAX_HEAP_def driver_defaults_def trace_names_def cs33_driver_def)
  moreover have "length sts = 1" using calculation(2) by (metis length_Cons length_map list.size(3) One_nat_def)
  ultimately show ?thesis by auto
qed

text \<open>
  C9: The utilization. On an allocator that satisfies the contract, for a \<open>runnable\<close> trace
  (well-formed, reallocated ids with a low byte below 128, total cost within the arena),
  \<open>eval_mm_util\<close> returns as the ideal heap the larger of \<open>FREE_HEAP\<close> and the largest number of bytes
  that the requests have live at any time, as the heap the larger of \<open>FREE_HEAP\<close> and the bytes the
  allocator has taken from \<open>mem_sbrk\<close>, with no wrap-around in its \<open>int\<close> sums, and as the
  utilization their quotient rounded to a \<open>double\<close>, which lies between 0 and 1.
\<close>

theorem utilization_exact:
  assumes "correct_allocator A live cost start_cost" "runnable cost start_cost (trace s)" "arena_ok (heap s)"
  shows "\<exists>i m q t. eval_mm_util (\<lambda>a b. fp_div double_fp (fp_of double_fp (sint a)) (fp_of double_fp (sint b))) A s = Inr ((i, m, q), t) \<and>
    sint i = max 65536 (peak (length (blocks (trace s))) Map.empty (trace_ops (trace s))) \<and>
    sint m = max 65536 (mem_brk (heap t) - mem_start_brk (heap t)) \<and>
    q = round_double (of_int (sint i) / of_int (sint m)) \<and> 0 < q \<and> q \<le> 1"
proof -
  let ?ddiv = "\<lambda>a b. fp_div double_fp (fp_of double_fp (sint a)) (fp_of double_fp (sint b))"
  obtain i m t where u: "eval_mm_util ?ddiv A s = Inr ((i, m, ?ddiv i m), t)"
    "sint i = ideal_heap (trace s)" "sint m = max 65536 (heap_bytes (heap t))" "sint i \<le> sint m"
    using correct_allocator.eval_mm_util_exact [OF assms] by blast
  have i: "0 < sint i" using u(2) by (simp add: ideal_heap_def)
  have "round_double (of_int (sint x)) = of_int (sint x)" for x :: cint
    using sint_ge [of x] sint_less [of x] by (intro round_double_int) simp
  then have q: "?ddiv i m = round_double (of_int (sint i) / of_int (sint m))" by (simp only: double_fp_simps)
  have "0 < real_of_int a / of_int b \<and> real_of_int a / of_int b \<le> 1" if "0 < a" "a \<le> b" for a b using that by simp
  then have "0 < real_of_int (sint i) / of_int (sint m)" "real_of_int (sint i) / of_int (sint m) \<le> 1" using i u(4) by blast+
  then have "0 < ?ddiv i m" "?ddiv i m \<le> 1" unfolding q by (rule round_double_unit)+
  then show ?thesis using u(1-3) q unfolding ideal_heap_def heap_bytes_def by blast
qed

definition large_trace :: trace_t where
  "large_trace = small_trace\<lparr>trace_ops := [\<lparr>op_type = ALLOC, op_index = 0, op_size = 60000\<rparr>, \<lparr>op_type = ALLOC, op_index = 1, op_size = 30000\<rparr>,
     \<lparr>op_type = FREE, op_index = 0, op_size = 0\<rparr>, \<lparr>op_type = REALLOC, op_index = 1, op_size = 70000\<rparr>]\<rparr>"

theorem utilization_exact_witness:
  "\<exists>i m q t. eval_mm_util (\<lambda>a b. fp_div double_fp (fp_of double_fp (sint a)) (fp_of double_fp (sint b))) implicit_allocator
       (cs33_driver\<lparr>trace := large_trace\<rparr>) =
     Inr ((i, m, q), t) \<and> sint i = 90000 \<and> q = round_double (90000 / of_int (sint m))"
proof -
  let ?s = "cs33_driver\<lparr>trace := large_trace\<rparr>"
  have r: "runnable implicit_cost 65568 (trace ?s)"
    by (simp add: runnable_def large_trace_def small_trace_def trace_cost_def request_cost_def implicit_cost_def MAX_HEAP_def)
  have a: "arena_ok (heap ?s)" by (simp add: arena_ok_def cs33_driver_def MAX_HEAP_def)
  have "max 65536 (peak (length (blocks (trace ?s))) Map.empty (trace_ops (trace ?s))) = 90000"
    by (simp add: large_trace_def small_trace_def live_bytes_def numeral_2_eq_2)
  with utilization_exact [OF implicit.correct_allocator_axioms r a] show ?thesis by fastforce
qed

end
