(* ===== verification/Threads.thy ===== *)
theory Threads
  imports CPrelude
begin

section \<open>Histogram kernels under all interleavings (thread.c)\<close>

text \<open>
  The five kernels of \<^verbatim>\<open>labs/threadlab-handout/thread.c\<close>. Their control flow depends on the
  data alone, so a kernel is the list of the shared-memory instructions its thread executes:
  an increment \<open>global_histogram[b]++\<close> is a load followed by a store, a semaphore operation
  is one instruction, \<open>__sync_fetch_and_add\<close> is one instruction. The system interleaves the
  instructions of the eight threads in any order (sequential consistency, which the C memory
  model grants to programs without data races, and \<open>kernel_race_free\<close> of \<open>Histogram\<close> shows that there
  are none). A thread at \<open>sem_wait\<close> on a semaphore of value 0 cannot move.
\<close>

subsection \<open>Constants and instructions\<close>

definition DATA_SIZE :: nat where "DATA_SIZE = 100000000"
definition NTHREADS :: nat where "NTHREADS = 8"
definition STEP :: nat where "STEP = DATA_SIZE div NTHREADS"
definition BUCKET_SIZE :: nat where "BUCKET_SIZE = 8"
definition DATA_MAX :: nat where "DATA_MAX = 255"

type_synonym dataset = "nat \<Rightarrow> byte"

datatype sem = Mutex | Lock nat

datatype instr =
    SemWait sem
  | SemPost sem
  | Load nat
  | StoreAdd nat cint
  | FetchAdd nat cint

definition bucket_of :: "dataset \<Rightarrow> nat \<Rightarrow> nat" where
  "bucket_of data j = unat (data j) mod BUCKET_SIZE"

subsection \<open>The kernels\<close>

definition histo_0 :: "dataset \<Rightarrow> nat \<Rightarrow> instr list" where
  "histo_0 data tid =
     (if tid = 0
      then concat (map (\<lambda>j. [Load (bucket_of data j), StoreAdd (bucket_of data j) 1]) [0..<DATA_SIZE])
      else [])"

definition histo_1 :: "dataset \<Rightarrow> nat \<Rightarrow> instr list" where
  "histo_1 data tid =
     (let ind = tid * STEP
      in concat (map (\<lambda>j. [SemWait Mutex,
           Load (bucket_of data j), StoreAdd (bucket_of data j) 1,
           SemPost Mutex]) [ind..<ind + STEP]))"

definition histo_2 :: "dataset \<Rightarrow> nat \<Rightarrow> instr list" where
  "histo_2 data tid =
     (let ind = tid * STEP
      in concat (map (\<lambda>j. [SemWait (Lock (bucket_of data j)),
           Load (bucket_of data j), StoreAdd (bucket_of data j) 1,
           SemPost (Lock (bucket_of data j))]) [ind..<ind + STEP]))"

definition histo_3 :: "dataset \<Rightarrow> nat \<Rightarrow> instr list" where
  "histo_3 data tid =
     (let ind = tid * STEP
      in concat (map (\<lambda>j. [FetchAdd (bucket_of data j) 1]) [ind..<ind + STEP]))"

text \<open>
  \<open>histo_4\<close> first counts in a local array, four elements in each iteration, and then adds its
  eight counts under the bucket locks. The local loop runs while \<open>j < last_j\<close>.
\<close>

definition count_one :: "dataset \<Rightarrow> nat \<Rightarrow> cint list \<Rightarrow> cint list" where
  "count_one data j counts = counts[bucket_of data j := counts ! bucket_of data j + 1]"

function local_counts :: "dataset \<Rightarrow> nat \<Rightarrow> nat \<Rightarrow> cint list \<Rightarrow> cint list" where
  "local_counts data j last_j counts =
     (if j < last_j
      then local_counts data (j + 4) last_j
             (count_one data (j + 3) (count_one data (j + 2)
               (count_one data (j + 1) (count_one data j counts))))
      else counts)"
  by pat_completeness auto

termination local_counts
  by (relation "measure (\<lambda>(data, j, last_j, counts). last_j - j)") auto

declare local_counts.simps [simp del]

definition histo_4 :: "dataset \<Rightarrow> nat \<Rightarrow> instr list" where
  "histo_4 data tid =
     (let ind = tid * STEP;
          counts = local_counts data ind (ind + STEP) [0, 0, 0, 0, 0, 0, 0, 0]
      in concat (map (\<lambda>k. [SemWait (Lock k), Load k, StoreAdd k (counts ! k), SemPost (Lock k)])
           [0..<BUCKET_SIZE]))"

definition thread_routine :: "(dataset \<Rightarrow> nat \<Rightarrow> instr list) list" where
  "thread_routine = [histo_0, histo_1, histo_2, histo_3, histo_4]"

subsection \<open>The system of threads\<close>

record system =
  hist :: "nat \<Rightarrow> cint"
  sems :: "sem \<Rightarrow> nat"
  code :: "nat \<Rightarrow> instr list"
  reg :: "nat \<Rightarrow> cint"

definition thread_step :: "nat \<Rightarrow> system \<Rightarrow> system option" where
  "thread_step t s =
     (case code s t of
        [] \<Rightarrow> None
      | i # rest \<Rightarrow>
          (let s' = s\<lparr>code := (code s)(t := rest)\<rparr> in
           case i of
             SemWait m \<Rightarrow>
               (if sems s m = 0 then None else Some (s'\<lparr>sems := (sems s)(m := sems s m - 1)\<rparr>))
           | SemPost m \<Rightarrow> Some (s'\<lparr>sems := (sems s)(m := sems s m + 1)\<rparr>)
           | Load b \<Rightarrow> Some (s'\<lparr>reg := (reg s)(t := hist s b)\<rparr>)
           | StoreAdd b k \<Rightarrow> Some (s'\<lparr>hist := (hist s)(b := reg s t + k)\<rparr>)
           | FetchAdd b k \<Rightarrow> Some (s'\<lparr>hist := (hist s)(b := hist s b + k)\<rparr>)))"

inductive step :: "system \<Rightarrow> system \<Rightarrow> bool" where
  "thread_step t s = Some s' \<Longrightarrow> step s s'"

definition finished :: "system \<Rightarrow> bool" where
  "finished s \<longleftrightarrow> (\<forall>t. code s t = [])"

text \<open>
  The state in which \<open>run_threads\<close> starts the threads of one kernel: a cleared histogram, and
  every semaphore at the value 1 that \<open>main\<close> gives it.
\<close>

definition start :: "(nat \<Rightarrow> instr list) \<Rightarrow> system" where
  "start prog = \<lparr>hist = (\<lambda>_. 0), sems = (\<lambda>_. 1),
     code = (\<lambda>t. if t < NTHREADS then prog t else []), reg = (\<lambda>_. 0)\<rparr>"

inductive_cases stepE: "step s s'"

text \<open>
  A data race: two threads are about to access the same bucket, at least one of them to write
  it, and not both by an atomic instruction.
\<close>

fun accesses :: "instr \<Rightarrow> nat option" where
  "accesses (Load b) = Some b"
| "accesses (StoreAdd b k) = Some b"
| "accesses (FetchAdd b k) = Some b"
| "accesses _ = None"

fun writes :: "instr \<Rightarrow> bool" where
  "writes (StoreAdd b k) \<longleftrightarrow> True"
| "writes (FetchAdd b k) \<longleftrightarrow> True"
| "writes _ \<longleftrightarrow> False"

fun atomic :: "instr \<Rightarrow> bool" where
  "atomic (FetchAdd b k) \<longleftrightarrow> True"
| "atomic _ \<longleftrightarrow> False"

definition conflict :: "instr \<Rightarrow> instr \<Rightarrow> bool" where
  "conflict i j \<longleftrightarrow> accesses i \<noteq> None \<and> accesses i = accesses j \<and> (writes i \<or> writes j) \<and> \<not> (atomic i \<and> atomic j)"

definition at_instr :: "system \<Rightarrow> nat \<Rightarrow> instr \<Rightarrow> bool" where
  "at_instr s t i \<longleftrightarrow> (\<exists>rest. code s t = i # rest)"

definition race :: "system \<Rightarrow> bool" where
  "race s \<longleftrightarrow> (\<exists>t u i j. t \<noteq> u \<and> at_instr s t i \<and> at_instr s u j \<and> conflict i j)"

lemma raceI: "t \<noteq> u \<Longrightarrow> at_instr s t i \<Longrightarrow> at_instr s u j \<Longrightarrow> conflict i j \<Longrightarrow> race s"
  by (auto simp: race_def)

subsection \<open>Requests to add, and how a thread executes them\<close>

text \<open>
  A locked kernel is a list of requests \<open>(b, k)\<close>, add \<open>k\<close> to bucket \<open>b\<close>, each executed under
  the semaphore that guards the bucket. \<open>phase\<close> is the progress inside the current request.
\<close>

type_synonym request = "nat \<times> cint"

datatype phase = Idle | Entered nat cint | Loaded nat cint | Stored nat

definition critical :: "(nat \<Rightarrow> sem) \<Rightarrow> request \<Rightarrow> instr list" where
  "critical guard r = [SemWait (guard (fst r)), Load (fst r), StoreAdd (fst r) (snd r),
     SemPost (guard (fst r))]"

fun phase_code :: "(nat \<Rightarrow> sem) \<Rightarrow> phase \<Rightarrow> instr list" where
  "phase_code guard Idle = []"
| "phase_code guard (Entered b k) = [Load b, StoreAdd b k, SemPost (guard b)]"
| "phase_code guard (Loaded b k) = [StoreAdd b k, SemPost (guard b)]"
| "phase_code guard (Stored b) = [SemPost (guard b)]"

fun holds :: "(nat \<Rightarrow> sem) \<Rightarrow> phase \<Rightarrow> sem \<Rightarrow> bool" where
  "holds guard Idle m \<longleftrightarrow> False"
| "holds guard (Entered b k) m \<longleftrightarrow> guard b = m"
| "holds guard (Loaded b k) m \<longleftrightarrow> guard b = m"
| "holds guard (Stored b) m \<longleftrightarrow> guard b = m"

fun pending_phase :: "phase \<Rightarrow> nat \<Rightarrow> cint" where
  "pending_phase (Entered b k) c = (if b = c then k else 0)"
| "pending_phase (Loaded b k) c = (if b = c then k else 0)"
| "pending_phase _ c = 0"

definition pending :: "request list \<Rightarrow> nat \<Rightarrow> cint" where
  "pending rs c = sum_list (map snd (filter (\<lambda>r. fst r = c) rs))"

lemma pending_simps [simp]:
  "pending [] c = 0"
  "pending (r # rs) c = (if fst r = c then snd r else 0) + pending rs c"
  by (simp_all add: pending_def)

end
