(* ===== verification/Histogram.thy ===== *)
theory Histogram
  imports Threads
begin

section \<open>Every interleaving computes the histogram (thread.c)\<close>

text \<open>
  The contract between \<open>run_threads\<close> and a kernel is the locale \<open>kernel\<close>: a run that has
  finished has put the total of every bucket into the histogram and given back every
  semaphore, and no reachable state is stuck or has a data race. Three ways of synchronising give it, each a
  locale with a sublocale proof: critical sections under a guarding semaphore, atomic
  additions, and a single working thread. The five kernels are interpretations of these.
\<close>

subsection \<open>Sums over the threads\<close>

lemma sum_two_upd:
  fixes F :: "'p \<Rightarrow> 'a \<Rightarrow> 'c :: ab_group_add"
  assumes "t < (n :: nat)"
  shows "(\<Sum>u<n. F ((ph(t := p)) u) ((as(t := a)) u)) = (\<Sum>u<n. F (ph u) (as u)) - F (ph t) (as t) + F p a"
proof -
  have t: "t \<in> {..<n}" using assms by simp
  have "(\<Sum>u\<in>{..<n} - {t}. F ((ph(t := p)) u) ((as(t := a)) u)) = (\<Sum>u\<in>{..<n} - {t}. F (ph u) (as u))"
    by (rule sum.cong) auto
  then show ?thesis
    by (simp add: sum.remove [OF finite_lessThan t])
qed

subsection \<open>The invariant of locked kernels\<close>

text \<open>
  Mutual exclusion (the value of a semaphore and the number of threads inside its critical
  sections add up to 1), the register of a thread between load and store agrees with the
  histogram, and the histogram and the pending requests add up to the total.
\<close>

definition holders :: "(nat \<Rightarrow> sem) \<Rightarrow> (nat \<Rightarrow> phase) \<Rightarrow> sem \<Rightarrow> nat set" where
  "holders guard ph m = {t. holds guard (ph t) m}"

definition locked_inv :: "(nat \<Rightarrow> sem) \<Rightarrow> (nat \<Rightarrow> request list) \<Rightarrow> system \<Rightarrow> (nat \<Rightarrow> phase) \<Rightarrow> (nat \<Rightarrow> request list) \<Rightarrow> bool" where
  "locked_inv guard requests s ph as \<longleftrightarrow>
     (\<forall>t. code s t = phase_code guard (ph t) @ concat (map (critical guard) (as t))) \<and>
     (\<forall>t\<ge>NTHREADS. ph t = Idle \<and> as t = []) \<and>
     (\<forall>t b k. ph t = Loaded b k \<longrightarrow> reg s t = hist s b) \<and>
     (\<forall>m. sems s m + card (holders guard ph m) = 1) \<and>
     (\<forall>c. hist s c + (\<Sum>t<NTHREADS. pending_phase (ph t) c + pending (as t) c)
        = (\<Sum>t<NTHREADS. pending (requests t) c))"

lemma holders_upd: "holders guard (ph(t := p)) m = (if holds guard p m then insert t (holders guard ph m) else holders guard ph m - {t})"
  by (auto simp: holders_def split: if_splits)

lemma locked_inv_finite: "locked_inv guard requests s ph as \<Longrightarrow> finite (holders guard ph m)"
  by (rule finite_subset [of _ "{..<NTHREADS}"]) (auto simp: locked_inv_def holders_def not_less [symmetric] intro!: leI)

lemma locked_inv_exclusive:
  assumes "locked_inv guard requests s ph as" "holds guard (ph t) m" "holds guard (ph u) m"
  shows "t = u"
proof -
  have "card (holders guard ph m) \<le> Suc 0" using assms(1) unfolding locked_inv_def by (metis One_nat_def le_add2)
  then show ?thesis using assms locked_inv_finite [OF assms(1), of m]
    by (auto simp: card_le_Suc0_iff_eq holders_def)
qed

lemma locked_inv_start:
  assumes "\<And>t. t < NTHREADS \<Longrightarrow> prog t = concat (map (critical guard) (requests t))"
  shows "locked_inv guard requests (start prog) (\<lambda>_. Idle) (\<lambda>t. if t < NTHREADS then requests t else [])"
  using assms by (auto simp: locked_inv_def start_def holders_def intro!: sum.cong)

lemma add_shift:
  fixes x :: "'a :: ab_group_add"
  assumes "x' + p = x + q"
  shows "x' + (S - q + p) = x + S"
proof -
  have "x' + (S - q + p) = (x' + p) + (S - q)" by (simp add: algebra_simps)
  then show ?thesis unfolding assms by (simp add: algebra_simps)
qed

lemma locked_inv_update:
  assumes inv: "locked_inv guard requests s ph as" and t: "t < NTHREADS"
    and code: "code s' = (code s)(t := phase_code guard p @ concat (map (critical guard) a))"
    and reg: "\<And>u b k. (ph(t := p)) u = Loaded b k \<Longrightarrow> reg s' u = hist s' b"
    and sems: "\<And>m. sems s' m + of_bool (holds guard p m) = sems s m + of_bool (holds guard (ph t) m)"
    and hist: "\<And>c. hist s' c + (pending_phase p c + pending a c) = hist s c + (pending_phase (ph t) c + pending (as t) c)"
  shows "\<exists>ph' as'. locked_inv guard requests s' ph' as'"
proof -
  let ?H = "holders guard ph"
  have fin: "finite (?H m)" for m by (rule locked_inv_finite [OF inv])
  have "sems s' m + card (holders guard (ph(t := p)) m) = 1" for m
  proof -
    have "card (?H m) = card (?H m - {t}) + of_bool (holds guard (ph t) m)"
      using fin [of m] card_Suc_Diff1 [of "?H m" t] by (cases "t \<in> ?H m") (auto simp: holders_def)
    moreover have "card (holders guard (ph(t := p)) m) = card (?H m - {t}) + of_bool (holds guard p m)"
      unfolding holders_upd using card.insert_remove [OF fin [of m], of t]
      by (cases "holds guard p m") simp_all
    moreover have "sems s m + card (?H m) = 1" using inv by (simp add: locked_inv_def)
    ultimately show ?thesis using sems [of m] by linarith
  qed
  moreover have "hist s' c + (\<Sum>u<NTHREADS. pending_phase ((ph(t := p)) u) c + pending ((as(t := a)) u) c)
      = (\<Sum>u<NTHREADS. pending (requests u) c)" for c
  proof -
    have "hist s c + (\<Sum>u<NTHREADS. pending_phase (ph u) c + pending (as u) c) = (\<Sum>u<NTHREADS. pending (requests u) c)"
      using inv by (simp add: locked_inv_def)
    then show ?thesis
      unfolding sum_two_upd [OF t, where F = "\<lambda>p a. pending_phase p c + pending a c"]
      by (simp only: add_shift [OF hist [of c]])
  qed
  ultimately have "locked_inv guard requests s' (ph(t := p)) (as(t := a))"
    using inv t code reg unfolding locked_inv_def by simp
  then show ?thesis by blast
qed

lemma locked_inv_step:
  assumes inv: "locked_inv guard requests s ph as" and run: "thread_step t s = Some s'"
  shows "\<exists>ph' as'. locked_inv guard requests s' ph' as'"
proof -
  have c: "code s t = phase_code guard (ph t) @ concat (map (critical guard) (as t))" using inv by (simp add: locked_inv_def)
  have ne: "code s t \<noteq> []" using run by (auto simp: thread_step_def)
  have t: "t < NTHREADS" using ne inv by (auto simp: locked_inv_def not_less [symmetric] intro!: leI)
  have ld: "reg s u = hist s b" if "ph u = Loaded b k" for u b k using inv that by (auto simp: locked_inv_def)
  show ?thesis
  proof (cases "ph t")
    case Idle
    then obtain b k rs where as: "as t = (b, k) # rs" using ne c by (cases "as t") auto
    show ?thesis
      by (rule locked_inv_update [OF inv t, where p = "Entered b k" and a = rs])
        (use run c Idle as ld in \<open>auto simp: thread_step_def critical_def Let_def split: if_splits\<close>)
  next
    case (Entered b k)
    show ?thesis
      by (rule locked_inv_update [OF inv t, where p = "Loaded b k" and a = "as t"])
        (use run c Entered ld in \<open>auto simp: thread_step_def Let_def split: if_splits\<close>)
  next
    case (Loaded b k)
    have other: "b' \<noteq> b" if "ph u = Loaded b' k'" "u \<noteq> t" for u b' k'
      using locked_inv_exclusive [OF inv, of t "guard b" u] that Loaded by auto
    show ?thesis
      by (rule locked_inv_update [OF inv t, where p = "Stored b" and a = "as t"])
        (use run c Loaded ld other in \<open>auto simp: thread_step_def Let_def split: if_splits\<close>)
  next
    case (Stored b)
    show ?thesis
      by (rule locked_inv_update [OF inv t, where p = "Idle" and a = "as t"])
        (use run c Stored ld in \<open>auto simp: thread_step_def Let_def split: if_splits\<close>)
  qed
qed

lemma locked_inv_finished:
  assumes inv: "locked_inv guard requests s ph as" and "finished s"
  shows "hist s c = (\<Sum>t<NTHREADS. pending (requests t) c)" "sems s m = 1"
proof -
  have "ph t = Idle \<and> as t = []" for t
  proof -
    have "phase_code guard (ph t) = []" "concat (map (critical guard) (as t)) = []"
      using assms unfolding locked_inv_def finished_def by (metis append_is_Nil_conv)+
    then show ?thesis by (cases "ph t"; cases "as t") (simp_all add: critical_def)
  qed
  then show "hist s c = (\<Sum>t<NTHREADS. pending (requests t) c)" "sems s m = 1"
    using inv by (auto simp: locked_inv_def holders_def)
qed

lemma locked_inv_progress:
  assumes inv: "locked_inv guard requests s ph as" and "\<not> finished s"
  shows "\<exists>s'. step s s'"
proof (cases "\<exists>t. ph t \<noteq> Idle")
  case True
  then obtain t where t: "ph t \<noteq> Idle" by blast
  have c: "code s t = phase_code guard (ph t) @ concat (map (critical guard) (as t))" using inv by (simp add: locked_inv_def)
  have "thread_step t s \<noteq> None" using t c by (cases "ph t") (auto simp: thread_step_def Let_def)
  then show ?thesis by (auto intro: step.intros)
next
  case False
  then have "sems s m = 1" for m using inv by (simp add: locked_inv_def holders_def)
  moreover obtain t where t: "code s t \<noteq> []" using assms(2) by (auto simp: finished_def)
  then have "thread_step t s \<noteq> None" using False inv calculation
    by (cases "as t") (auto simp: locked_inv_def thread_step_def critical_def Let_def)
  then show ?thesis by (auto intro: step.intros)
qed

text \<open>An instruction on a bucket is inside a critical section of its guard, so no two meet.\<close>

lemma locked_inv_access:
  assumes "locked_inv guard requests s ph as" "at_instr s t i" "accesses i = Some b"
  shows "holds guard (ph t) (guard b)"
proof -
  obtain rest where c: "phase_code guard (ph t) @ concat (map (critical guard) (as t)) = i # rest"
    using assms(1,2) by (auto simp: locked_inv_def at_instr_def)
  show ?thesis
  proof (cases "ph t")
    case Idle
    then show ?thesis using c assms(3) by (cases "as t") (auto simp: critical_def)
  qed (use c assms(3) in auto)
qed

lemma locked_inv_race_free:
  assumes "locked_inv guard requests s ph as"
  shows "\<not> race s"
proof
  assume "race s"
  then obtain t u i j b where "t \<noteq> u" "at_instr s t i" "at_instr s u j" "accesses i = Some b" "accesses j = Some b"
    unfolding race_def conflict_def by (metis not_None_eq)
  then show False using locked_inv_access [OF assms] locked_inv_exclusive [OF assms] by metis
qed

subsection \<open>Runs are bounded\<close>

definition remaining :: "system \<Rightarrow> nat" where
  "remaining s = (\<Sum>t<NTHREADS. length (code s t))"

lemma thread_step_code: "thread_step t s = Some s' \<Longrightarrow> \<exists>i rest. code s t = i # rest \<and> code s' = (code s)(t := rest)"
  by (auto simp: thread_step_def Let_def split: list.splits instr.splits if_splits)

lemma step_remaining:
  assumes "step s s'" "\<forall>t\<ge>NTHREADS. code s t = []"
  shows "remaining s = Suc (remaining s') \<and> (\<forall>t\<ge>NTHREADS. code s' t = [])"
proof -
  obtain t where "thread_step t s = Some s'" using assms(1) by (auto elim: stepE)
  then obtain i rest where c: "code s t = i # rest" "code s' = (code s)(t := rest)" using thread_step_code by blast
  then have t: "t < NTHREADS" using assms(2) by (metis leI list.distinct(1))
  have "(\<Sum>u\<in>{..<NTHREADS} - {t}. length (code s' u)) = (\<Sum>u\<in>{..<NTHREADS} - {t}. length (code s u))"
    by (rule sum.cong) (auto simp: c)
  then show ?thesis using t assms(2) c by (simp add: remaining_def sum.remove [of "{..<NTHREADS}" t])
qed

lemma steps_remaining:
  assumes "(step ^^ n) s s'" "\<forall>t\<ge>NTHREADS. code s t = []"
  shows "remaining s = n + remaining s' \<and> (\<forall>t\<ge>NTHREADS. code s' t = [])"
  using assms
proof (induction n arbitrary: s')
  case (Suc n)
  from Suc.prems(1) obtain u where u: "(step ^^ n) s u" "step u s'" by (auto elim: relpowp_Suc_E)
  from Suc.IH [OF u(1) Suc.prems(2)] step_remaining [OF u(2)] show ?case by simp
qed simp

subsection \<open>The contract and the three ways to meet it\<close>

locale kernel =
  fixes prog :: "nat \<Rightarrow> instr list" and total :: "nat \<Rightarrow> cint"
  assumes result: "step\<^sup>*\<^sup>* (start prog) s \<Longrightarrow> finished s \<Longrightarrow> c < BUCKET_SIZE \<Longrightarrow> hist s c = total c"
    and released: "step\<^sup>*\<^sup>* (start prog) s \<Longrightarrow> finished s \<Longrightarrow> sems s m = 1"
    and progress: "step\<^sup>*\<^sup>* (start prog) s \<Longrightarrow> \<not> finished s \<Longrightarrow> \<exists>s'. step s s'"
    and race_free: "step\<^sup>*\<^sup>* (start prog) s \<Longrightarrow> \<not> race s"
begin

lemma run_length:
  assumes "(step ^^ n) (start prog) s"
  shows "n + remaining s = remaining (start prog)"
  using steps_remaining [OF assms] by (simp add: start_def)

lemma always_finishes:
  assumes "step\<^sup>*\<^sup>* (start prog) s"
  shows "\<exists>s'. step\<^sup>*\<^sup>* s s' \<and> finished s'"
  using assms
proof (induction "remaining s" arbitrary: s rule: less_induct)
  case less
  show ?case
  proof (cases "finished s")
    case False
    then obtain u where u: "step s u" using progress less.prems by blast
    have su: "step\<^sup>*\<^sup>* (start prog) u" using less.prems u by (rule rtranclp.rtrancl_into_rtrancl)
    obtain n where "(step ^^ n) (start prog) s" using less.prems rtranclp_imp_relpowp by metis
    then have "remaining s = Suc (remaining u)"
      using steps_remaining [of n "start prog" s] step_remaining [OF u] by (simp add: start_def)
    then obtain s' where "step\<^sup>*\<^sup>* u s'" "finished s'" using less.hyps [of u] su by auto
    with u show ?thesis by (meson converse_rtranclp_into_rtranclp)
  qed auto
qed

end

locale locked_kernel =
  fixes guard :: "nat \<Rightarrow> sem" and requests :: "nat \<Rightarrow> request list" and prog :: "nat \<Rightarrow> instr list"
  assumes prog: "t < NTHREADS \<Longrightarrow> prog t = concat (map (critical guard) (requests t))"
begin

lemma reachable_inv: "step\<^sup>*\<^sup>* (start prog) s \<Longrightarrow> \<exists>ph as. locked_inv guard requests s ph as"
proof (induction rule: rtranclp_induct)
  case base
  show ?case using locked_inv_start [of prog guard requests] prog by blast
next
  case (step s s')
  then show ?case by (auto elim!: stepE dest: locked_inv_step)
qed

end

sublocale locked_kernel \<subseteq> kernel prog "\<lambda>c. \<Sum>t<NTHREADS. pending (requests t) c"
proof
  fix s c m
  assume r: "step\<^sup>*\<^sup>* (start prog) s"
  then obtain ph as where inv: "locked_inv guard requests s ph as" using reachable_inv by blast
  show "finished s \<Longrightarrow> hist s c = (\<Sum>t<NTHREADS. pending (requests t) c)" by (rule locked_inv_finished [OF inv])
  show "finished s \<Longrightarrow> sems s m = 1" by (rule locked_inv_finished [OF inv])
  show "\<not> finished s \<Longrightarrow> \<exists>s'. step s s'" by (rule locked_inv_progress [OF inv])
  show "\<not> race s" by (rule locked_inv_race_free [OF inv])
qed

locale atomic_kernel =
  fixes requests :: "nat \<Rightarrow> request list" and prog :: "nat \<Rightarrow> instr list"
  assumes prog: "t < NTHREADS \<Longrightarrow> prog t = map (\<lambda>r. FetchAdd (fst r) (snd r)) (requests t)"

definition atomic_inv :: "(nat \<Rightarrow> request list) \<Rightarrow> system \<Rightarrow> (nat \<Rightarrow> request list) \<Rightarrow> bool" where
  "atomic_inv requests s as \<longleftrightarrow>
     (\<forall>t. code s t = map (\<lambda>r. FetchAdd (fst r) (snd r)) (as t)) \<and> (\<forall>t\<ge>NTHREADS. as t = []) \<and>
     (\<forall>m. sems s m = 1) \<and>
     (\<forall>c. hist s c + (\<Sum>t<NTHREADS. pending (as t) c) = (\<Sum>t<NTHREADS. pending (requests t) c))"

lemma sum_upd:
  fixes F :: "'a \<Rightarrow> 'c :: ab_group_add"
  assumes "t < (n :: nat)"
  shows "(\<Sum>u<n. F ((as(t := a)) u)) = (\<Sum>u<n. F (as u)) - F (as t) + F a"
  using sum_two_upd [OF assms, where F = "\<lambda>p. F" and ph = undefined and p = undefined] by simp

lemma atomic_inv_step:
  assumes inv: "atomic_inv requests s as" and run: "thread_step t s = Some s'"
  shows "\<exists>as'. atomic_inv requests s' as'"
proof -
  obtain b k rs where as: "as t = (b, k) # rs"
    using assms by (cases "as t") (auto simp: atomic_inv_def thread_step_def)
  then have t: "t < NTHREADS" using inv by (metis atomic_inv_def leI list.distinct(1))
  have s': "s' = s\<lparr>code := (code s)(t := map (\<lambda>r. FetchAdd (fst r) (snd r)) rs), hist := (hist s)(b := hist s b + k)\<rparr>"
    using assms as by (simp add: atomic_inv_def thread_step_def)
  have "hist s' c + (\<Sum>u<NTHREADS. pending ((as(t := rs)) u) c) = (\<Sum>u<NTHREADS. pending (requests u) c)" for c
  proof -
    have h: "hist s' c + pending rs c = hist s c + pending (as t) c" using s' as by simp
    have "hist s c + (\<Sum>u<NTHREADS. pending (as u) c) = (\<Sum>u<NTHREADS. pending (requests u) c)"
      using inv by (simp add: atomic_inv_def)
    then show ?thesis
      unfolding sum_upd [OF t, where F = "\<lambda>a. pending a c"] by (simp only: add_shift [OF h])
  qed
  then have "atomic_inv requests s' (as(t := rs))"
    using inv t unfolding atomic_inv_def by (simp add: s')
  then show ?thesis by blast
qed

sublocale atomic_kernel \<subseteq> kernel prog "\<lambda>c. \<Sum>t<NTHREADS. pending (requests t) c"
proof
  fix s c m
  assume "step\<^sup>*\<^sup>* (start prog) s"
  then obtain as where inv: "atomic_inv requests s as"
  proof (induction rule: rtranclp_induct)
    case base
    have "atomic_inv requests (start prog) (\<lambda>t. if t < NTHREADS then requests t else [])"
      using prog by (auto simp: atomic_inv_def start_def intro!: sum.cong)
    then show ?case by (rule base)
  next
    case (step s s')
    then show ?case by (metis atomic_inv_step stepE)
  qed
  have fin: "as t = []" if "finished s" for t using that inv by (simp add: atomic_inv_def finished_def)
  show "finished s \<Longrightarrow> hist s c = (\<Sum>t<NTHREADS. pending (requests t) c)"
    using inv fin by (simp add: atomic_inv_def)
  show "finished s \<Longrightarrow> sems s m = 1" using inv by (simp add: atomic_inv_def)
  have "atomic i" if "at_instr s t i" for t i
    using that inv by (cases "as t") (auto simp: atomic_inv_def at_instr_def)
  then show "\<not> race s" by (auto simp: race_def conflict_def)
  show "\<exists>s'. step s s'" if unfinished: "\<not> finished s"
  proof -
    obtain t where "code s t \<noteq> []" using unfinished by (auto simp: finished_def)
    then have "thread_step t s \<noteq> None" using inv by (cases "as t") (auto simp: atomic_inv_def thread_step_def)
    then show ?thesis by (auto intro: step.intros)
  qed
qed

definition plain :: "request \<Rightarrow> instr list" where
  "plain r = [Load (fst r), StoreAdd (fst r) (snd r)]"

fun solo_code :: "request option \<Rightarrow> instr list" where
  "solo_code None = []"
| "solo_code (Some r) = [StoreAdd (fst r) (snd r)]"

fun solo_pending :: "request option \<Rightarrow> nat \<Rightarrow> cint" where
  "solo_pending None c = 0"
| "solo_pending (Some r) c = (if fst r = c then snd r else 0)"

definition solo_inv :: "request list \<Rightarrow> system \<Rightarrow> request option \<Rightarrow> request list \<Rightarrow> bool" where
  "solo_inv requests s p rs \<longleftrightarrow> code s 0 = solo_code p @ concat (map plain rs) \<and> (\<forall>t. t \<noteq> 0 \<longrightarrow> code s t = []) \<and>
     (\<forall>r. p = Some r \<longrightarrow> reg s 0 = hist s (fst r)) \<and> (\<forall>m. sems s m = 1) \<and>
     (\<forall>c. hist s c + (solo_pending p c + pending rs c) = pending requests c)"

lemma solo_inv_step:
  assumes inv: "solo_inv requests s p rs" and run: "thread_step t s = Some s'"
  shows "\<exists>p' rs'. solo_inv requests s' p' rs'"
proof -
  have t: "t = 0" using assms by (cases "t = 0") (auto simp: solo_inv_def thread_step_def)
  show ?thesis
  proof (cases p)
    case None
    then obtain r rs' where rs: "rs = r # rs'" using assms t by (cases rs) (auto simp: solo_inv_def thread_step_def)
    have "\<forall>c. hist s c + (solo_pending (Some r) c + pending rs' c) = pending requests c"
      using inv None rs by (simp add: solo_inv_def)
    then have "solo_inv requests s' (Some r) rs'"
      using assms t None rs
      by (auto simp: solo_inv_def thread_step_def plain_def simp del: solo_pending.simps(2))
    then show ?thesis by blast
  next
    case (Some r)
    have h: "hist s c + (solo_pending (Some r) c + pending rs c) = pending requests c" for c
      using inv Some by (simp add: solo_inv_def)
    have "((hist s)(fst r := hist s (fst r) + snd r)) c + pending rs c = pending requests c" for c
      using h [of c] by (cases "fst r = c") (auto simp: add.assoc)
    moreover have "s' = s\<lparr>code := (code s)(0 := concat (map plain rs)), hist := (hist s)(fst r := hist s (fst r) + snd r)\<rparr>"
      using assms t Some by (simp add: solo_inv_def thread_step_def)
    ultimately have "solo_inv requests s' None rs"
      using inv by (simp add: solo_inv_def)
    then show ?thesis by blast
  qed
qed

locale solo_kernel =
  fixes requests :: "request list" and prog :: "nat \<Rightarrow> instr list"
  assumes prog: "prog 0 = concat (map plain requests)"
    and idle: "t \<noteq> 0 \<Longrightarrow> prog t = []"

sublocale solo_kernel \<subseteq> kernel prog "pending requests"
proof
  fix s c m
  assume "step\<^sup>*\<^sup>* (start prog) s"
  then obtain p rs where inv: "solo_inv requests s p rs"
  proof (induction rule: rtranclp_induct)
    case base
    have "solo_inv requests (start prog) None requests"
      using prog idle by (auto simp: solo_inv_def start_def NTHREADS_def)
    then show ?case by (rule base)
  next
    case (step s s')
    then show ?case by (metis solo_inv_step stepE)
  qed
  have fin: "p = None \<and> rs = []" if "finished s"
    using that inv by (cases p; cases rs) (auto simp: solo_inv_def finished_def plain_def dest!: spec [of _ 0])
  show "finished s \<Longrightarrow> hist s c = pending requests c" using inv fin by (simp add: solo_inv_def)
  show "finished s \<Longrightarrow> sems s m = 1" using inv by (simp add: solo_inv_def)
  have "t = 0" if "at_instr s t i" for t i
    using that inv by (cases "t = 0") (auto simp: solo_inv_def at_instr_def)
  then show "\<not> race s" by (auto simp: race_def)
  show "\<exists>s'. step s s'" if unfinished: "\<not> finished s"
  proof -
    have "code s 0 \<noteq> []" using unfinished inv by (metis finished_def solo_inv_def)
    then have "thread_step 0 s \<noteq> None" using inv by (cases p; cases rs) (auto simp: solo_inv_def thread_step_def plain_def)
    then show ?thesis by (auto intro: step.intros)
  qed
qed

subsection \<open>The totals of the five kernels\<close>

definition in_bucket :: "dataset \<Rightarrow> nat \<Rightarrow> nat" where
  "in_bucket data c = card {j. j < DATA_SIZE \<and> bucket_of data j = c}"

definition block_requests :: "dataset \<Rightarrow> nat \<Rightarrow> request list" where
  "block_requests data t = map (\<lambda>j. (bucket_of data j, 1)) [t * STEP..<t * STEP + STEP]"

lemma pending_ones: "pending (map (\<lambda>j. (f j, 1)) js) c = of_nat (length (filter (\<lambda>j. f j = c) js))"
  by (induction js) auto

lemma filter_blocks:
  "(\<Sum>t<n. length (filter P [t * k..<t * k + k])) = length (filter P [0..<n * k])"
proof (induction n)
  case (Suc n)
  have "[0..<Suc n * k] = [0..<n * k] @ [n * k..<n * k + k]"
    using upt_add_eq_append [of 0 "n * k" k] by (simp add: add.commute)
  then show ?case using Suc by simp
qed simp

lemma blocks_cover: "NTHREADS * STEP = DATA_SIZE"
  by (simp add: NTHREADS_def STEP_def DATA_SIZE_def)

lemma length_filter_card: "length (filter P [0..<n]) = card {j. j < n \<and> P j}"
proof -
  have "length (filter P [0..<n]) = card (set (filter P [0..<n]))"
    by (rule distinct_card [symmetric]) simp
  also have "set (filter P [0..<n]) = {j. j < n \<and> P j}" by auto
  finally show ?thesis .
qed

lemma block_total: "(\<Sum>t<NTHREADS. pending (block_requests data t) c) = of_nat (in_bucket data c)"
proof -
  have "(\<Sum>t<NTHREADS. pending (block_requests data t) c)
      = of_nat (\<Sum>t<NTHREADS. length (filter (\<lambda>j. bucket_of data j = c) [t * STEP..<t * STEP + STEP]))"
    unfolding block_requests_def pending_ones by simp
  then show ?thesis unfolding filter_blocks blocks_cover length_filter_card in_bucket_def by simp
qed

definition all_requests :: "dataset \<Rightarrow> request list" where
  "all_requests data = map (\<lambda>j. (bucket_of data j, 1)) [0..<DATA_SIZE]"

lemma all_total: "pending (all_requests data) c = of_nat (in_bucket data c)"
  unfolding all_requests_def pending_ones length_filter_card in_bucket_def ..

lemma bucket_less: "bucket_of data j < BUCKET_SIZE"
  by (simp add: bucket_of_def BUCKET_SIZE_def)

lemma count_one_nth:
  "length counts = BUCKET_SIZE \<Longrightarrow> c < BUCKET_SIZE \<Longrightarrow>
     length (count_one data j counts) = BUCKET_SIZE \<and>
     count_one data j counts ! c = counts ! c + of_nat (length (filter (\<lambda>j. bucket_of data j = c) [j]))"
  using bucket_less [of data j] by (auto simp: count_one_def)

lemma local_counts_nth:
  assumes "length counts = BUCKET_SIZE" "c < BUCKET_SIZE"
  shows "local_counts data j (j + 4 * m) counts ! c
    = counts ! c + of_nat (length (filter (\<lambda>i. bucket_of data i = c) [j..<j + 4 * m]))"
  using assms
proof (induction m arbitrary: j counts)
  case 0
  then show ?case by (simp add: local_counts.simps)
next
  case (Suc m)
  let ?counts = "count_one data (j + 3) (count_one data (j + 2) (count_one data (j + 1) (count_one data j counts)))"
  have u: "[j..<j + 4 * Suc m] = [j, j + 1, j + 2, j + 3] @ [j + 4..<(j + 4) + 4 * m]"
    using upt_add_eq_append [of j "j + 4" "4 * m"] by (simp add: upt_rec numeral_eq_Suc)
  have l: "length ?counts = BUCKET_SIZE" using Suc.prems count_one_nth by simp
  have n: "?counts ! c = counts ! c + of_nat (length (filter (\<lambda>i. bucket_of data i = c) [j, j + 1, j + 2, j + 3]))"
    using Suc.prems by (simp add: count_one_nth)
  have "local_counts data j (j + 4 * Suc m) counts = local_counts data (j + 4) ((j + 4) + 4 * m) ?counts"
    by (subst local_counts.simps) (simp add: add.assoc)
  then show ?case unfolding u filter_append length_append of_nat_add
    using Suc.IH [OF l Suc.prems(2), of "j + 4"] n by (simp only: add.assoc)
qed

definition count_requests :: "dataset \<Rightarrow> nat \<Rightarrow> request list" where
  "count_requests data t =
     map (\<lambda>k. (k, local_counts data (t * STEP) (t * STEP + STEP) [0, 0, 0, 0, 0, 0, 0, 0] ! k)) [0..<BUCKET_SIZE]"

lemma pending_keys: "pending (map (\<lambda>k. (k, f k)) [0..<n]) c = (if c < n then f c else 0)"
  by (induction n) (auto simp: pending_def less_Suc_eq)

lemma zero_counts: "length [0, 0, 0, 0, 0, 0, 0, 0 :: cint] = BUCKET_SIZE" "c < BUCKET_SIZE \<Longrightarrow> [0, 0, 0, 0, 0, 0, 0, 0 :: cint] ! c = 0"
  by (auto simp: BUCKET_SIZE_def less_Suc_eq numeral_eq_Suc)

lemma step_by_four: "STEP = 4 * 3125000"
  by (simp add: STEP_def DATA_SIZE_def NTHREADS_def)

lemma count_total: assumes "c < BUCKET_SIZE" shows "(\<Sum>t<NTHREADS. pending (count_requests data t) c) = of_nat (in_bucket data c)"
proof -
  have "pending (count_requests data t) c = pending (block_requests data t) c" for t
    using local_counts_nth [OF zero_counts(1) assms, of data "t * STEP" 3125000, folded step_by_four]
      assms zero_counts(2) [OF assms]
    unfolding count_requests_def block_requests_def pending_keys pending_ones by simp
  then show ?thesis using block_total [of data c] by simp
qed

interpretation h0: solo_kernel "all_requests data" "histo_0 data" for data
  by unfold_locales (simp_all add: histo_0_def all_requests_def plain_def comp_def)

interpretation h1: locked_kernel "\<lambda>_. Mutex" "block_requests data" "histo_1 data" for data
  by unfold_locales (simp add: histo_1_def block_requests_def critical_def comp_def Let_def)

interpretation h2: locked_kernel Lock "block_requests data" "histo_2 data" for data
  by unfold_locales (simp add: histo_2_def block_requests_def critical_def comp_def Let_def)

interpretation h3: atomic_kernel "block_requests data" "histo_3 data" for data
  by unfold_locales (simp add: histo_3_def block_requests_def comp_def Let_def)

interpretation h4: locked_kernel Lock "count_requests data" "histo_4 data" for data
  by unfold_locales (simp add: histo_4_def count_requests_def critical_def comp_def Let_def)

lemma kernels: "k < 5 \<Longrightarrow> \<exists>total. kernel ((thread_routine ! k) data) total \<and> (\<forall>c<BUCKET_SIZE. total c = of_nat (in_bucket data c))"
proof -
  assume "k < 5"
  then consider "k = 0" | "k = 1" | "k = 2" | "k = 3" | "k = 4" by linarith
  then show ?thesis
  proof cases
    case 1
    then show ?thesis using h0.kernel_axioms all_total by (auto simp: thread_routine_def)
  next
    case 2
    then show ?thesis using h1.kernel_axioms block_total by (auto simp: thread_routine_def)
  next
    case 3
    then show ?thesis using h2.kernel_axioms block_total by (auto simp: thread_routine_def numeral_eq_Suc)
  next
    case 4
    then show ?thesis using h3.kernel_axioms block_total by (auto simp: thread_routine_def numeral_eq_Suc)
  next
    case 5
    then show ?thesis using h4.kernel_axioms count_total by (auto simp: thread_routine_def numeral_eq_Suc)
  qed
qed

subsection \<open>Properties\<close>

text \<open>
  C19: Correctness under every interleaving. When the threads of any of the five kernels have
  finished, in whatever order their instructions were executed, every bucket holds the number
  of data items with that remainder, and every semaphore is back at 1.
\<close>

theorem kernel_correct:
  assumes "k < 5" "step\<^sup>*\<^sup>* (start ((thread_routine ! k) data)) s" "finished s" "c < BUCKET_SIZE"
  shows "hist s c = of_nat (card {j. j < DATA_SIZE \<and> bucket_of data j = c}) \<and> sems s m = 1"
  using kernels [OF assms(1), of data] kernel.result [OF _ assms(2,3,4)] kernel.released [OF _ assms(2,3)] assms(4)
  unfolding in_bucket_def by metis

lemma start_steps: "step\<^sup>*\<^sup>* (start p) (start p)"
  by simp

theorem kernel_correct_witness:
  "\<exists>s. step\<^sup>*\<^sup>* (start ((thread_routine ! 2) (\<lambda>j. of_nat j))) s \<and> finished s
     \<and> hist s 3 = of_nat (card {j. j < DATA_SIZE \<and> bucket_of (\<lambda>j. of_nat j) j = 3}) \<and> sems s Mutex = 1"
proof -
  have k: "(2 :: nat) < 5" by simp
  obtain total where "kernel ((thread_routine ! 2) (\<lambda>j. of_nat j)) total"
    using kernels [OF k, of "\<lambda>j. of_nat j"] by blast
  then obtain s where s: "step\<^sup>*\<^sup>* (start ((thread_routine ! 2) (\<lambda>j. of_nat j))) s" "finished s"
    using kernel.always_finishes [OF _ start_steps] by blast
  have c: "3 < BUCKET_SIZE" by (simp add: BUCKET_SIZE_def)
  show ?thesis using s kernel_correct [OF k s c, of Mutex] by blast
qed

text \<open>
  C21: No deadlock and no livelock. From every state a kernel can reach, it can finish, and
  every run of it has at most as many steps as it has instructions, so every schedule that
  keeps running enabled threads ends.
\<close>

theorem kernel_completes:
  assumes "k < 5" "step\<^sup>*\<^sup>* (start ((thread_routine ! k) data)) s"
  shows "(\<exists>s'. step\<^sup>*\<^sup>* s s' \<and> finished s') \<and> (finished s \<or> (\<exists>s'. step s s'))
    \<and> (\<forall>n u. (step ^^ n) (start ((thread_routine ! k) data)) u
         \<longrightarrow> n + remaining u = remaining (start ((thread_routine ! k) data)))"
proof -
  obtain total where k: "kernel ((thread_routine ! k) data) total"
    using kernels [OF assms(1), of data] by blast
  show ?thesis
    using kernel.always_finishes [OF k assms(2)] kernel.progress [OF k assms(2)]
      kernel.run_length [OF k] by blast
qed

theorem kernel_completes_witness:
  "\<exists>s. step\<^sup>*\<^sup>* (start ((thread_routine ! 1) (\<lambda>j. of_nat j))) s \<and> finished s"
  using kernel_completes [of 1 "\<lambda>j. of_nat j" "start ((thread_routine ! 1) (\<lambda>j. of_nat j))"] by simp

lemma block_requests_head: "\<exists>rest. block_requests data t = (bucket_of data (t * STEP), 1) # rest"
proof -
  have "[t * STEP..<t * STEP + STEP] = t * STEP # [Suc (t * STEP)..<t * STEP + STEP]"
    by (rule upt_conv_Cons) (simp add: step_by_four)
  then show ?thesis by (simp add: block_requests_def)
qed

text \<open>
  C20: No data races. In no state that a kernel can reach are two threads about to access the same
  bucket, one of them to write it, unless both do so atomically.
\<close>

theorem kernel_race_free:
  assumes "k < 5" "step\<^sup>*\<^sup>* (start ((thread_routine ! k) data)) s"
    and "t \<noteq> u" "at_instr s t i" "at_instr s u j" "accesses i = Some b" "accesses j = Some b"
  shows "\<not> writes i \<and> \<not> writes j \<or> atomic i \<and> atomic j"
proof -
  obtain total where "kernel ((thread_routine ! k) data) total" using kernels [OF assms(1), of data] by blast
  then have "\<not> race s" using kernel.race_free [OF _ assms(2)] by blast
  then show ?thesis using raceI [OF assms(3-5)] assms(6,7) by (auto simp: conflict_def)
qed

theorem kernel_race_free_witness:
  "\<exists>i j. at_instr (start ((thread_routine ! 3) (\<lambda>_. 5))) 0 i \<and> at_instr (start ((thread_routine ! 3) (\<lambda>_. 5))) 1 j \<and>
     accesses i = Some 5 \<and> accesses j = Some 5 \<and> (\<not> writes i \<and> \<not> writes j \<or> atomic i \<and> atomic j)"
proof -
  let ?s = "start ((thread_routine ! 3) (\<lambda>_. 5))"
  have "at_instr ?s t (FetchAdd 5 1)" if "t < NTHREADS" for t
    using that block_requests_head [of "\<lambda>_. 5" t] h3.prog [of t "\<lambda>_. 5"]
    by (auto simp: at_instr_def start_def thread_routine_def bucket_of_def BUCKET_SIZE_def)
  then have i: "at_instr ?s 0 (FetchAdd 5 1)" "at_instr ?s 1 (FetchAdd 5 1)" by (simp_all add: NTHREADS_def)
  have r: "\<not> writes (FetchAdd 5 1) \<and> \<not> writes (FetchAdd 5 1) \<or> atomic (FetchAdd 5 1) \<and> atomic (FetchAdd 5 1)"
    by (rule kernel_race_free [OF _ start_steps _ i]) simp_all
  show ?thesis by (intro exI conjI, rule i(1), rule i(2), simp, simp, rule r)
qed

text \<open>
  The property says something: the kernel \<open>histo_1\<close> as it was given to the students, without its two
  lock operations, has a race after a single step, if the data items 0 and \<open>STEP\<close> are equal.
\<close>

definition unlocked :: "dataset \<Rightarrow> nat \<Rightarrow> instr list" where
  "unlocked data t = concat (map plain (block_requests data t))"

lemma unlocked_race:
  assumes "data 0 = data STEP"
  shows "\<exists>s. step (start (unlocked data)) s \<and> race s"
proof -
  let ?b = "bucket_of data 0"
  obtain r0 r1 where r: "block_requests data 0 = (?b, 1) # r0" "block_requests data 1 = (bucket_of data STEP, 1) # r1"
    using block_requests_head [of data 0] block_requests_head [of data 1] by auto
  have b: "bucket_of data STEP = ?b" using assms by (simp add: bucket_of_def)
  let ?s = "start (unlocked data)"
  let ?t = "?s\<lparr>code := (code ?s)(0 := StoreAdd ?b 1 # concat (map plain r0)), reg := (reg ?s)(0 := hist ?s ?b)\<rparr>"
  have c: "code ?s 0 = Load ?b # StoreAdd ?b 1 # concat (map plain r0)" "code ?s 1 = Load ?b # StoreAdd ?b 1 # concat (map plain r1)"
    using r b by (simp_all add: start_def NTHREADS_def unlocked_def plain_def)
  have "thread_step 0 ?s = Some ?t" by (simp add: thread_step_def c(1))
  moreover have "at_instr ?t 0 (StoreAdd ?b 1)" "at_instr ?t 1 (Load ?b)" using c by (simp_all add: at_instr_def)
  then have "race ?t" by (rule raceI [OF zero_neq_one]) (simp add: conflict_def)
  ultimately show ?thesis by (auto intro: step.intros)
qed

end
