(* ===== verification/ThreadLab.thy ===== *)
theory ThreadLab
  imports Histogram Scan "HOL-Library.Signed_Division"
begin

section \<open>The harness around the histogram kernels (util.c, main of thread.c)\<close>

text \<open>
  What \<^verbatim>\<open>labs/threadlab-handout/util.c\<close> does around the kernels: it draws the data and counts it
  once itself into \<open>bucket\<close>, runs the five kernels one after the other on a cleared histogram,
  prints the histogram and its sum, and judges each kernel by that sum and by the elapsed time.
  \<open>rand\<close> and the readings of \<open>gettimeofday\<close> before and after each kernel are parameters: the C library
  promises only that \<open>rand()\<close> is not negative. \<open>main\<close> runs the kernels only if \<open>check_info\<close> accepts the name and
  the number of the student.
\<close>

subsection \<open>The data set and its reference histogram\<close>

definition datum :: "(nat \<Rightarrow> int) \<Rightarrow> nat \<Rightarrow> int" where
  "datum rand i = rand i smod int DATA_MAX"

primrec generate :: "(nat \<Rightarrow> int) \<Rightarrow> nat \<Rightarrow> dataset \<times> cint list \<Rightarrow> dataset \<times> cint list" where
  "generate rand 0 st = st"
| "generate rand (Suc i) st =
     (let (data, bucket) = generate rand i st;
          d = datum rand i;
          c = nat (d smod int BUCKET_SIZE)
      in (data(i := word_of_int d), bucket[c := bucket ! c + 1]))"

lemma datum_byte:
  assumes "0 \<le> rand i"
  shows "unat (word_of_int (datum rand i) :: byte) mod BUCKET_SIZE = nat (datum rand i smod int BUCKET_SIZE)"
    "nat (datum rand i smod int BUCKET_SIZE) < BUCKET_SIZE"
proof -
  have d: "datum rand i = rand i mod 255" using assms
    by (auto simp: datum_def DATA_MAX_def signed_modulo_int_def sgn_if)
  have b: "0 \<le> rand i mod 255" "rand i mod 255 < 255" by simp_all
  have s: "datum rand i smod int BUCKET_SIZE = (rand i mod 255) mod 8"
    using b by (simp add: d BUCKET_SIZE_def signed_modulo_int_def sgn_if)
  have u: "uint (word_of_int (datum rand i) :: byte) = rand i mod 255" using b
    by (simp add: d uint_word_of_int mod_pos_pos_trivial)
  then have "unat (word_of_int (datum rand i) :: byte) = nat (rand i mod 255)"
    by (simp add: unat_eq_nat_uint)
  then show "unat (word_of_int (datum rand i) :: byte) mod BUCKET_SIZE = nat (datum rand i smod int BUCKET_SIZE)"
    unfolding s using b by (simp add: BUCKET_SIZE_def nat_mod_distrib)
  show "nat (datum rand i smod int BUCKET_SIZE) < BUCKET_SIZE" unfolding s by (simp add: BUCKET_SIZE_def)
qed

definition in_prefix :: "dataset \<Rightarrow> nat \<Rightarrow> nat \<Rightarrow> nat" where
  "in_prefix data n c = card {j. j < n \<and> bucket_of data j = c}"

lemma in_prefix_Suc: "in_prefix (data(n := w)) (Suc n) c = in_prefix data n c + of_bool (unat w mod BUCKET_SIZE = c)"
proof -
  have "{j. j < Suc n \<and> bucket_of (data(n := w)) j = c} = {j. j < n \<and> bucket_of data j = c} \<union> (if unat w mod BUCKET_SIZE = c then {n} else {})"
    by (auto simp: bucket_of_def less_Suc_eq)
  then show ?thesis unfolding in_prefix_def by (auto simp: card_insert_if)
qed

lemma generate_counts:
  assumes "\<And>i. 0 \<le> rand i" "generate rand n (data0, replicate BUCKET_SIZE 0) = (data, bucket)"
  shows "length bucket = BUCKET_SIZE \<and> (\<forall>c<BUCKET_SIZE. bucket ! c = of_nat (in_prefix data n c))"
  using assms(2)
proof (induction n arbitrary: data bucket)
  case 0
  then show ?case by (auto simp: in_prefix_def)
next
  case (Suc n)
  obtain d b where g: "generate rand n (data0, replicate BUCKET_SIZE 0) = (d, b)" by force
  let ?c = "nat (datum rand n smod int BUCKET_SIZE)"
  have e: "data = d(n := word_of_int (datum rand n))" "bucket = b[?c := b ! ?c + 1]"
    using Suc.prems g by (simp_all add: Let_def)
  show ?case
    unfolding e in_prefix_Suc datum_byte(1) [OF assms(1)]
    using Suc.IH [OF g] datum_byte(2) [OF assms(1)] by (auto simp: nth_list_update)
qed

subsection \<open>Printing and judging\<close>

primrec hist_sum :: "cint list \<Rightarrow> nat \<Rightarrow> cint" where
  "hist_sum h 0 = 0"
| "hist_sum h (Suc n) = hist_sum h n + h ! n"

definition printHistogram :: "cint list \<Rightarrow> nat \<Rightarrow> (nat \<times> cint) list \<times> cint" where
  "printHistogram h n = (map (\<lambda>i. (i, h ! i)) [0..<n], hist_sum h n)"

definition lower_range :: "int list" where "lower_range = [0, 13000, 10000, 1000, 0]"
definition upper_range :: "int list" where "upper_range = [200, 45000, 20000, 5000, 1000]"

text \<open>
  The elapsed time in milliseconds between two readings of \<open>gettimeofday\<close>, seconds and microseconds:
  \<open>mtime\<close> is assigned \<open>((secs) * 1000 + usecs/1000.0) + 0.5\<close>, here in exact arithmetic and cut
  off towards zero by the conversion to \<open>long\<close>.
\<close>

definition elapsed_ms :: "(int \<times> int) \<times> (int \<times> int) \<Rightarrow> int" where
  "elapsed_ms tv =
     (let secs = fst (snd tv) - fst (fst tv); usecs = snd (snd tv) - snd (fst tv)
      in (1000000 * secs + usecs + 500) sdiv 1000)"

lemma elapsed_ms_nearest:
  assumes "0 \<le> 1000000 * (s1 - s0) + (u1 - u0)"
  shows "\<bar>1000 * elapsed_ms ((s0, u0), (s1, u1)) - (1000000 * (s1 - s0) + (u1 - u0))\<bar> \<le> 500"
proof -
  let ?d = "1000000 * (s1 - s0) + (u1 - u0)"
  have "elapsed_ms ((s0, u0), (s1, u1)) = (?d + 500) div 1000"
    using assms by (simp add: elapsed_ms_def signed_divide_int_def sgn_if)
  then show ?thesis by linarith
qed

text \<open>The part of the loop body of run_threads after the joins: the entries of the arrays correctness and flag_range.\<close>

definition judge :: "nat \<Rightarrow> cint list \<Rightarrow> int \<Rightarrow> cint \<times> cint" where
  "judge k h mtime =
     (let s = snd (printHistogram h BUCKET_SIZE);
          correct = (if s = of_nat DATA_SIZE then 1 else 0);
          flag = (if correct \<noteq> 0 \<and> (mtime < lower_range ! k \<or> upper_range ! k < mtime) then 1 else 0)
      in (correct, flag))"

text \<open>
  The loop over \<open>thread_rt_id\<close>. An iteration clears the histogram, starts the eight threads with
  the semaphores as the iteration before left them, lets them run in any order until all have
  been joined, and judges the result. \<open>routines mtime data k sems res sems'\<close>: after \<open>k\<close> iterations
  the printed histograms with their entries of \<open>correctness\<close> and \<open>flag_range\<close> are \<open>res\<close>.
\<close>

definition spawn :: "nat \<Rightarrow> dataset \<Rightarrow> (sem \<Rightarrow> nat) \<Rightarrow> system" where
  "spawn k data sm = (start ((thread_routine ! k) data))\<lparr>sems := sm\<rparr>"

type_synonym judged = "cint list \<times> cint \<times> cint"

inductive routines :: "(nat \<Rightarrow> int) \<Rightarrow> dataset \<Rightarrow> nat \<Rightarrow> (sem \<Rightarrow> nat) \<Rightarrow> judged list \<Rightarrow> (sem \<Rightarrow> nat) \<Rightarrow> bool"
  for mtime :: "nat \<Rightarrow> int" and data :: dataset where
  routines_none: "routines mtime data 0 sm [] sm"
| routines_next: "routines mtime data k sm res sm' \<Longrightarrow> step\<^sup>*\<^sup>* (spawn k data sm') s \<Longrightarrow> finished s \<Longrightarrow>
     h = map (hist s) [0..<BUCKET_SIZE] \<Longrightarrow>
     routines mtime data (Suc k) sm (res @ [(h, judge k h (mtime k))]) (sems s)"

type_synonym stopwatch = "nat \<Rightarrow> (int \<times> int) \<times> (int \<times> int)"

inductive run_threads :: "(nat \<Rightarrow> int) \<Rightarrow> stopwatch \<Rightarrow> (sem \<Rightarrow> nat) \<Rightarrow> cint list \<Rightarrow> judged list \<Rightarrow> bool"
  for rand :: "nat \<Rightarrow> int" and tv :: stopwatch where
  run_threads: "generate rand DATA_SIZE (\<lambda>_. 0, replicate BUCKET_SIZE 0) = (data, bucket) \<Longrightarrow>
     routines (\<lambda>k. elapsed_ms (tv k)) data 5 sm res sm' \<Longrightarrow> run_threads rand tv sm bucket res"

inductive_cases run_threadsE: "run_threads rand tv sm bucket res"

subsection \<open>Every accepted schedule gives the reference histogram\<close>

lemma sum_prefix: "(\<Sum>c<BUCKET_SIZE. in_prefix data n c) = n"
proof (induction n)
  case 0
  then show ?case by (simp add: in_prefix_def)
next
  case (Suc n)
  have "(\<Sum>c<BUCKET_SIZE. in_prefix data (Suc n) c) = (\<Sum>c<BUCKET_SIZE. in_prefix data n c + of_bool (bucket_of data n = c))"
    using in_prefix_Suc [of data n "data n"] by (intro sum.cong) (auto simp: bucket_of_def)
  also have "\<dots> = n + (\<Sum>c<BUCKET_SIZE. of_bool (bucket_of data n = c))" using Suc by (simp add: sum.distrib)
  also have "(\<Sum>c<BUCKET_SIZE. of_bool (bucket_of data n = c) :: nat) = 1"
    using bucket_less [of data n] by (simp add: of_bool_def if_distrib sum.delta)
  finally show ?case by simp
qed

lemma hist_sum_map: "n \<le> m \<Longrightarrow> hist_sum (map f [0..<m]) n = (\<Sum>i<n. f i)"
  by (induction n) simp_all

lemma in_prefix_all: "in_prefix data DATA_SIZE c = in_bucket data c"
  by (simp add: in_prefix_def in_bucket_def)

lemma prefix_sum_correct: "(\<Sum>c<BUCKET_SIZE. of_nat (in_bucket data c) :: cint) = of_nat DATA_SIZE"
proof -
  have "(\<Sum>c<BUCKET_SIZE. of_nat (in_bucket data c) :: cint) = of_nat (\<Sum>c<BUCKET_SIZE. in_prefix data DATA_SIZE c)"
    by (simp add: in_prefix_all)
  then show ?thesis by (simp only: sum_prefix)
qed

text \<open>What one iteration prints and stores, given that the semaphores start at 1.\<close>

definition counted :: "dataset \<Rightarrow> cint list" where
  "counted data = map (\<lambda>c. of_nat (in_bucket data c)) [0..<BUCKET_SIZE]"

lemma judge_counted: "judge k (counted data) t = (1, if t < lower_range ! k \<or> upper_range ! k < t then 1 else 0)"
  by (simp add: judge_def printHistogram_def counted_def hist_sum_map prefix_sum_correct)

lemma spawn_start: "spawn k data (\<lambda>_. 1) = start ((thread_routine ! k) data)"
  by (simp add: spawn_def start_def)

lemma kernel_outcome:
  assumes "k < 5" "step\<^sup>*\<^sup>* (spawn k data (\<lambda>_. 1)) s" "finished s"
  shows "map (hist s) [0..<BUCKET_SIZE] = counted data" and "sems s = (\<lambda>_. 1)"
proof -
  obtain total where t: "kernel ((thread_routine ! k) data) total" "\<forall>c<BUCKET_SIZE. total c = of_nat (in_bucket data c)"
    using kernels [OF assms(1), of data] by blast
  note r = assms(2) [unfolded spawn_start]
  show "map (hist s) [0..<BUCKET_SIZE] = counted data"
    using kernel.result [OF t(1) r assms(3)] t(2) by (simp add: counted_def)
  show "sems s = (\<lambda>_. 1)" using kernel.released [OF t(1) r assms(3)] by blast
qed

lemma routines_result:
  assumes "routines mtime data n sm res sm'" "sm = (\<lambda>_. 1)" "n \<le> 5"
  shows "sm' = (\<lambda>_. 1) \<and> res = map (\<lambda>k. (counted data, judge k (counted data) (mtime k))) [0..<n]"
  using assms
proof (induction rule: routines.induct)
  case (routines_next k sm res sm' s h)
  then have i: "sm' = (\<lambda>_. 1)" "res = map (\<lambda>k. (counted data, judge k (counted data) (mtime k))) [0..<k]" and k: "k < 5"
    by simp_all
  show ?case using kernel_outcome [OF k routines_next.hyps(2) [unfolded i(1)] routines_next.hyps(3)] i(2) routines_next.hyps(4)
    by simp
qed simp

lemma routines_exist:
  assumes "n \<le> 5"
  shows "\<exists>res. routines mtime data n (\<lambda>_. 1) res (\<lambda>_. 1)"
  using assms
proof (induction n)
  case 0
  then show ?case using routines_none by blast
next
  case (Suc n)
  then obtain res where r: "routines mtime data n (\<lambda>_. 1) res (\<lambda>_. 1)" and n: "n < 5" by auto
  obtain total where "kernel ((thread_routine ! n) data) total" using kernels [OF n, of data] by blast
  then obtain s where s: "step\<^sup>*\<^sup>* (spawn n data (\<lambda>_. 1)) s" "finished s"
    using kernel.always_finishes [OF _ start_steps] unfolding spawn_start by blast
  show ?case using routines_next [OF r s refl] kernel_outcome(2) [OF n s] by auto
qed

lemma generate_bucket:
  assumes "\<And>i. 0 \<le> rand i" "generate rand DATA_SIZE (data0, replicate BUCKET_SIZE 0) = (data, bucket)"
  shows "bucket = counted data"
proof (rule nth_equalityI)
  note g = generate_counts [OF assms]
  show "length bucket = length (counted data)" using g by (simp add: counted_def)
  fix i assume "i < length bucket"
  then show "bucket ! i = counted data ! i" using g by (simp add: counted_def in_prefix_all)
qed

text \<open>
  C18: The histogram lab as a whole. Whatever \<open>rand\<close> returns and however the threads of the five
  kernels are scheduled, every kernel's histogram is the reference histogram \<open>bucket\<close> that
  \<open>run_threads\<close> computes with the data, every entry of \<open>correctness\<close> is 1, and an entry of
  \<open>flag_range\<close> is set exactly if the elapsed time is outside the kernel's range.
\<close>

theorem run_threads_correct:
  assumes "\<And>i. 0 \<le> rand i" "run_threads rand tv (\<lambda>_. 1) bucket res"
  shows "length res = 5 \<and> (\<forall>k<5. res ! k =
    (bucket, 1, if elapsed_ms (tv k) < lower_range ! k \<or> upper_range ! k < elapsed_ms (tv k) then 1 else 0))"
proof -
  obtain data sm' where g: "generate rand DATA_SIZE (\<lambda>_. 0, replicate BUCKET_SIZE 0) = (data, bucket)"
    and r: "routines (\<lambda>k. elapsed_ms (tv k)) data 5 (\<lambda>_. 1) res sm'"
    using assms(2) by (auto elim: run_threadsE)
  have "res = map (\<lambda>k. (counted data, judge k (counted data) (elapsed_ms (tv k)))) [0..<5]"
    using routines_result [OF r] by simp
  then show ?thesis using generate_bucket [OF assms(1) g] by (simp add: judge_counted)
qed

theorem run_threads_correct_witness:
  "\<exists>bucket res. run_threads (\<lambda>i. int i) (\<lambda>k. ((5, 900000), (6, 0))) (\<lambda>_. 1) bucket res \<and> res ! 0 = (bucket, 1, 0) \<and> res ! 1 = (bucket, 1, 1)"
proof -
  obtain data bucket where g: "generate (\<lambda>i. int i) DATA_SIZE (\<lambda>_. 0, replicate BUCKET_SIZE 0) = (data, bucket)" by force
  obtain res where r: "routines (\<lambda>k. elapsed_ms ((5, 900000), (6, 0))) data 5 (\<lambda>_. 1) res (\<lambda>_. 1)" using routines_exist [of 5] by auto
  have t: "run_threads (\<lambda>i. int i) (\<lambda>k. ((5, 900000), (6, 0))) (\<lambda>_. 1) bucket res" by (rule run_threads.intros [OF g r])
  have e: "elapsed_ms ((5, 900000), (6, 0)) = 100" by (simp add: elapsed_ms_def signed_divide_int_def)
  have n: "\<And>i. 0 \<le> int i" by simp
  have c: "length res = 5 \<and> (\<forall>k<5. res ! k = (bucket, 1, if elapsed_ms ((5, 900000), (6, 0)) < lower_range ! k \<or> upper_range ! k < elapsed_ms ((5, 900000), (6, 0)) then 1 else 0))"
    by (rule run_threads_correct [OF n t])
  have "res ! 0 = (bucket, 1, 0)" using c by (simp add: e lower_range_def upper_range_def)
  moreover have "res ! 1 = (bucket, 1, 1)" using c by (simp add: e lower_range_def upper_range_def)
  ultimately show ?thesis using t by blast
qed

subsection \<open>The information about the student, and main\<close>

record info_t =
  info_name :: string
  info_id :: string

definition info :: info_t where
  "info = \<lparr>info_name = ''Aditya Pimplaskar'', info_id = ''804900470''\<rparr>"

datatype info_line = NoName | YourName string | NoUid | YourUid string | UidNotNumber | Shell string

definition check_info :: "info_t \<Rightarrow> err + bool \<times> info_line list" where
  "check_info ti =
     (let name = info_name ti; uid = info_id ti in
      if name = '''' \<or> name = ''YOUR_NAME'' then Inr (False, [NoName])
      else if uid = '''' \<or> name = ''YOUR_UID'' then Inr (False, [YourName name, NoUid])
      else if \<not> all_digits uid then Inr (False, [YourName name, YourUid uid, UidNotNumber])
      else if 64 \<le> length (hash_cmd name) then Inl OutOfBounds
      else Inr (True, [YourName name, YourUid uid, Shell ''echo -n 'YOUR HASH: ' '', Shell (hash_cmd name)]))"

inductive thread_main ::
  "(nat \<Rightarrow> int) \<Rightarrow> stopwatch \<Rightarrow> info_t \<Rightarrow> info_line list \<Rightarrow> (cint list \<times> judged list) option \<Rightarrow> bool"
  for rand :: "nat \<Rightarrow> int" and tv :: stopwatch where
  main_rejects: "check_info ti = Inr (False, ls) \<Longrightarrow> thread_main rand tv ti ls None"
| main_runs: "check_info ti = Inr (True, ls) \<Longrightarrow> run_threads rand tv (\<lambda>_. 1) bucket res \<Longrightarrow>
     thread_main rand tv ti ls (Some (bucket, res))"

inductive_simps thread_main_simps: "thread_main rand tv ti ls r"

text \<open>
  C22: What \<open>check_info\<close> accepts. It returns true exactly if there is a name other than the two
  placeholders, a nonempty number made of digits, and a name of at most 34 characters; with a
  longer name it writes past the end of \<open>hash_cmd\<close>. The placeholder \<open>YOUR_UID\<close> is looked for
  in the name, and the name goes into the shell command as it is: only the number is checked.
  (The strings are shorter than \<open>2 ^ 31\<close>, so their lengths fit in the \<open>int\<close> variables.)
\<close>

theorem check_info_exact:
  "((\<exists>ls. check_info ti = Inr (True, ls)) = (info_name ti \<notin> {'''', ''YOUR_NAME'', ''YOUR_UID''} \<and>
     info_id ti \<noteq> [] \<and> list_all isdigit (info_id ti) \<and> length (info_name ti) \<le> 34)) \<and>
   ((check_info ti = Inl OutOfBounds) = (info_name ti \<notin> {'''', ''YOUR_NAME'', ''YOUR_UID''} \<and>
     info_id ti \<noteq> [] \<and> list_all isdigit (info_id ti) \<and> 34 < length (info_name ti)))"
  by (auto simp: check_info_def Let_def all_digits_iff length_hash_cmd list_all_iff)

lemma info_accepted: "check_info info = Inr (True, [YourName ''Aditya Pimplaskar'', YourUid ''804900470'',
    Shell ''echo -n 'YOUR HASH: ' '', Shell ''echo -n Aditya Pimplaskar | md5sum | cut -c -6''])"
  by (simp add: check_info_def info_def hash_cmd_def isdigit_def char_code_def)

text \<open>
  C23: The program as submitted. With the information in \<open>thread.c\<close> every run of \<open>main\<close> reaches
  \<open>run_threads\<close>, and there is such a run; in each of them all five kernels are judged correct.
\<close>

theorem main_judges_correct:
  assumes "\<And>i. 0 \<le> rand i"
  shows "(\<exists>ls r. thread_main rand tv info ls r) \<and>
    (\<forall>ls r. thread_main rand tv info ls r \<longrightarrow>
       (\<exists>bucket res. r = Some (bucket, res) \<and> length res = 5 \<and> (\<forall>(h, c, fl)\<in>set res. h = bucket \<and> c = 1)))"
proof -
  obtain data bucket where g: "generate rand DATA_SIZE (\<lambda>_. 0, replicate BUCKET_SIZE 0) = (data, bucket)" by force
  have run: "run_threads rand tv (\<lambda>_. 1) b r \<Longrightarrow> length r = 5 \<and> (\<forall>(h, c, fl)\<in>set r. h = b \<and> c = 1)" for b r
    using routines_result [of "\<lambda>k. elapsed_ms (tv k)" _ 5 "\<lambda>_. 1" r] generate_bucket [OF assms]
    by (fastforce elim: run_threadsE simp: judge_counted)
  have "\<exists>res. run_threads rand tv (\<lambda>_. 1) bucket res"
    using routines_exist [of 5 "\<lambda>k. elapsed_ms (tv k)" data] run_threads.intros [OF g] by blast
  then show ?thesis using run info_accepted by (auto simp: thread_main_simps)
qed

theorem main_judges_correct_witness:
  "\<exists>ls bucket res. thread_main int (\<lambda>_. ((0, 0), (0, 0))) info ls (Some (bucket, res)) \<and> length res = 5"
  using main_judges_correct [of int "\<lambda>_. ((0, 0), (0, 0))"] by fastforce

end
