(* ===== verification/Fcyc.thy ===== *)
theory Fcyc
  imports Clock "HOL-Library.Multiset"
begin

section \<open>The K-best sampler (fcyc.c)\<close>

text \<open>
  \<^verbatim>\<open>labs/malloclab/fcyc.c\<close> times a function by repeated measurement: it keeps the \<open>kbest\<close>
  smallest samples in order and stops when they agree within \<open>epsilon\<close> or after \<open>maxsamples\<close>
  samples. The file's static variables are the record \<open>sampler\<close>; its last field \<open>world\<close> is
  what the timed function and the counters act on. Samples are of any linearly ordered type
  (doubles that are not NaN); their arithmetic is the argument \<open>fp\<close> of the operations.
  The counters of \<^verbatim>\<open>clock.c\<close> are an argument \<open>timer\<close>. The allocator of libc is the argument
  \<open>memory_source\<close>: whether it grants a number of bytes in a world, and the content of fresh memory.
\<close>

subsection \<open>The static variables\<close>

record ('d, 'w) sampler =
  kbest :: cint
  maxsamples :: cint
  epsilon :: 'd
  compensate :: cint
  clear_cache :: cint
  cache_bytes :: cint
  cache_block :: cint
  cache_buf :: "cint list option"
  samples :: "'d list option"
  samplecount :: cint
  sink :: cint
  world :: 'w

record 'w memory_source =
  grants :: "'w \<Rightarrow> uint64 \<Rightarrow> bool"
  fresh_words :: "nat \<Rightarrow> cint"

definition on_world :: "('w, 'a) cmd \<Rightarrow> (('d, 'w) sampler, 'a) cmd" where
  "on_world c = (\<lambda>s. case c (world s) of Inl e \<Rightarrow> Inl e | Inr (x, w) \<Rightarrow> Inr (x, s\<lparr>world := w\<rparr>))"

text \<open>
  \<open>init_sampler\<close>: \<open>calloc\<close> returns \<open>kbest\<close> zeros or \<open>NULL\<close>, which is not checked. A negative
  \<open>kbest\<close> becomes a huge \<open>size_t\<close>; its product with the element size overflows, and \<open>calloc\<close>
  returns \<open>NULL\<close>.
\<close>

definition init_sampler :: "'w memory_source \<Rightarrow> 'd fp \<Rightarrow> (('d, 'w) sampler, unit) cmd" where
  "init_sampler M F = modifyE (\<lambda>s. s\<lparr>
     samples := (if 0 \<le> sint (kbest s) \<and> grants M (world s) (scast (kbest s) * 8)
                 then Some (replicate (nat (sint (kbest s))) (fp_of F 0)) else None),
     samplecount := 0\<rparr>)"

text \<open>The array \<open>values\<close>, with its bounds; a \<open>NULL\<close> array faults.\<close>

definition get_values :: "(('d, 'w) sampler, 'd list) cmd" where
  "get_values = (\<lambda>s. case samples s of None \<Rightarrow> Inl (Fault 0) | Some vs \<Rightarrow> Inr (vs, s))"

definition value_at :: "int \<Rightarrow> (('d, 'w) sampler, 'd) cmd" where
  "value_at i = bindE get_values (\<lambda>vs.
     if 0 \<le> i \<and> i < int (length vs) then retE (vs ! nat i) else throwE OutOfBounds)"

definition put_value :: "int \<Rightarrow> 'd \<Rightarrow> (('d, 'w) sampler, unit) cmd" where
  "put_value i v = bindE get_values (\<lambda>vs.
     if 0 \<le> i \<and> i < int (length vs) then modifyE (\<lambda>s. s\<lparr>samples := Some (vs[nat i := v])\<rparr>)
     else throwE OutOfBounds)"

text \<open>The insertion loop of \<open>add_sample\<close>: swap downwards while the left neighbour is larger.\<close>

primrec bubble :: "nat \<Rightarrow> (('d :: linorder, 'w) sampler, unit) cmd" where
  "bubble 0 = retE ()"
| "bubble (Suc p) =
     bindE (value_at (int p)) (\<lambda>l.
     bindE (value_at (int (Suc p))) (\<lambda>r.
       if r < l then
         bindE (put_value (int p) r) (\<lambda>_.
         bindE (put_value (int (Suc p)) l) (\<lambda>_.
           bubble p))
       else retE ()))"

definition add_sample :: "'d \<Rightarrow> (('d :: linorder, 'w) sampler, unit) cmd" where
  "add_sample val =
     bindE (getsE samplecount) (\<lambda>n.
     bindE (getsE kbest) (\<lambda>k.
     bindE (if n <s k then bindE (put_value (sint n) val) (\<lambda>_. retE (sint n))
            else bindE (value_at (sint (k - 1))) (\<lambda>worst.
              if val < worst then bindE (put_value (sint (k - 1)) val) (\<lambda>_. retE (sint (k - 1)))
              else retE 0)) (\<lambda>pos.
     bindE (modifyE (\<lambda>s. s\<lparr>samplecount := samplecount s + 1\<rparr>)) (\<lambda>_.
       bubble (nat pos)))))"

definition has_converged :: "'d fp \<Rightarrow> (('d :: linorder, 'w) sampler, bool) cmd" where
  "has_converged F =
     bindE (getsE samplecount) (\<lambda>n.
     bindE (getsE kbest) (\<lambda>k.
       if n <s k then retE False
       else
         bindE (getsE epsilon) (\<lambda>eps.
         bindE (value_at 0) (\<lambda>best.
         bindE (value_at (sint (k - 1))) (\<lambda>worst.
           retE (worst \<le> fp_mul F (fp_add F (fp_of F 1) eps) best))))))"

subsection \<open>Clearing the cache\<close>

text \<open>
  The loop reads every \<open>incr\<close>-th entry of the buffer. Both \<open>cache_block / sizeof(int)\<close> and
  \<open>cache_bytes / sizeof(int)\<close> are divisions of \<open>size_t\<close>; the first is cut back to an \<open>int\<close>.
  With \<open>incr = 0\<close> the loop does not end: \<open>clear_loop\<close> is then \<open>None\<close>. The buffer is allocated on the
  first call; \<open>malloc\<close> fails for a negative size, which is more than \<open>PTRDIFF_MAX\<close> as a \<open>size_t\<close>.
\<close>

partial_function (option) clear_loop :: "cint list \<Rightarrow> int \<Rightarrow> int \<Rightarrow> cint \<Rightarrow> (err + cint) option" where
  "clear_loop buf incr i x =
     (if i < int (length buf)
      then if i < 0 then Some (Inl OutOfBounds)
           else clear_loop buf incr (i + incr) (x + buf ! nat i)
      else Some (Inr x))"

definition size_div4 :: "cint \<Rightarrow> uint64" where
  "size_div4 n = scast n div 4"

definition fcyc_clear :: "'w memory_source \<Rightarrow> (('d, 'w) sampler, unit) cmd" where
  "fcyc_clear M =
     bindE (getsE sink) (\<lambda>x.
     bindE (getsE (\<lambda>s. ucast (size_div4 (cache_block s)) :: cint)) (\<lambda>incr.
     bindE (\<lambda>s. case cache_buf s of
              Some buf \<Rightarrow> Inr (buf, s)
            | None \<Rightarrow>
                if sint (cache_bytes s) < 0 \<or> \<not> grants M (world s) (scast (cache_bytes s)) then Inl (Exit 1)
                else let buf = map (fresh_words M) [0..<unat (size_div4 (cache_bytes s))]
                     in Inr (buf, s\<lparr>cache_buf := Some buf\<rparr>)) (\<lambda>buf.
       (\<lambda>s. case clear_loop buf (sint incr) 0 x of
              None \<Rightarrow> Inl Diverge
            | Some (Inl e) \<Rightarrow> Inl e
            | Some (Inr y) \<Rightarrow> Inr ((), s\<lparr>sink := y\<rparr>)))))"

subsection \<open>fcyc\<close>

text \<open>One measurement of the function \<open>f\<close>, with the counters that \<open>compensate\<close> selects.\<close>

definition measure_once ::
  "'w memory_source \<Rightarrow> ('w, 'd) timer \<Rightarrow> ('w, unit) cmd \<Rightarrow> (('d :: linorder, 'w) sampler, unit) cmd" where
  "measure_once M T f =
     bindE (getsE clear_cache) (\<lambda>c.
     bindE (whenE (c \<noteq> 0) (fcyc_clear M)) (\<lambda>_.
     bindE (on_world (start_op T)) (\<lambda>_.
     bindE (on_world f) (\<lambda>_.
     bindE (on_world (get_op T)) (\<lambda>cyc.
       add_sample cyc)))))"

text \<open>The \<open>do\<close> loop, with fuel; \<open>fcyc_returns\<close> shows that the fuel \<open>fcyc\<close> gives it suffices.\<close>

primrec fcyc_loop ::
  "nat \<Rightarrow> 'd fp \<Rightarrow> (('d :: linorder, 'w) sampler, unit) cmd \<Rightarrow> (('d, 'w) sampler, unit) cmd" where
  "fcyc_loop 0 F body = throwE Diverge"
| "fcyc_loop (Suc fuel) F body =
     bindE body (\<lambda>_.
     bindE (has_converged F) (\<lambda>done.
     bindE (getsE (\<lambda>s. samplecount s <s maxsamples s)) (\<lambda>more.
       if \<not> done \<and> more then fcyc_loop fuel F body else retE ())))"

definition fcyc ::
  "'w memory_source \<Rightarrow> 'd fp \<Rightarrow> ('w, 'd) timer \<Rightarrow> ('w, 'd) timer \<Rightarrow> ('w, unit) cmd \<Rightarrow>
     (('d :: linorder, 'w) sampler, 'd) cmd" where
  "fcyc M F counter comp_counter f =
     bindE (init_sampler M F) (\<lambda>_.
     bindE (getsE compensate) (\<lambda>c.
     bindE (getsE (\<lambda>s. Suc (nat (sint (maxsamples s))))) (\<lambda>fuel.
     bindE (fcyc_loop fuel F (measure_once M (if c \<noteq> 0 then comp_counter else counter) f)) (\<lambda>_.
     bindE (value_at 0) (\<lambda>result.
     bindE (modifyE (\<lambda>s. s\<lparr>samples := None\<rparr>)) (\<lambda>_.
       retE result))))))"

subsection \<open>The parameters\<close>

definition set_fcyc_clear_cache :: "cint \<Rightarrow> (('d, 'w) sampler, unit) cmd" where
  "set_fcyc_clear_cache c = modifyE (\<lambda>s. s\<lparr>clear_cache := c\<rparr>)"

definition set_fcyc_cache_size :: "cint \<Rightarrow> (('d, 'w) sampler, unit) cmd" where
  "set_fcyc_cache_size bytes = modifyE (\<lambda>s.
     if bytes \<noteq> cache_bytes s then s\<lparr>cache_bytes := bytes, cache_buf := None\<rparr> else s)"

definition set_fcyc_cache_block :: "cint \<Rightarrow> (('d, 'w) sampler, unit) cmd" where
  "set_fcyc_cache_block bytes = modifyE (\<lambda>s. s\<lparr>cache_block := bytes\<rparr>)"

definition set_fcyc_compensate :: "cint \<Rightarrow> (('d, 'w) sampler, unit) cmd" where
  "set_fcyc_compensate c = modifyE (\<lambda>s. s\<lparr>compensate := c\<rparr>)"

definition set_fcyc_k :: "cint \<Rightarrow> (('d, 'w) sampler, unit) cmd" where
  "set_fcyc_k k = modifyE (\<lambda>s. s\<lparr>kbest := k\<rparr>)"

definition set_fcyc_maxsamples :: "cint \<Rightarrow> (('d, 'w) sampler, unit) cmd" where
  "set_fcyc_maxsamples n = modifyE (\<lambda>s. s\<lparr>maxsamples := n\<rparr>)"

definition set_fcyc_epsilon :: "'d \<Rightarrow> (('d, 'w) sampler, unit) cmd" where
  "set_fcyc_epsilon e = modifyE (\<lambda>s. s\<lparr>epsilon := e\<rparr>)"

subsection \<open>The state the program starts in\<close>

definition fcyc_static :: "'d \<Rightarrow> 'w \<Rightarrow> ('d, 'w) sampler" where
  "fcyc_static eps w = \<lparr>kbest = 3, maxsamples = 20, epsilon = eps, compensate = 0, clear_cache = 0,
     cache_bytes = 524288, cache_block = 32, cache_buf = None, samples = None, samplecount = 0,
     sink = 0, world = w\<rparr>"

subsection \<open>Insertion keeps the smallest samples\<close>

lemma sort_snoc: "sort (xs @ [v]) = insort v (sort xs)"
  by (rule properties_for_sort) (simp_all add: sorted_insort)

lemma insort_last: "\<forall>y\<in>set ys. y \<le> r \<Longrightarrow> sorted ys \<Longrightarrow> insort r ys = ys @ [r]"
proof -
  assume a: "\<forall>y\<in>set ys. y \<le> r" "sorted ys"
  have "insort r ys = sort (ys @ [r])" using a by (simp add: sort_snoc sorted_sort_id)
  also have "\<dots> = ys @ [r]" using a by (simp add: sorted_sort_id sorted_append)
  finally show ?thesis .
qed

lemma insort_below: "r < l \<Longrightarrow> insort r (ys @ [l]) = insort r ys @ [l]"
  by (induction ys) auto

lemma value_at_run:
  "samples s = Some vs \<Longrightarrow> i < length vs \<Longrightarrow> value_at (int i) s = Inr (vs ! i, s)"
  by (simp add: value_at_def get_values_def bindE_def)

lemma put_value_run:
  "samples s = Some vs \<Longrightarrow> i < length vs \<Longrightarrow> put_value (int i) v s = Inr ((), s\<lparr>samples := Some (vs[i := v])\<rparr>)"
  by (simp add: put_value_def get_values_def bindE_def)

lemma bind_samples:
  assumes "samples s = Some vs" "i < length vs"
  shows "bindE (value_at (int i)) f s = f (vs ! i) s"
    and "bindE (put_value (int i) v) g s = g () (s\<lparr>samples := Some (vs[i := v])\<rparr>)"
  using value_at_run [OF assms] put_value_run [OF assms] by (simp_all add: bindE_def)

lemma bubble_run:
  assumes "samples s = Some vs" "p < length vs" "sorted (take p vs)"
  shows "bubble p s = Inr ((), s\<lparr>samples := Some (insort (vs ! p) (take p vs) @ drop (Suc p) vs)\<rparr>)"
  using assms
proof (induction p arbitrary: s vs)
  case 0
  then show ?case by (cases vs) simp_all
next
  case (Suc p)
  let ?l = "vs ! p" and ?r = "vs ! Suc p"
  have p: "p < length vs" using Suc.prems by simp
  have tk: "take (Suc p) vs = take p vs @ [?l]" by (rule take_Suc_conv_app_nth [OF p])
  have so: "sorted (take p vs)" "\<forall>y\<in>set (take p vs). y \<le> ?l"
    using Suc.prems(3) unfolding tk by (auto simp: sorted_append)
  note run = bind_samples [OF Suc.prems(1) p] bind_samples [OF Suc.prems(1,2)]
  show ?case
  proof (cases "?r < ?l")
    case True
    let ?vs = "vs[p := ?r, Suc p := ?l]"
    let ?s = "s\<lparr>samples := Some ?vs\<rparr>"
    have "bubble (Suc p) s = bubble p ?s"
      using True Suc.prems(2)
      by (simp add: run bind_samples(2) [of _ "vs[p := ?r]"] del: of_nat_Suc)
    also have "\<dots> = Inr ((), ?s\<lparr>samples := Some (insort (?vs ! p) (take p ?vs) @ drop (Suc p) ?vs)\<rparr>)"
      by (rule Suc.IH) (use Suc.prems so in simp_all)
    also have "insort (?vs ! p) (take p ?vs) @ drop (Suc p) ?vs = insort ?r (take (Suc p) vs) @ drop (Suc (Suc p)) vs"
      using p Suc.prems(2) unfolding tk insort_below [OF True]
      by (simp add: Cons_nth_drop_Suc [symmetric] drop_update_swap)
    finally show ?thesis by simp
  next
    case False
    have "insort ?r (take (Suc p) vs) @ drop (Suc (Suc p)) vs = vs"
      using False so Suc.prems by (subst insort_last) (auto simp: tk sorted_append Cons_nth_drop_Suc)
    then show ?thesis using False Suc.prems(1)
      by (simp add: run del: of_nat_Suc)
  qed
qed

lemma take_insort_smaller:
  "sorted ys \<Longrightarrow> 0 < k \<Longrightarrow> k \<le> length ys \<Longrightarrow> v < ys ! (k - 1) \<Longrightarrow>
     take k (insort v ys) = insort v (take (k - 1) ys)"
proof (induction ys arbitrary: k)
  case (Cons y ys)
  obtain j where k: "k = Suc j" using Cons.prems(2) by (cases k) auto
  show ?case
  proof (cases "v \<le> y")
    case True
    then show ?thesis unfolding k by (cases j) simp_all
  next
    case False
    then obtain i where "j = Suc i" using Cons.prems k by (cases j) auto
    then show ?thesis using Cons.IH [of j] Cons.prems False unfolding k by simp
  qed
qed simp

lemma take_insort_larger:
  "sorted ys \<Longrightarrow> 0 < k \<Longrightarrow> k \<le> length ys \<Longrightarrow> ys ! (k - 1) \<le> v \<Longrightarrow> take k (insort v ys) = take k ys"
proof (induction ys arbitrary: k)
  case (Cons y ys)
  obtain j where k: "k = Suc j" using Cons.prems(2) by (cases k) auto
  show ?case
  proof (cases j)
    case 0
    then show ?thesis using Cons.prems k by auto
  next
    case (Suc i)
    then have ih: "take j (insort v ys) = take j ys" using Cons.IH [of j] Cons.prems k by simp
    show ?thesis
    proof (cases "v \<le> y")
      case True
      have "y \<le> ys ! i" using Cons.prems k Suc by (simp add: sorted_wrt_nth_less)
      then have "v = y" using True Cons.prems(4) k Suc by simp
      moreover have "insort v ys = v # ys" using Cons.prems(1) True by (cases ys) auto
      ultimately show ?thesis using ih True unfolding k by simp
    qed (use ih in \<open>simp add: k\<close>)
  qed
qed simp

text \<open>
  The invariant of the sampler: after the samples \<open>xs\<close> the array holds the \<open>k\<close> smallest of
  them in order, or all of them while there are fewer than \<open>k\<close>.
\<close>

definition smallest :: "nat \<Rightarrow> 'd :: linorder list \<Rightarrow> ('d, 'w) sampler \<Rightarrow> bool" where
  "smallest k xs s \<longleftrightarrow> 0 < k \<and> k < 2 ^ 31 \<and> kbest s = of_nat k \<and>
     length xs < 2 ^ 31 \<and> samplecount s = of_nat (length xs) \<and>
     (\<exists>vs. samples s = Some vs \<and> length vs = k \<and> take (length xs) vs = take k (sort xs))"

lemma sint_small_nat: "n < 2 ^ 31 \<Longrightarrow> sint (of_nat n :: cint) = int n"
  by (simp add: signed_of_nat signed_take_bit_int_eq_self)

lemma sless_small_nat:
  "m < 2 ^ 31 \<Longrightarrow> n < 2 ^ 31 \<Longrightarrow> (of_nat m :: cint) <s of_nat n \<longleftrightarrow> m < n"
  by (simp add: word_sless_alt sint_small_nat)

lemma sint_pred_nat: "0 < n \<Longrightarrow> n < 2 ^ 31 \<Longrightarrow> sint (of_nat n - 1 :: cint) = int (n - 1)"
  using sint_small_nat [of "n - 1"] by (simp add: of_nat_diff)

lemma take_update_last: "n < length vs \<Longrightarrow> take (Suc n) (vs[n := v]) = take n vs @ [v]"
  by (simp add: take_Suc_conv_app_nth)

lemma add_sample_run:
  assumes inv: "smallest k xs s" and n: "length xs + 1 < 2 ^ 31"
  shows "\<exists>t. add_sample v s = Inr ((), t) \<and> smallest k (xs @ [v]) t \<and>
    t = s\<lparr>samples := samples t, samplecount := samplecount s + 1\<rparr>"
proof -
  obtain vs where k: "0 < k" "k < 2 ^ 31" "kbest s = of_nat k" and c: "samplecount s = of_nat (length xs)"
    and vs: "samples s = Some vs" "length vs = k" "take (length xs) vs = take k (sort xs)"
    using inv unfolding smallest_def by blast
  have l: "length xs < 2 ^ 31" using n by simp
  have less: "samplecount s <s kbest s \<longleftrightarrow> length xs < k" using k c l by (simp add: sless_small_nat)
  obtain j where j: "k = Suc j" using k(1) by (cases k) auto
  have j': "k - 1 = j" using j by simp
  have pred: "sint (kbest s - 1) = int j" using k sint_pred_nat [of k] unfolding j' by simp
  have cnt: "sint (samplecount s) = int (length xs)" using c l sint_small_nat by simp
  define s1 where "s1 = s\<lparr>samplecount := samplecount s + 1\<rparr>"
  have swap: "u\<lparr>samplecount := m, samples := x\<rparr> = u\<lparr>samples := x, samplecount := m\<rparr>" for u :: "('a, 'b) sampler" and m x
    by simp
  have sc: "samplecount s + 1 = of_nat (length (xs @ [v]))" using c by simp
  have final: ?thesis
    if r: "add_sample v s = Inr ((), s1\<lparr>samples := Some ws\<rparr>)" and w: "length ws = k"
      "take (length (xs @ [v])) ws = take k (insort v (sort xs))" for ws
  proof (intro exI conjI)
    show "add_sample v s = Inr ((), s1\<lparr>samples := Some ws\<rparr>)" by (rule r)
    show "smallest k (xs @ [v]) (s1\<lparr>samples := Some ws\<rparr>)"
      unfolding smallest_def s1_def sort_snoc using k sc w n by simp
  qed (simp add: s1_def)
  have bub: "bubble p (s1\<lparr>samples := Some (vs[p := v])\<rparr>) =
      Inr ((), s1\<lparr>samples := Some (insort v (take p vs) @ drop (Suc p) vs)\<rparr>)"
    if "p < k" "sorted (take p vs)" for p
    using that vs by (subst bubble_run [where vs = "vs[p := v]"]) (simp_all add: s1_def)
  show ?thesis
  proof (cases "length xs < k")
    case True
    then have tk: "take (length xs) vs = sort xs" using vs(3) by simp
    show ?thesis
    proof (rule final)
      show "add_sample v s = Inr ((), s1\<lparr>samples := Some (insort v (sort xs) @ drop (Suc (length xs)) vs)\<rparr>)"
        using bub [of "length xs"] True vs
        by (simp add: add_sample_def less cnt bindE_assoc bind_samples tk s1_def swap)
    qed (use True vs(2) in simp_all)
  next
    case False
    then have all: "vs = take k (sort xs)" using vs(2,3) by simp
    have worst: "vs ! j = sort xs ! j" using j unfolding all by simp
    have kk: "j < length vs" using j vs(2) by simp
    show ?thesis
    proof (cases "v < vs ! j")
      case True
      have tk: "take j vs = take j (sort xs)" unfolding all using j by simp
      have i: "take k (insort v (sort xs)) = insort v (take j (sort xs))"
        using True worst False j by (intro take_insort_smaller [where k = k, unfolded j']) auto
      show ?thesis
      proof (rule final)
        show "add_sample v s = Inr ((), s1\<lparr>samples := Some (insort v (take j (sort xs)))\<rparr>)"
          using bub [of j] False True vs(1,2) j
          by (simp add: add_sample_def less pred bindE_assoc bind_samples [OF vs(1) kk] tk s1_def swap sorted_wrt_take)
      qed (use i vs(2) False j in auto)
    next
      case nless: False
      have i: "take k (insort v (sort xs)) = take k (sort xs)"
        using nless worst False j by (intro take_insort_larger) auto
      show ?thesis
      proof (rule final)
        show "add_sample v s = Inr ((), s1\<lparr>samples := Some vs\<rparr>)"
          using nless False vs(1) 
          by (simp add: add_sample_def less pred bindE_assoc bind_samples [OF vs(1) kk] s1_def swap)
      qed (use i vs(2) False all in simp_all)
    qed
  qed
qed

subsection \<open>The loop of fcyc\<close>

text \<open>The values the counter returns in successive measurements of \<open>f\<close>, from world \<open>w\<close> to \<open>w'\<close>.\<close>

inductive readings :: "('w, 'd) timer \<Rightarrow> ('w, unit) cmd \<Rightarrow> 'w \<Rightarrow> 'd list \<Rightarrow> 'w \<Rightarrow> bool"
  for T :: "('w, 'd) timer" and f :: "('w, unit) cmd" and w :: 'w where
  readings_none: "readings T f w [] w"
| readings_one: "readings T f w xs w1 \<Longrightarrow> start_op T w1 = Inr ((), w2) \<Longrightarrow> f w2 = Inr ((), w3) \<Longrightarrow>
     get_op T w3 = Inr (x, w4) \<Longrightarrow> readings T f w (xs @ [x]) w4"

definition agree :: "'d fp \<Rightarrow> 'd \<Rightarrow> nat \<Rightarrow> 'd :: linorder list \<Rightarrow> bool" where
  "agree F eps k xs \<longleftrightarrow> k \<le> length xs \<and>
     sort xs ! (k - 1) \<le> fp_mul F (fp_add F (fp_of F 1) eps) (sort xs ! 0)"

lemma smallest_nth:
  assumes "smallest k xs s" "i < length xs" "i < k"
  shows "value_at (int i) s = Inr (sort xs ! i, s)"
proof -
  obtain vs where "samples s = Some vs" "length vs = k" "take (length xs) vs = take k (sort xs)"
    using assms(1) unfolding smallest_def by blast
  moreover from this have "vs ! i = sort xs ! i" using assms(2,3) by (metis nth_take)
  ultimately show ?thesis using value_at_run [of s vs i] assms(3) by simp
qed

lemma has_converged_run:
  assumes "smallest k xs s"
  shows "has_converged F s = Inr (agree F (epsilon s) k xs, s)"
proof -
  have k: "0 < k" "k < 2 ^ 31" "kbest s = of_nat k" "length xs < 2 ^ 31" "samplecount s = of_nat (length xs)"
    using assms unfolding smallest_def by blast+
  have pred: "sint (kbest s - 1) = int (k - 1)" using k sint_pred_nat by simp
  have less: "samplecount s <s kbest s \<longleftrightarrow> length xs < k" using k by (simp add: sless_small_nat)
  show ?thesis
  proof (cases "length xs < k")
    case False
    have "0 < length xs" "k - 1 < length xs" using False k(1) by auto
    then have v: "value_at 0 s = Inr (sort xs ! 0, s)" "value_at (int (k - 1)) s = Inr (sort xs ! (k - 1), s)"
      using smallest_nth [OF assms, of 0] smallest_nth [OF assms, of "k - 1"] False k(1) by simp_all
    show ?thesis using False less
      by (simp add: has_converged_def agree_def pred bindE_def [of "value_at _"] v del: of_nat_diff One_nat_def)
  qed (simp add: has_converged_def agree_def less)
qed

text \<open>
  What a measurement changes: the cache buffer and \<open>sink\<close> when the cache is cleared, the world,
  and the two fields that \<open>add_sample\<close> updates.
\<close>

definition settings :: "('d, 'w) sampler \<Rightarrow> cint \<times> cint \<times> 'd \<times> cint \<times> cint \<times> cint \<times> cint" where
  "settings s = (kbest s, maxsamples s, epsilon s, compensate s, clear_cache s, cache_bytes s, cache_block s)"

lemma fcyc_clear_frame:
  "fcyc_clear M s = Inr ((), t) \<Longrightarrow>
     \<exists>b x. t = s\<lparr>cache_buf := b, sink := x\<rparr>"
proof -
  assume a: "fcyc_clear M s = Inr ((), t)"
  show ?thesis
  proof (cases "cache_buf s")
    case None
    then obtain b x where "t = s\<lparr>cache_buf := Some b, sink := x\<rparr>"
      using a by (auto simp: fcyc_clear_def bindE_def getsE_def Let_def split: option.splits sum.splits if_splits)
    then show ?thesis by blast
  next
    case (Some b)
    then obtain x where "t = s\<lparr>sink := x\<rparr>"
      using a by (auto simp: fcyc_clear_def bindE_def getsE_def split: option.splits sum.splits)
    then have "t = s\<lparr>cache_buf := cache_buf s, sink := x\<rparr>" by simp
    then show ?thesis by blast
  qed
qed

lemma smallest_frame: "smallest k xs (s\<lparr>cache_buf := b, sink := x\<rparr>) = smallest k xs s"
  "smallest k xs (s\<lparr>world := w\<rparr>) = smallest k xs s"
  by (simp_all add: smallest_def)

lemma on_world_Inr: "on_world c s = Inr (x, t) \<longleftrightarrow> (\<exists>w. c (world s) = Inr (x, w) \<and> t = s\<lparr>world := w\<rparr>)"
  by (auto simp: on_world_def split: sum.splits prod.splits)

lemma measure_once_step:
  assumes m: "measure_once M T f s = Inr ((), t)" and inv: "smallest k xs s"
    and n: "length xs + 1 < 2 ^ 31" and r: "readings T f w0 xs (world s)"
  shows "\<exists>x. smallest k (xs @ [x]) t \<and> readings T f w0 (xs @ [x]) (world t) \<and> settings t = settings s"
proof -
  obtain s1 w1 w2 w3 x where c: "whenE (clear_cache s \<noteq> 0) (fcyc_clear M) s = Inr ((), s1)"
    and w': "start_op T (world s1) = Inr ((), w1)" "f w1 = Inr ((), w2)" "get_op T w2 = Inr (x, w3)"
    and a: "add_sample x (s1\<lparr>world := w3\<rparr>) = Inr ((), t)"
    using m unfolding measure_once_def by (auto elim!: bindE_InrE simp: on_world_Inr)
  obtain b y where s1: "s1 = s\<lparr>cache_buf := b, sink := y\<rparr>"
  proof (cases "clear_cache s = 0")
    case True
    then have "s1 = s\<lparr>cache_buf := cache_buf s, sink := sink s\<rparr>" using c by simp
    then show ?thesis by (rule that)
  qed (use c fcyc_clear_frame that in fastforce)
  have w: "start_op T (world s) = Inr ((), w1)" using w'(1) by (simp add: s1)
  have i: "smallest k xs (s1\<lparr>world := w3\<rparr>)" using inv by (simp add: s1 smallest_frame)
  have t: "smallest k (xs @ [x]) t" "t = s1\<lparr>world := w3, samples := samples t, samplecount := samplecount s1 + 1\<rparr>"
    using add_sample_run [OF i n, of x] a by auto
  have "readings T f w0 (xs @ [x]) w3" by (rule readings_one [OF r w w'(2,3)])
  moreover have "world t = w3" "settings t = settings s" by (subst t(2), simp add: s1 settings_def)+
  ultimately show ?thesis using t(1) by auto
qed

text \<open>
  \<open>stops F s k ys\<close>: the loop stops after the samples \<open>ys\<close> as the code says, not before the
  samples agree or the limit is reached, and not later.
\<close>

definition stops :: "'d fp \<Rightarrow> ('d :: linorder, 'w) sampler \<Rightarrow> nat \<Rightarrow> 'd list \<Rightarrow> bool" where
  "stops F s k ys \<longleftrightarrow> agree F (epsilon s) k ys \<or> sint (maxsamples s) \<le> int (length ys)"

lemma stops_settings: "settings t = settings s \<Longrightarrow> stops F t k ys = stops F s k ys"
  by (simp add: stops_def settings_def)

lemma fcyc_loop_test:
  assumes "smallest k xs s"
  shows "bindE (has_converged F) (\<lambda>done. bindE (getsE (\<lambda>s. samplecount s <s maxsamples s)) (\<lambda>more.
           if \<not> done \<and> more then c else retE ())) s = (if stops F s k xs then Inr ((), s) else c s)"
proof -
  have "samplecount s <s maxsamples s \<longleftrightarrow> int (length xs) < sint (maxsamples s)"
    using assms by (simp add: smallest_def word_sless_alt sint_small_nat)
  then show ?thesis by (auto simp: bindE_cases(1) [of "has_converged F" s, OF has_converged_run [OF assms]] stops_def)
qed

definition in_limit :: "('d, 'w) sampler \<Rightarrow> 'd list \<Rightarrow> bool" where
  "in_limit s xs \<longleftrightarrow> xs = [] \<or> int (length xs) < sint (maxsamples s)"

lemma in_limit_room: "in_limit s xs \<Longrightarrow> length xs + 1 < 2 ^ 31"
  using sint_less [of "maxsamples s"] by (auto simp: in_limit_def)

lemma in_limit_next: "\<not> stops F s k xs \<Longrightarrow> settings t = settings s \<Longrightarrow> in_limit t xs"
  by (simp add: in_limit_def stops_def settings_def)

lemma fcyc_loop_result:
  assumes "fcyc_loop fuel F (measure_once M T f) s = Inr ((), t)" "smallest k xs s"
    "readings T f w0 xs (world s)" "in_limit s xs"
  shows "\<exists>ys. smallest k ys t \<and> readings T f w0 ys (world t) \<and> settings t = settings s \<and>
    length xs < length ys \<and> stops F s k ys \<and>
    (\<forall>n. length xs < n \<and> n < length ys \<longrightarrow> \<not> stops F s k (take n ys)) \<and> take (length xs) ys = xs"
  using assms
proof (induction fuel arbitrary: s xs)
  case (Suc fuel)
  obtain s1 where m: "measure_once M T f s = Inr ((), s1)"
    and rest: "bindE (has_converged F) (\<lambda>done. bindE (getsE (\<lambda>s. samplecount s <s maxsamples s)) (\<lambda>more.
           if \<not> done \<and> more then fcyc_loop fuel F (measure_once M T f) else retE ())) s1 = Inr ((), t)"
    using Suc.prems(1) by (auto elim: bindE_InrE)
  obtain x where x: "smallest k (xs @ [x]) s1" "readings T f w0 (xs @ [x]) (world s1)" "settings s1 = settings s"
    using measure_once_step [OF m Suc.prems(2) in_limit_room [OF Suc.prems(4)] Suc.prems(3)] by blast
  show ?case
  proof (cases "stops F s1 k (xs @ [x])")
    case True
    then have "t = s1" using rest unfolding fcyc_loop_test [OF x(1)] by simp
    then show ?thesis using x True stops_settings [OF x(3)] by (intro exI [of _ "xs @ [x]"]) auto
  next
    case False
    then have "fcyc_loop fuel F (measure_once M T f) s1 = Inr ((), t)"
      using rest unfolding fcyc_loop_test [OF x(1)] by simp
    from Suc.IH [OF this x(1,2) in_limit_next [OF False refl]]
    obtain ys where ys: "smallest k ys t" "readings T f w0 ys (world t)" "settings t = settings s1"
      "length (xs @ [x]) < length ys" "stops F s1 k ys"
      "\<forall>n. length (xs @ [x]) < n \<and> n < length ys \<longrightarrow> \<not> stops F s1 k (take n ys)"
      "take (length (xs @ [x])) ys = xs @ [x]" by blast
    have "\<not> stops F s k (take n ys)" if "length xs < n" "n < length ys" for n
    proof (cases "n = length (xs @ [x])")
      case True
      then show ?thesis using False ys(7) stops_settings [OF x(3)] by metis
    next
      case False
      then show ?thesis using ys(6) that stops_settings [OF x(3)] by auto
    qed
    moreover have "take (length xs) ys = xs" using ys(7) by (metis append_eq_conv_conj take_add take_take length_append le_add1 min.absorb1)
    ultimately show ?thesis using ys x(3) stops_settings [OF x(3)] by (intro exI [of _ ys]) auto
  qed
qed simp

lemma init_sampler_run:
  assumes "0 < sint (kbest s)" "grants M (world s) (scast (kbest s) * 8)"
  shows "\<exists>t. init_sampler M F s = Inr ((), t) \<and> smallest (nat (sint (kbest s))) [] t \<and>
    settings t = settings s \<and> world t = world s"
proof -
  have "nat (sint (kbest s)) < 2 ^ 31" using sint_less [of "kbest s"] by simp
  moreover have "kbest s = of_nat (nat (sint (kbest s)))"
    using assms by (simp add: of_nat_nat)
  ultimately show ?thesis using assms
    by (auto simp: init_sampler_def smallest_def settings_def)
qed

text \<open>
  Clearing the cache returns when a cache block has at least the size of an \<open>int\<close>; with a
  smaller one the step of the loop is 0 and it runs for ever.
\<close>

lemma clear_loop_returns:
  assumes "0 < incr" "0 \<le> i"
  shows "\<exists>y. clear_loop buf incr i x = Some (Inr y)"
  using assms(2)
proof (induction "nat (int (length buf) - i)" arbitrary: i x rule: less_induct)
  case less
  show ?case
  proof (cases "i < int (length buf)")
    case True
    then have "\<exists>y. clear_loop buf incr (i + incr) (x + buf ! nat i) = Some (Inr y)"
      using less.prems assms(1) by (intro less.hyps) auto
    then show ?thesis using True less.prems by (subst clear_loop.simps) simp
  qed (subst clear_loop.simps, simp)
qed

lemma clear_loop_stuck:
  assumes "clear_loop buf incr i x = Some r"
  shows "incr = 0 \<longrightarrow> 0 \<le> i \<longrightarrow> int (length buf) \<le> i"
  by (rule clear_loop.raw_induct [of "\<lambda>buf incr i x r. incr = 0 \<longrightarrow> 0 \<le> i \<longrightarrow> int (length buf) \<le> i" "(((buf, incr), i), x)" r,
        unfolded prod.case, OF _ assms]) (fastforce split: if_splits)

lemma clear_loop_none: "0 < n \<Longrightarrow> clear_loop (map junk [0..<n]) 0 0 x = None"
  using clear_loop_stuck [of "map junk [0..<n]" 0 0 x] by (cases "clear_loop (map junk [0..<n]) 0 0 x") auto

lemma size_div4_int:
  assumes "0 \<le> sint n"
  shows "uint (size_div4 n) = sint n div 4" "sint (ucast (size_div4 n) :: cint) = sint n div 4"
proof -
  have n: "sint n < 2 ^ 31" using sint_less [of n] by simp
  have "uint (scast n :: uint64) = take_bit 64 (sint n)" unfolding scast_eq unsigned_of_int by simp
  also have "\<dots> = sint n" using assms n by (simp add: take_bit_int_eq_self)
  finally have "uint (scast n :: uint64) = sint n" .
  then show u: "uint (size_div4 n) = sint n div 4" by (simp add: size_div4_def uint_div)
  have "sint (ucast (size_div4 n) :: cint) = signed_take_bit 31 (sint n div 4)"
    unfolding ucast_eq u signed_of_int by simp
  also have "\<dots> = sint n div 4"
    using assms n by (simp add: signed_take_bit_int_eq_self)
  finally show "sint (ucast (size_div4 n) :: cint) = sint n div 4" .
qed

lemma fcyc_clear_returns:
  assumes "4 \<le> sint (cache_block s)" "0 \<le> sint (cache_bytes s)" "grants M (world s) (scast (cache_bytes s))"
  shows "\<exists>t. fcyc_clear M s = Inr ((), t)"
proof -
  have "0 < sint (ucast (size_div4 (cache_block s)) :: cint)"
    using assms(1) size_div4_int(2) [of "cache_block s"] by simp
  then have r: "\<exists>y. clear_loop buf (sint (ucast (size_div4 (cache_block s)) :: cint)) 0 x = Some (Inr y)" for buf x
    by (rule clear_loop_returns) simp
  show ?thesis
  proof (cases "cache_buf s")
    case None
    obtain y where "clear_loop (map (fresh_words M) [0..<unat (size_div4 (cache_bytes s))])
        (sint (ucast (size_div4 (cache_block s)) :: cint)) 0 (sink s) = Some (Inr y)" using r by blast
    then show ?thesis using None assms(2,3) by (simp add: fcyc_clear_def bindE_def getsE_def Let_def)
  next
    case (Some buf)
    obtain y where "clear_loop buf (sint (ucast (size_div4 (cache_block s)) :: cint)) 0 (sink s) = Some (Inr y)"
      using r by blast
    then show ?thesis using Some by (simp add: fcyc_clear_def bindE_def getsE_def)
  qed
qed

definition returns :: "('s, 'a) cmd \<Rightarrow> bool" where
  "returns c \<longleftrightarrow> (\<forall>s. \<exists>x t. c s = Inr (x, t))"

definition clearable :: "'w memory_source \<Rightarrow> ('d, 'w) sampler \<Rightarrow> bool" where
  "clearable M s \<longleftrightarrow> clear_cache s = 0 \<or>
     (4 \<le> sint (cache_block s) \<and> 0 \<le> sint (cache_bytes s) \<and> (\<forall>w. grants M w (scast (cache_bytes s))))"

lemma measure_once_returns:
  assumes T: "returns (start_op T)" "returns f" "returns (get_op T)"
    and inv: "smallest k xs s" "length xs + 1 < 2 ^ 31" and c: "clearable M s"
  shows "\<exists>t. measure_once M T f s = Inr ((), t)"
proof -
  obtain s1 where s1: "whenE (clear_cache s \<noteq> 0) (fcyc_clear M) s = Inr ((), s1)"
    using c fcyc_clear_returns [of s M] unfolding clearable_def by (cases "clear_cache s = 0") auto
  obtain w1 where w1: "start_op T (world s1) = Inr ((), w1)" using T(1) unfolding returns_def by fastforce
  obtain w2 where w2: "f w1 = Inr ((), w2)" using T(2) unfolding returns_def by fastforce
  obtain x w3 where w3: "get_op T w2 = Inr (x, w3)" using T(3) unfolding returns_def by fastforce
  have "smallest k xs (s1\<lparr>world := w3\<rparr>)"
    using s1 inv(1) fcyc_clear_frame [of M s s1] by (cases "clear_cache s = 0") (auto simp: smallest_frame)
  then obtain t where t: "add_sample x (s1\<lparr>world := w3\<rparr>) = Inr ((), t)"
    using add_sample_run inv(2) by blast
  show ?thesis using t
    by (simp add: measure_once_def bindE_def getsE_def s1 on_world_def w1 w2 w3 del: cmd_run)
qed

lemma fcyc_loop_returns:
  assumes T: "returns (start_op T)" "returns f" "returns (get_op T)"
  shows "smallest k xs s \<Longrightarrow> in_limit s xs \<Longrightarrow> clearable M s \<Longrightarrow> readings T f w0 xs (world s) \<Longrightarrow>
    nat (sint (maxsamples s)) < fuel + length xs \<Longrightarrow> 0 < fuel \<Longrightarrow>
    \<exists>t. fcyc_loop fuel F (measure_once M T f) s = Inr ((), t)"
proof (induction fuel arbitrary: s xs)
  case (Suc fuel)
  obtain s1 where m: "measure_once M T f s = Inr ((), s1)"
    using measure_once_returns [OF T Suc.prems(1) in_limit_room [OF Suc.prems(2)] Suc.prems(3)] by blast
  obtain x where x: "smallest k (xs @ [x]) s1" "readings T f w0 (xs @ [x]) (world s1)" "settings s1 = settings s"
    using measure_once_step [OF m Suc.prems(1) in_limit_room [OF Suc.prems(2)] Suc.prems(4)] by blast
  have r: "fcyc_loop (Suc fuel) F (measure_once M T f) s =
    (if stops F s1 k (xs @ [x]) then Inr ((), s1) else fcyc_loop fuel F (measure_once M T f) s1)"
    using fcyc_loop_test [OF x(1)] by (simp add: bindE_def [of "measure_once M T f"] m)
  show ?case
  proof (cases "stops F s1 k (xs @ [x])")
    case False
    have "\<exists>t. fcyc_loop fuel F (measure_once M T f) s1 = Inr ((), t)"
    proof (rule Suc.IH [OF x(1) in_limit_next [OF False refl] _ x(2)])
      show "clearable M s1" using Suc.prems(3) x(3) by (simp add: clearable_def settings_def)
      have "maxsamples s1 = maxsamples s" using x(3) by (simp add: settings_def)
      then show "nat (sint (maxsamples s1)) < fuel + length (xs @ [x])" "0 < fuel"
        using Suc.prems(5) False by (auto simp: stops_def)
    qed
    then show ?thesis using r False by simp
  qed (use r in simp)
qed simp

lemma fcyc_total:
  assumes T: "returns (start_op T)" "returns f" "returns (get_op T)"
    and tm: "T = (if compensate s \<noteq> 0 then comp_counter else counter)" and k: "0 < sint (kbest s)" and g: "grants M (world s) (scast (kbest s) * 8)" and c: "clearable M s"
  shows "\<exists>r t. fcyc M F counter comp_counter f s = Inr (r, t)"
proof -
  obtain s0 where s0: "init_sampler M F s = Inr ((), s0)" "smallest (nat (sint (kbest s))) [] s0" "settings s0 = settings s"
    using init_sampler_run [OF k g] by blast
  have eq: "compensate s0 = compensate s" "maxsamples s0 = maxsamples s" "clearable M s0"
    using s0(3) c by (simp_all add: settings_def clearable_def)
  have "\<exists>t. fcyc_loop (Suc (nat (sint (maxsamples s)))) F (measure_once M T f) s0 = Inr ((), t)"
    using fcyc_loop_returns [OF T s0(2) _ eq(3) readings_none] eq(2) by (simp add: in_limit_def del: fcyc_loop.simps)
  then obtain s1 where s1: "fcyc_loop (Suc (nat (sint (maxsamples s)))) F (measure_once M T f) s0 = Inr ((), s1)" ..
  have "in_limit s0 []" by (simp add: in_limit_def)
  from fcyc_loop_result [OF s1 s0(2) readings_none this]
  obtain ys where "smallest (nat (sint (kbest s))) ys s1" "0 < length ys" by auto
  then have v: "value_at 0 s1 = Inr (sort ys ! 0, s1)" using smallest_nth [of "nat (sint (kbest s))" ys s1 0] k by simp
  show ?thesis using s1 v
    by (simp add: fcyc_def bindE_cases(1) [of "init_sampler M F" s, OF s0(1)] eq tm bindE_def [of "fcyc_loop _ _ _"] bindE_def [of "value_at _"]
        del: fcyc_loop.simps)
qed

text \<open>
  Without memory for the samples nothing is stored: the first sample is written through \<open>NULL\<close>.
\<close>

lemma add_sample_null:
  assumes "samples s = None" "samplecount s = 0" "0 < sint (kbest s)"
  shows "add_sample x s = Inl (Fault 0)"
proof -
  have "(0 :: cint) <s kbest s" using assms(3) by (simp add: word_sless_alt)
  then show ?thesis using assms by (simp add: add_sample_def bindE_def getsE_def put_value_def get_values_def)
qed

lemma measure_once_null:
  assumes "samples s = None" "samplecount s = 0" "0 < sint (kbest s)"
  shows "measure_once M T f s \<noteq> Inr ((), t)"
    and "returns (start_op T) \<Longrightarrow> returns f \<Longrightarrow> returns (get_op T) \<Longrightarrow> clearable M s \<Longrightarrow> measure_once M T f s = Inl (Fault 0)"
proof -
  have n: "add_sample x (s\<lparr>cache_buf := b, sink := y, world := w\<rparr>) = Inl (Fault 0)" for x b y w
    using assms by (intro add_sample_null) simp_all
  have c: "\<exists>b y. s1 = s\<lparr>cache_buf := b, sink := y\<rparr>"
    if "whenE (clear_cache s \<noteq> 0) (fcyc_clear M) s = Inr ((), s1)" for s1
  proof (cases "clear_cache s = 0")
    case True
    then have "s1 = s\<lparr>cache_buf := cache_buf s, sink := sink s\<rparr>" using that by simp
    then show ?thesis by blast
  qed (use that fcyc_clear_frame in fastforce)
  show "measure_once M T f s \<noteq> Inr ((), t)"
  proof
    assume "measure_once M T f s = Inr ((), t)"
    then obtain s1 x w where "whenE (clear_cache s \<noteq> 0) (fcyc_clear M) s = Inr ((), s1)" "add_sample x (s1\<lparr>world := w\<rparr>) = Inr ((), t)"
      unfolding measure_once_def by (auto elim!: bindE_InrE simp: on_world_Inr)
    then show False using c n by fastforce
  qed
  assume T: "returns (start_op T)" "returns f" "returns (get_op T)" and cl: "clearable M s"
  obtain s1 where s1: "whenE (clear_cache s \<noteq> 0) (fcyc_clear M) s = Inr ((), s1)"
    using cl fcyc_clear_returns [of s M] unfolding clearable_def by (cases "clear_cache s = 0") auto
  obtain b y where e: "s1 = s\<lparr>cache_buf := b, sink := y\<rparr>" using c [OF s1] by blast
  obtain w1 where w1: "start_op T (world s1) = Inr ((), w1)" using T(1) unfolding returns_def by fastforce
  obtain w2 where w2: "f w1 = Inr ((), w2)" using T(2) unfolding returns_def by fastforce
  obtain x w3 where w3: "get_op T w2 = Inr (x, w3)" using T(3) unfolding returns_def by fastforce
  have "add_sample x (s1\<lparr>world := w3\<rparr>) = Inl (Fault 0)" using n by (simp add: e)
  then show "measure_once M T f s = Inl (Fault 0)"
    by (simp add: measure_once_def bindE_def getsE_def s1 on_world_def w1 w2 w3 del: cmd_run)
qed

lemma init_sampler_null:
  assumes "\<not> grants M (world s) (scast (kbest s) * 8)"
  shows "init_sampler M F s = Inr ((), s\<lparr>samples := None, samplecount := 0\<rparr>)"
  using assms by (simp add: init_sampler_def modifyE_def)

lemma fcyc_null:
  assumes k: "0 < sint (kbest s)" and n: "\<not> grants M (world s) (scast (kbest s) * 8)"
    and T: "T = (if compensate s \<noteq> 0 then comp_counter else counter)"
  shows "fcyc M F counter comp_counter f s \<noteq> Inr (r, t)"
    and "returns (start_op T) \<Longrightarrow> returns f \<Longrightarrow> returns (get_op T) \<Longrightarrow> clearable M s \<Longrightarrow>
      fcyc M F counter comp_counter f s = Inl (Fault 0)"
proof -
  let ?s = "s\<lparr>samples := None, samplecount := 0\<rparr>"
  note null = measure_once_null [where s = ?s and M = M and T = T and f = f]
  show "fcyc M F counter comp_counter f s \<noteq> Inr (r, t)"
  proof
    assume "fcyc M F counter comp_counter f s = Inr (r, t)"
    then obtain u where "measure_once M T f ?s = Inr ((), u)"
      unfolding fcyc_def T by (auto elim!: bindE_InrE simp: init_sampler_null [OF n])
    then show False using null(1) k by simp
  qed
  assume "returns (start_op T)" "returns f" "returns (get_op T)" "clearable M s"
  then have "measure_once M T f ?s = Inl (Fault 0)" using k by (intro null(2)) (simp_all add: clearable_def)
  then show "fcyc M F counter comp_counter f s = Inl (Fault 0)"
    by (simp add: fcyc_def bindE_def getsE_def init_sampler_null [OF n] T del: cmd_run)
qed

lemma sort_0_Min: "xs \<noteq> [] \<Longrightarrow> sort xs ! 0 = Min (set xs)"
proof -
  assume "xs \<noteq> []"
  then obtain y ys where y: "sort xs = y # ys" by (metis length_0_conv length_sort neq_Nil_conv)
  have "sorted (y # ys)" by (metis y sorted_sort)
  then have "Min (set (y # ys)) = y" by (intro Min_eqI) auto
  moreover have "set xs = set (y # ys)" by (metis y set_sort)
  ultimately show ?thesis by (simp only: y nth_Cons_0)
qed

lemma value_at_state: "value_at i s = Inr (x, t) \<Longrightarrow> t = s"
  by (auto simp: value_at_def get_values_def bindE_def split: option.splits if_splits)

lemma fcyc_result:
  assumes "fcyc M F counter comp_counter f s = Inr (r, t)" "0 < sint (kbest s)"
  shows "\<exists>ys. readings (if compensate s \<noteq> 0 then comp_counter else counter) f (world s) ys (world t) \<and>
    ys \<noteq> [] \<and> r = Min (set ys) \<and> stops F s (nat (sint (kbest s))) ys \<and>
    (\<forall>n. 0 < n \<and> n < length ys \<longrightarrow> \<not> stops F s (nat (sint (kbest s))) (take n ys)) \<and>
    settings t = settings s"
proof -
  let ?k = "nat (sint (kbest s))" and ?T = "if compensate s \<noteq> 0 then comp_counter else counter"
  have "grants M (world s) (scast (kbest s) * 8)" using fcyc_null(1) [OF assms(2) _ refl] assms(1) by blast
  then obtain s0 where s0: "init_sampler M F s = Inr ((), s0)" "smallest ?k [] s0" "settings s0 = settings s" "world s0 = world s"
    using init_sampler_run [OF assms(2)] by blast
  have eq: "compensate s0 = compensate s" "maxsamples s0 = maxsamples s" using s0(3) by (simp_all add: settings_def)
  obtain s1 where s1: "fcyc_loop (Suc (nat (sint (maxsamples s)))) F (measure_once M ?T f) s0 = Inr ((), s1)"
    and v: "value_at 0 s1 = Inr (r, s1)" "t = s1\<lparr>samples := None\<rparr>"
  proof -
    have "bindE (fcyc_loop (Suc (nat (sint (maxsamples s)))) F (measure_once M ?T f)) (\<lambda>_. bindE (value_at 0) (\<lambda>result.
        bindE (modifyE (\<lambda>s. s\<lparr>samples := None\<rparr>)) (\<lambda>_. retE result))) s0 = Inr (r, t)"
      using assms(1) by (simp add: fcyc_def bindE_cases(1) [of "init_sampler M F" s, OF s0(1)] eq del: fcyc_loop.simps)
    then obtain s1 s2 where l: "fcyc_loop (Suc (nat (sint (maxsamples s)))) F (measure_once M ?T f) s0 = Inr ((), s1)"
      and v: "value_at 0 s1 = Inr (r, s2)" "t = s2\<lparr>samples := None\<rparr>"
      by (auto elim!: bindE_InrE simp del: fcyc_loop.simps)
    show ?thesis using that [OF l] v value_at_state [OF v(1)] by simp
  qed
  have w: "in_limit s0 []" by (simp add: in_limit_def)
  have r0: "readings ?T f (world s) [] (world s0)" unfolding s0(4) by (rule readings_none)
  from fcyc_loop_result [OF s1 s0(2) r0 w]
  obtain ys where ys: "smallest ?k ys s1" "readings ?T f (world s) ys (world s1)" "settings s1 = settings s0" "ys \<noteq> []"
    "stops F s0 ?k ys" "\<forall>n. 0 < n \<and> n < length ys \<longrightarrow> \<not> stops F s0 ?k (take n ys)" by auto
  have "r = Min (set ys)"
    using smallest_nth [OF ys(1), of 0] ys(4) assms(2) v(1) sort_0_Min [OF ys(4)] by simp
  then show ?thesis using ys v(2) s0(3) stops_settings [OF s0(3)] by (intro exI [of _ ys]) (simp add: settings_def)
qed

subsection \<open>Properties\<close>

text \<open>
  C24: The K-best scheme. What \<open>fcyc\<close> returns is the smallest of the readings it took of the
  counter that \<open>compensate\<close> selects; it stops at the first reading after which either the best
  \<open>kbest\<close> readings lie within \<open>epsilon\<close> of each other or \<open>maxsamples\<close> readings were taken, and it
  leaves the settings as they were.
\<close>

theorem fcyc_smallest_reading:
  assumes "fcyc M F counter comp_counter f s = Inr (r, t)" "0 < sint (kbest s)"
  shows "\<exists>ys. readings (if compensate s \<noteq> 0 then comp_counter else counter) f (world s) ys (world t) \<and>
    ys \<noteq> [] \<and> r = Min (set ys) \<and> stops F s (nat (sint (kbest s))) ys \<and>
    (\<forall>n. 0 < n \<and> n < length ys \<longrightarrow> \<not> stops F s (nat (sint (kbest s))) (take n ys)) \<and>
    settings t = settings s"
  by (rule fcyc_result [OF assms])

definition ample :: "'w memory_source" where
  "ample = \<lparr>grants = (\<lambda>_ _. True), fresh_words = (\<lambda>_. 0)\<rparr>"

definition list_timer :: "(real list, real) timer" where
  "list_timer = \<lparr>start_op = retE (), get_op = (\<lambda>w. Inr (case w of [] \<Rightarrow> (0, []) | x # xs \<Rightarrow> (x, xs)))\<rparr>"

theorem fcyc_smallest_reading_witness:
  "\<exists>r t ys. fcyc ample real_fp list_timer list_timer (retE ()) (fcyc_static 0 [9, 4, 6, 4, 4, 4]) = Inr (r, t) \<and>
     readings list_timer (retE ()) [9, 4, 6, 4, 4, 4] ys (world t) \<and> r = Min (set ys)"
proof -
  have T: "returns (start_op list_timer)" "returns (retE ())" "returns (get_op list_timer)"
    by (auto simp: returns_def list_timer_def split: list.splits)
  let ?s = "fcyc_static 0 [9, 4, 6, 4, 4, 4] :: (real, real list) sampler"
  have k: "0 < sint (kbest ?s)" "grants ample (world ?s) (scast (kbest ?s) * 8)" "clearable ample ?s"
    by (simp_all add: fcyc_static_def clearable_def ample_def)
  obtain r t where run: "fcyc ample real_fp list_timer list_timer (retE ()) ?s = Inr (r, t)"
    using fcyc_total [OF T _ k, of list_timer list_timer real_fp] by auto
  have "compensate ?s = 0" "world ?s = [9, 4, 6, 4, 4, 4]" by (simp_all add: fcyc_static_def)
  then show ?thesis using fcyc_smallest_reading [OF run k(1)] run by auto
qed

text \<open>
  C25: Termination of the sampling. If the counters and the function return, \<open>kbest\<close> is positive,
  \<open>calloc\<close> grants the array of samples, and the cache either is not cleared or has blocks of at least
  four bytes, a size that is not negative and a buffer that \<open>malloc\<close> grants, \<open>fcyc\<close> returns.
\<close>

theorem fcyc_returns:
  assumes "returns (start_op counter)" "returns (get_op counter)" "returns (start_op comp_counter)"
    "returns (get_op comp_counter)" "returns f" "0 < sint (kbest s)" "grants M (world s) (scast (kbest s) * 8)"
    "clear_cache s = 0 \<or> (4 \<le> sint (cache_block s) \<and> 0 \<le> sint (cache_bytes s) \<and> (\<forall>w. grants M w (scast (cache_bytes s))))"
  shows "\<exists>r t. fcyc M F counter comp_counter f s = Inr (r, t)"
  using fcyc_total [OF _ assms(5) _ refl assms(6,7)] assms unfolding clearable_def by (cases "compensate s = 0") auto

theorem fcyc_returns_witness:
  "\<exists>r t. fcyc ample real_fp list_timer list_timer (retE ()) ((fcyc_static 0 [5])\<lparr>clear_cache := 1\<rparr>) = Inr (r, t)"
  by (rule fcyc_returns) (auto simp: returns_def list_timer_def fcyc_static_def ample_def split: list.splits)

text \<open>
  C36: The result of \<open>calloc\<close> is not checked. Where \<open>fcyc\<close> would return, but \<open>calloc\<close> does not grant
  the array of samples, the first sample is stored through \<open>NULL\<close>: the run faults at address 0.
\<close>

theorem fcyc_without_memory:
  assumes "returns (start_op counter)" "returns (get_op counter)" "returns (start_op comp_counter)"
    "returns (get_op comp_counter)" "returns f" "0 < sint (kbest s)" "\<not> grants M (world s) (scast (kbest s) * 8)"
    "clear_cache s = 0 \<or> (4 \<le> sint (cache_block s) \<and> 0 \<le> sint (cache_bytes s) \<and> (\<forall>w. grants M w (scast (cache_bytes s))))"
  shows "fcyc M F counter comp_counter f s = Inl (Fault 0)"
  using fcyc_null(2) [OF assms(6,7) refl] assms unfolding clearable_def by (cases "compensate s = 0") auto

theorem fcyc_without_memory_witness:
  "fcyc (ample\<lparr>grants := \<lambda>_ n. n < 24\<rparr>) real_fp list_timer list_timer (retE ()) (fcyc_static 0 [5]) = Inl (Fault 0)"
  by (rule fcyc_without_memory) (auto simp: returns_def list_timer_def fcyc_static_def split: list.splits)

text \<open>
  C37: A cache block smaller than an \<open>int\<close>. After \<open>set_fcyc_cache_block\<close> with 0 to 3 bytes the
  loop that clears a freshly allocated cache buffer of at least four bytes never ends: its step is
  \<open>cache_block / sizeof(int) = 0\<close>.
\<close>

theorem fcyc_clear_hangs:
  assumes "0 \<le> sint bytes" "sint bytes < 4" "4 \<le> sint (cache_bytes s)" "cache_buf s = None"
    "grants M (world s) (scast (cache_bytes s))"
  shows "bindE (set_fcyc_cache_block bytes) (\<lambda>_. fcyc_clear M) s = Inl Diverge"
proof -
  have z: "sint (ucast (size_div4 bytes) :: cint) = 0" using size_div4_int(2) [OF assms(1)] assms(1,2) by (simp add: div_pos_pos_trivial)
  have "0 \<le> sint (cache_bytes s)" using assms(3) by linarith
  then have "1 \<le> uint (size_div4 (cache_bytes s))" using size_div4_int(1) assms(3) by simp
  then have "0 < unat (size_div4 (cache_bytes s))" using uint_nat [of "size_div4 (cache_bytes s)"] by linarith
  then have stuck: "clear_loop (map (fresh_words M) [0..<unat (size_div4 (cache_bytes s))]) 0 0 (sink s) = None"
    using clear_loop_none [of _ "fresh_words M"] by blast
  have "\<not> sint (cache_bytes s) < 0" using assms(3) by simp
  then show ?thesis
    unfolding set_fcyc_cache_block_def fcyc_clear_def
    by (simp only: bindE_run) (simp add: assms(4,5) z stuck bindE_def Let_def)
qed

theorem fcyc_clear_hangs_witness:
  "bindE (set_fcyc_cache_block 2) (\<lambda>_. fcyc_clear ample) (fcyc_static (0 :: real) ()) = Inl Diverge"
  by (rule fcyc_clear_hangs) (simp_all add: fcyc_static_def ample_def)

end
