(* ===== verification/Fsecs.thy ===== *)
theory Fsecs
  imports Fcyc
begin

section \<open>The configurations of the timing package (fsecs.c)\<close>

text \<open>
  \<^verbatim>\<open>labs/malloclab/fsecs.c\<close> is compiled for one of three methods. \<^verbatim>\<open>config.h\<close> selects \<open>USE_GETTOD\<close>,
  for which \<open>fsecs\<close> of \<open>Clock\<close> is the function the driver calls; here are all three, with
  \<open>init_fsecs\<close>, which for \<open>USE_FCYC\<close> sets the parameters of the sampler and estimates the clock rate.
  The static variable \<open>Mhz\<close> is the result of \<open>init_fsecs\<close> and an argument of \<open>fsecs_by\<close>.
\<close>

datatype timing_method = USE_FCYC | USE_ITIMER | USE_GETTOD

record ('w, 'd) timers =
  cycle_counter :: "('w, 'd) timer"
  compensated_counter :: "('w, 'd) timer"
  estimate_mhz :: "('w, 'd) cmd"
  set_itimer :: "itimer \<Rightarrow> int \<times> int \<Rightarrow> ('w, unit) cmd"
  get_itimer :: "itimer \<Rightarrow> ('w, int \<times> int) cmd"
  time_of_day :: "('w, int \<times> int) cmd"

definition init_fsecs :: "timing_method \<Rightarrow> 'd fp \<Rightarrow> ('w, 'd) timers \<Rightarrow> (('d, 'w) sampler, 'd) cmd" where
  "init_fsecs M F T =
     (case M of
        USE_FCYC \<Rightarrow>
          bindE (set_fcyc_maxsamples 20) (\<lambda>_.
          bindE (set_fcyc_clear_cache 1) (\<lambda>_.
          bindE (set_fcyc_compensate 1) (\<lambda>_.
          bindE (set_fcyc_epsilon (fp_lit F 1 (- 2))) (\<lambda>_.
          bindE (set_fcyc_k 3) (\<lambda>_.
            on_world (estimate_mhz T))))))
      | USE_ITIMER \<Rightarrow> retE (fp_of F 0)
      | USE_GETTOD \<Rightarrow> retE (fp_of F 0))"

definition fsecs_by ::
  "timing_method \<Rightarrow> 'w memory_source \<Rightarrow> 'd fp \<Rightarrow> ('w, 'd) timers \<Rightarrow> 'd \<Rightarrow> ('w, unit) cmd \<Rightarrow> (('d :: linorder, 'w) sampler, 'd) cmd" where
  "fsecs_by P M F T Mhz f =
     (case P of
        USE_FCYC \<Rightarrow>
          bindE (fcyc M F (cycle_counter T) (compensated_counter T) f) (\<lambda>cycles.
            retE (fp_div F cycles (fp_mul F Mhz (fp_lit F 1 6))))
      | USE_ITIMER \<Rightarrow> on_world (ftimer_itimer F (set_itimer T) (get_itimer T) f 10)
      | USE_GETTOD \<Rightarrow> on_world (ftimer_gettod F (time_of_day T) f 10))"

text \<open>As configured, the package is the \<open>fsecs\<close> of the driver, and starting it does nothing.\<close>

lemma fsecs_gettod:
  "fsecs_by USE_GETTOD M F T m f = on_world (fsecs F (time_of_day T) f)"
  "init_fsecs USE_GETTOD F T = retE (fp_of F 0)"
  by (simp_all add: fsecs_by_def fsecs_def init_fsecs_def)

text \<open>
  With the cycle counter the settings are those of the K-best scheme: the smallest of at most 20
  readings of the compensated counter, taken with a cleared cache until three lie within one
  percent of each other, converted to seconds. The run returns if the counters and the
  function do and memory is granted, since the blocks of 32 bytes that are cleared are large enough.
\<close>

lemma stops_in_time:
  assumes "\<forall>n. 0 < n \<and> n < length ys \<longrightarrow> \<not> stops F s k (take n ys)" "maxsamples s = word_of_nat m" "0 < m" "m < 2 ^ 31"
  shows "length ys \<le> m"
proof (rule ccontr)
  assume "\<not> length ys \<le> m"
  moreover have "stops F s k (take m ys)" if "m < length ys"
    using that assms(2-4) by (simp add: stops_def signed_of_nat signed_take_bit_int_eq_self)
  ultimately show False using assms(1,3) by auto
qed

theorem fsecs_cycle_counter:
  assumes "returns (estimate_mhz T)" "returns (start_op (compensated_counter T))" "returns (get_op (compensated_counter T))" "returns f"
    and mem: "\<And>w n. grants M w n"
  shows "\<exists>Mhz s t ys. init_fsecs USE_FCYC F T (fcyc_static eps w) = Inr (Mhz, s) \<and>
    fsecs_by USE_FCYC M F T Mhz f s = Inr (fp_div F (Min (set ys)) (fp_mul F Mhz (fp_lit F 1 6)), t) \<and>
    readings (compensated_counter T) f (world s) ys (world t) \<and> 0 < length ys \<and> length ys \<le> 20"
proof -
  obtain m w' where m: "estimate_mhz T w = Inr (m, w')" using assms(1) unfolding returns_def by blast
  let ?s = "(fcyc_static eps w)\<lparr>maxsamples := 20, clear_cache := 1, compensate := 1, epsilon := fp_lit F 1 (- 2), kbest := 3, world := w'\<rparr>"
  have i: "init_fsecs USE_FCYC F T (fcyc_static eps w) = Inr (m, ?s)"
    by (simp add: init_fsecs_def set_fcyc_maxsamples_def set_fcyc_clear_cache_def set_fcyc_compensate_def set_fcyc_epsilon_def
      set_fcyc_k_def bindE_def modifyE_def on_world_def fcyc_static_def m)
  have k: "0 < sint (kbest ?s)" and c: "clearable M ?s" by (simp_all add: clearable_def fcyc_static_def mem)
  have "\<exists>r t. fcyc M F (cycle_counter T) (compensated_counter T) f ?s = Inr (r, t)"
    by (rule fcyc_total [OF assms(2,4,3) _ k mem c]) simp
  then obtain r t where r: "fcyc M F (cycle_counter T) (compensated_counter T) f ?s = Inr (r, t)" by blast
  obtain ys where ys: "readings (compensated_counter T) f (world ?s) ys (world t)" "ys \<noteq> []" "r = Min (set ys)"
    "\<forall>n. 0 < n \<and> n < length ys \<longrightarrow> \<not> stops F ?s (nat (sint (kbest ?s))) (take n ys)"
    using fcyc_result [OF r k] by auto
  have "length ys \<le> 20" by (rule stops_in_time [OF ys(4)]) simp_all
  moreover have "fsecs_by USE_FCYC M F T m f ?s = Inr (fp_div F r (fp_mul F m (fp_lit F 1 6)), t)"
    by (simp add: fsecs_by_def bindE_def r)
  ultimately show ?thesis using i ys by (metis length_greater_0_conv)
qed

end
