(* ===== verification/ShowNumbers.thy ===== *)
theory ShowNumbers
  imports Decimals
begin

section \<open>Number arguments and their display (fshow.c, ishow.c)\<close>

text \<open>
  The two small programs of \<^verbatim>\<open>labs/datalab-handout\<close> that show a word as an integer or as the
  fields of a \<open>float\<close>, and the function \<open>get_num_val\<close> with which they and \<^verbatim>\<open>btest.c\<close> read a word
  from a command line argument (three copies with small differences). \<open>strtof\<close> is an argument:
  it gives the bits of the float it read and the rest of the string.
\<close>

subsection \<open>strtoll with base 0\<close>

definition digit_value :: "char \<Rightarrow> nat" where
  "digit_value c =
     (let n = char_code c in
      if 48 \<le> n \<and> n \<le> 57 then n - 48
      else if 97 \<le> n \<and> n \<le> 122 then n - 87
      else if 65 \<le> n \<and> n \<le> 90 then n - 55
      else 36)"

definition digits_of :: "nat \<Rightarrow> string \<Rightarrow> string" where
  "digits_of base s = takeWhile (\<lambda>c. digit_value c < base) s"

definition number_of :: "nat \<Rightarrow> string \<Rightarrow> nat" where
  "number_of base ds = foldl (\<lambda>n c. n * base + digit_value c) 0 ds"

definition hex_prefix :: "string \<Rightarrow> bool" where
  "hex_prefix s = (case s of
       a # b # c # _ \<Rightarrow> a = CHR ''0'' \<and> (b = CHR ''x'' \<or> b = CHR ''X'') \<and> digit_value c < 16
     | _ \<Rightarrow> False)"

definition strtoll :: "string \<Rightarrow> int" where
  "strtoll s =
     (let (neg, r) = scan_sign (skip_space s);
          n = (if hex_prefix r then number_of 16 (digits_of 16 (drop 2 r))
               else if r \<noteq> [] \<and> hd r = CHR ''0'' then number_of 8 (digits_of 8 r)
               else number_of 10 (digits_of 10 r))
      in max (- (2 ^ 63)) (min (2 ^ 63 - 1) (if neg then - int n else int n)))"

subsection \<open>get_num_val\<close>

fun classify :: "string \<Rightarrow> bool \<Rightarrow> bool \<Rightarrow> bool" where
  "classify [] ishex isfloat = isfloat"
| "classify (c # s) ishex isfloat =
     (if c = CHR ''x'' \<or> c = CHR ''X'' then classify s True isfloat
      else if c = CHR ''e'' \<or> c = CHR ''E'' then classify s ishex (isfloat \<or> \<not> ishex)
      else if c = CHR ''.'' then classify s ishex True
      else classify s ishex isfloat)"

definition fits_word :: "int \<Rightarrow> bool" where
  "fits_word ll = (let upperbits = ll div 2 ^ 31 in upperbits = 0 \<or> upperbits = - 1 \<or> upperbits = 1)"

definition int_arg :: "string \<Rightarrow> uint32 option" where
  "int_arg s = (let ll = strtoll s in if fits_word ll then Some (word_of_int ll) else None)"

definition float_arg :: "(string \<Rightarrow> uint32 \<times> string) \<Rightarrow> string \<Rightarrow> uint32 option" where
  "float_arg strtof s = (case strtof s of (bits, endp) \<Rightarrow> if endp = [] then Some bits else None)"

definition get_num_fshow :: "(string \<Rightarrow> uint32 \<times> string) \<Rightarrow> string \<Rightarrow> uint32 option" where
  "get_num_fshow strtof s = (if classify s False False then float_arg strtof s else int_arg s)"

definition get_num_ishow :: "string \<Rightarrow> uint32 option" where
  "get_num_ishow s = (if classify s False False then None else int_arg s)"

text \<open>The copy in btest.c tests the old value \<open>*valp\<close> where the others test the pointer \<open>valp\<close>.\<close>

definition get_num_btest :: "(string \<Rightarrow> uint32 \<times> string) \<Rightarrow> string \<Rightarrow> uint32 \<Rightarrow> uint32 option" where
  "get_num_btest strtof s old =
     (if classify s False False then float_arg strtof s
      else if old = 0 then int_arg s else None)"

subsection \<open>ishow\<close>

definition hex_digit :: "nat \<Rightarrow> char" where
  "hex_digit n = (if n < 10 then char_of (48 + n) else char_of (87 + n))"

text \<open>\<open>%.8x\<close> of a 32-bit word prints exactly eight digits.\<close>

definition show_hex :: "uint32 \<Rightarrow> string" where
  "show_hex w = map (\<lambda>i. hex_digit (unat w div 16 ^ (7 - i) mod 16)) [0..<8]"

definition show_word :: "uint32 \<Rightarrow> string list" where
  "show_word w = [''0x'' @ show_hex w, show_int (sint w), show_nat (unat w)]"

definition ishow_line :: "uint32 \<Rightarrow> string" where
  "ishow_line w = ''Hex = '' @ show_word w ! 0 @ CHR '','' # CHR 0x09 # ''Signed = '' @ show_word w ! 1 @
     CHR '','' # CHR 0x09 # ''Unsigned = '' @ show_word w ! 2"

definition quoted :: "string \<Rightarrow> string" where
  "quoted s = CHR 0x27 # s @ [CHR 0x27]"

definition ishow_arg :: "string \<Rightarrow> string" where
  "ishow_arg s = (case get_num_ishow s of
       Some w \<Rightarrow> ishow_line w
     | None \<Rightarrow> ''Cannot convert '' @ quoted s @ '' to 32-bit number'')"

text \<open>\<open>argv[0]\<close> is \<open>NULL\<close> when there are no arguments at all; \<open>%s\<close> then prints \<open>(null)\<close>.\<close>

definition program_name :: "string list \<Rightarrow> string" where
  "program_name argv = (case argv of [] \<Rightarrow> ''(null)'' | s # _ \<Rightarrow> s)"

definition ishow_usage :: "string \<Rightarrow> string list" where
  "ishow_usage name = [''Usage: '' @ name @ '' val1 val2 ...'', ''Values may be given in hex or decimal'']"

definition ishow_main :: "string list \<Rightarrow> string list" where
  "ishow_main argv = (if length argv < 2 then ishow_usage (program_name argv) else map ishow_arg (tl argv))"

subsection \<open>fshow\<close>

definition BIAS :: cint where "BIAS = push_bit 7 1 - 1"
definition FRAC_MASK :: uint32 where "FRAC_MASK = push_bit 23 1 - 1"
definition EXP_MASK :: uint32 where "EXP_MASK = push_bit 8 1 - 1"

definition get_exp :: "uint32 \<Rightarrow> uint32" where "get_exp uf = drop_bit 23 uf AND EXP_MASK"
definition get_frac :: "uint32 \<Rightarrow> uint32" where "get_frac uf = uf AND FRAC_MASK"
definition get_sign :: "uint32 \<Rightarrow> uint32" where "get_sign uf = drop_bit 31 uf AND 1"

text \<open>
  The value of a finite \<open>float\<close> without its sign, as a quotient: what \<open>u2f\<close> makes of the bits.
  \<open>%.10g\<close> prints it, or \<open>inf\<close> or \<open>nan\<close>, after the sign.
\<close>

definition float_ratio :: "uint32 \<Rightarrow> int \<times> int" where
  "float_ratio uf =
     (let e = uint uf div 2 ^ 23 mod 2 ^ 8; f = uint uf mod 2 ^ 23 in
      if e = 0 then (f, 2 ^ 149) else ((2 ^ 23 + f) * 2 ^ nat (e - 150), 2 ^ nat (150 - e)))"

definition float_text :: "uint32 \<Rightarrow> string" where
  "float_text uf =
     (let s = (if uint uf div 2 ^ 31 = 0 then [] else ''-'');
          e = uint uf div 2 ^ 23 mod 2 ^ 8; f = uint uf mod 2 ^ 23;
          (n, d) = float_ratio uf
      in if e = 255 then s @ (if f = 0 then ''inf'' else ''nan'')
         else s @ (if n = 0 then ''0'' else general10 n d))"

text \<open>
  The case analysis of \<open>show_float\<close>: infinity, not a number, or a sign, a mantissa (to be divided by
  \<open>2 ^ 23\<close>) and a power of two. \<open>mantissa\<close> is below \<open>2 ^ 24\<close>, so its conversion to \<open>float\<close> and the
  division are exact.
\<close>

datatype float_kind = Infinity bool | NotANumber | Finite bool bool cint cint

definition float_kind :: "uint32 \<Rightarrow> float_kind" where
  "float_kind uf =
     (let exp = get_exp uf; frac = get_frac uf; sign = get_sign uf in
      if exp = EXP_MASK then (if frac = 0 then Infinity (sign \<noteq> 0) else NotANumber)
      else
        (let denorm = (exp = 0);
             uexp = (if denorm then 1 - BIAS else exp - BIAS);
             mantissa = (if denorm then frac else frac + push_bit 23 1)
         in Finite denorm (sign \<noteq> 0) mantissa uexp))"

definition kind_text :: "float_kind \<Rightarrow> string" where
  "kind_text k =
     (case k of
        Infinity neg \<Rightarrow> (if neg then CHR ''-'' else CHR ''+'') # ''Infinity''
      | NotANumber \<Rightarrow> ''Not-A-Number''
      | Finite denorm neg mantissa uexp \<Rightarrow>
          (if denorm then ''Denormalized'' else ''Normalized'') @ ''.  '' @ (if neg then CHR ''-'' else CHR ''+'') #
          fixed10 (sint mantissa) (2 ^ 23) @ '' X 2^('' @ show_int (sint uexp) @ '')'')"

text \<open>\<open>%x\<close> with a minimal width, for a number that has no more digits than that.\<close>

definition hex_digits :: "nat \<Rightarrow> uint32 \<Rightarrow> string" where
  "hex_digits k w = map (\<lambda>i. hex_digit (unat w div 16 ^ (k - 1 - i) mod 16)) [0..<k]"

definition show_float :: "uint32 \<Rightarrow> string list" where
  "show_float uf =
     (let exp = get_exp uf; frac = get_frac uf; sign = get_sign uf in
      [[], ''Floating point value '' @ float_text uf,
       ''Bit Representation 0x'' @ hex_digits 8 uf @ '', sign = '' @ hex_digits 1 sign @
         '', exponent = 0x'' @ hex_digits 2 exp @ '', fraction = 0x'' @ hex_digits 6 frac,
       kind_text (float_kind uf)])"

definition fshow_usage :: "string \<Rightarrow> string list" where
  "fshow_usage name = [''Usage: '' @ name @ '' val1 val2 ...'', ''Values may be given as hex patterns or as floating point numbers'']"

fun fshow_args :: "(string \<Rightarrow> uint32 \<times> string) \<Rightarrow> string \<Rightarrow> string list \<Rightarrow> string list" where
  "fshow_args strtof name [] = []"
| "fshow_args strtof name (s # ss) =
     (case get_num_fshow strtof s of
        Some uf \<Rightarrow> show_float uf @ fshow_args strtof name ss
      | None \<Rightarrow> (''Invalid 32-bit number: '' @ quoted s) # fshow_usage name)"

definition fshow_main :: "(string \<Rightarrow> uint32 \<times> string) \<Rightarrow> string list \<Rightarrow> string list" where
  "fshow_main strtof argv =
     (if length argv < 2 then fshow_usage (program_name argv) else fshow_args strtof (program_name argv) (tl argv))"

subsection \<open>Reading what ishow prints\<close>

lemma digit_value_digit: "n < 10 \<Longrightarrow> digit_value (digit n) = n"
  by (simp add: digit_value_def char_code_digit)

lemma digit_value_hex: "n < 16 \<Longrightarrow> digit_value (hex_digit n) = n"
  by (simp add: digit_value_def hex_digit_def char_code_def)

lemma number_of_snoc: "number_of b (ds @ [d]) = number_of b ds * b + digit_value d"
  by (simp add: number_of_def)

lemma isdigit_value: "isdigit c \<Longrightarrow> digit_value c = char_code c - 48 \<and> digit_value c < 10"
  by (auto simp: isdigit_def digit_value_def)

lemma show_nat_number: "list_all isdigit ds \<Longrightarrow> number_of 10 ds = decimal ds \<and> digits_of 10 ds = ds"
proof (induction ds rule: rev_induct)
  case Nil
  then show ?case by (simp add: number_of_def decimal_def digits_of_def)
next
  case (snoc d ds)
  then have "\<forall>c\<in>set (ds @ [d]). digit_value c < 10" using snoc.prems isdigit_value unfolding list_all_iff by blast
  then have "digits_of 10 (ds @ [d]) = ds @ [d]" unfolding digits_of_def by (intro takeWhile_eq_all_conv [THEN iffD2])
  then show ?case using snoc isdigit_value by (simp add: number_of_snoc decimal_snoc)
qed

lemma not_digit_chars: "isdigit c \<Longrightarrow> c \<noteq> CHR ''x'' \<and> c \<noteq> CHR ''X'' \<and> c \<noteq> CHR ''e'' \<and> c \<noteq> CHR ''E'' \<and> c \<noteq> CHR ''.''"
  by (auto simp: isdigit_def char_code_def)

lemma classify_digits: "list_all isdigit s \<Longrightarrow> classify s h f = f"
  by (induction s) (auto dest: not_digit_chars)

lemma classify_hex: "list_all (\<lambda>c. c \<noteq> CHR ''.'') s \<Longrightarrow> classify s True f = f"
  by (induction s) auto

lemma unat_word32:
  fixes w :: uint32
  shows "unat w < 2 ^ 32" "int (unat w) < 2 ^ 32"
proof -
  have "unat w < 2 ^ LENGTH(32)" by (rule unsigned_less)
  then show "unat w < 2 ^ 32" by simp
  show "int (unat w) < 2 ^ 32" using uint_lt2p [of w] by simp
qed

lemma char_of_digits: "char_of (48 :: nat) = CHR ''0''" "char_of (50 :: nat) = CHR ''2''"
  by code_simp+

lemma digit_0: "n < 10 \<Longrightarrow> digit n = CHR ''0'' \<Longrightarrow> n = 0"
  using char_code_digit [of n] by (simp add: char_code_def)

lemma show_nat_zero: "hd (show_nat n) = CHR ''0'' \<Longrightarrow> n = 0"
proof (induction n rule: show_nat.induct)
  case (1 n)
  show ?case
  proof (cases "n < 10")
    case True
    then show ?thesis using 1(2) by (subst (asm) show_nat.simps) (simp add: digit_0)
  next
    case False
    have "show_nat (n div 10) \<noteq> []" using show_nat_digits by blast
    then have "hd (show_nat (n div 10)) = CHR ''0''" using 1(2) False by (subst (asm) show_nat.simps) simp
    then show ?thesis using 1(1) False by simp
  qed
qed

lemma unsigned_number:
  "(if hex_prefix (show_nat n) then number_of 16 (digits_of 16 (drop 2 (show_nat n)))
    else if show_nat n \<noteq> [] \<and> hd (show_nat n) = CHR ''0'' then number_of 8 (digits_of 8 (show_nat n))
    else number_of 10 (digits_of 10 (show_nat n))) = n"
proof -
  have d: "list_all isdigit (show_nat n)" "show_nat n \<noteq> []" "decimal (show_nat n) = n"
    using show_nat_digits by blast+
  have x: "\<not> isdigit (CHR ''x'')" "\<not> isdigit (CHR ''X'')" by (simp_all add: isdigit_def char_code_def)
  have h: "\<not> hex_prefix (show_nat n)"
    using d(1) x by (auto simp: hex_prefix_def split: list.splits)
  show ?thesis
  proof (cases "hd (show_nat n) = CHR ''0''")
    case True
    then have "n = 0" by (rule show_nat_zero)
    then have "show_nat n = ''0''" by (simp add: show_nat.simps digit_def char_of_digits)
    then show ?thesis using h \<open>n = 0\<close> by (simp add: digits_of_def number_of_def digit_value_def char_code_def)
  next
    case False
    then show ?thesis using h d show_nat_number by simp
  qed
qed

lemma strtoll_nat: "int n < 2 ^ 63 \<Longrightarrow> strtoll (show_nat n) = int n"
  using scan_sign_nat [of n "[]"] by (simp add: strtoll_def Let_def unsigned_number)

lemma strtoll_int: "- (2 ^ 63) \<le> n \<Longrightarrow> n < 2 ^ 63 \<Longrightarrow> strtoll (show_int n) = n"
proof (cases "n < 0")
  case True
  moreover assume "- (2 ^ 63) \<le> n"
  moreover have "skip_space (CHR ''-'' # s) = CHR ''-'' # s" for s by (simp add: skip_space_def)
  ultimately show ?thesis by (simp add: strtoll_def show_int_def scan_sign_def Let_def unsigned_number)
next
  case False
  moreover assume "n < 2 ^ 63"
  ultimately show ?thesis using strtoll_nat [of "nat n"] by (simp add: show_int_def)
qed

lemma hex_digits_number:
  "number_of 16 (map (\<lambda>i. hex_digit (n div 16 ^ (k - 1 - i) mod 16)) [0..<k]) = n mod 16 ^ k"
proof (induction k arbitrary: n)
  case 0
  then show ?case by (simp add: number_of_def)
next
  case (Suc k)
  have "map (\<lambda>i. hex_digit (n div 16 ^ (Suc k - 1 - i) mod 16)) [0..<k] =
      map (\<lambda>i. hex_digit (n div 16 div 16 ^ (k - 1 - i) mod 16)) [0..<k]"
  proof (rule map_cong [OF refl])
    fix i assume "i \<in> set [0..<k]"
    then have "Suc k - 1 - i = Suc (k - 1 - i)" by auto
    then show "hex_digit (n div 16 ^ (Suc k - 1 - i) mod 16) = hex_digit (n div 16 div 16 ^ (k - 1 - i) mod 16)"
      by (simp add: div_mult2_eq)
  qed
  then have e: "number_of 16 (map (\<lambda>i. hex_digit (n div 16 ^ (Suc k - 1 - i) mod 16)) [0..<k]) = n div 16 mod 16 ^ k"
    by (simp only: Suc.IH)
  have "number_of 16 (map (\<lambda>i. hex_digit (n div 16 ^ (Suc k - 1 - i) mod 16)) [0..<Suc k]) =
      number_of 16 (map (\<lambda>i. hex_digit (n div 16 ^ (Suc k - 1 - i) mod 16)) [0..<k]) * 16 + n mod 16"
    by (simp add: number_of_snoc digit_value_hex)
  also have "\<dots> = n div 16 mod 16 ^ k * 16 + n mod 16" unfolding e ..
  finally have "number_of 16 (map (\<lambda>i. hex_digit (n div 16 ^ (Suc k - 1 - i) mod 16)) [0..<Suc k]) =
      n div 16 mod 16 ^ k * 16 + n mod 16" .
  then show ?case by (simp add: mod_mult2_eq mult.commute)
qed

lemma show_hex_number: "number_of 16 (digits_of 16 (show_hex w)) = unat w"
proof -
  have "\<forall>c\<in>set (show_hex w). digit_value c < 16"
    by (auto simp: show_hex_def digit_value_hex)
  then have "digits_of 16 (show_hex w) = show_hex w"
    unfolding digits_of_def by (intro takeWhile_eq_all_conv [THEN iffD2])
  moreover have "unat w < 16 ^ 8" using unat_word32 [of w] by simp
  ultimately show ?thesis using hex_digits_number [of "unat w" 8] by (simp add: show_hex_def)
qed

lemma strtoll_hex: "strtoll (''0x'' @ show_hex w) = int (unat w)"
proof -
  have "hex_prefix (''0x'' @ show_hex w)"
    by (simp add: hex_prefix_def show_hex_def upt_rec digit_value_hex)
  moreover have "scan_sign (skip_space (''0x'' @ show_hex w)) = (False, ''0x'' @ show_hex w)"
    by (simp add: scan_sign_def skip_space_def isspace_def char_code_def)
  moreover have "int (unat w) < 2 ^ 63" using unat_word32(2) [of w] by simp
  ultimately show ?thesis by (simp add: strtoll_def Let_def show_hex_number)
qed

lemma classify_show_word: "s \<in> set (show_word w) \<Longrightarrow> \<not> classify s False False"
proof -
  have h: "\<not> classify (''0x'' @ show_hex w) False False"
  proof -
    have "hex_digit n \<noteq> CHR ''.''" if "n < 16" for n
      using digit_value_hex [OF that] that by (auto simp: digit_value_def char_code_def)
    then have "list_all (\<lambda>c. c \<noteq> CHR ''.'') (show_hex w)" by (auto simp: show_hex_def list_all_iff)
    then show ?thesis using classify_hex by simp
  qed
  have n: "\<not> classify (show_nat k) False False" for k
    using classify_digits [of "show_nat k"] show_nat_digits by blast
  have i: "\<not> classify (show_int k) False False" for k using n by (simp add: show_int_def)
  show "s \<in> set (show_word w) \<Longrightarrow> \<not> classify s False False" using h n i by (auto simp: show_word_def)
qed

lemma fits_wordI: "- (2 ^ 31) \<le> n \<Longrightarrow> n < 2 ^ 32 \<Longrightarrow> fits_word n"
proof -
  assume n: "- (2 ^ 31) \<le> n" "n < 2 ^ 32"
  have p: "(2 :: int) ^ 31 = 2147483648" "(2 :: int) ^ 32 = 4294967296" by simp_all
  note n = n [unfolded p]
  consider "n < 0" | "0 \<le> n" "n < 2147483648" | "2147483648 \<le> n" by linarith
  then have "n div 2147483648 \<in> {- 1, 0, 1}"
  proof cases
    case 1
    then have "n div 2147483648 = - 1"
      using n by (intro int_div_pos_eq [of n 2147483648 "- 1" "n + 2147483648"]) auto
    then show ?thesis by simp
  next
    case 3
    then have "n div 2147483648 = 1"
      using n by (intro int_div_pos_eq [of n 2147483648 1 "n - 2147483648"]) auto
    then show ?thesis by simp
  qed simp
  then show "fits_word n" unfolding fits_word_def Let_def p by blast
qed

lemma int_arg_show_word: "s \<in> set (show_word w) \<Longrightarrow> int_arg s = Some w"
proof -
  have u: "0 \<le> int (unat w)" "int (unat w) < 2 ^ 32" using unat_word32 [of w] by simp_all
  have s: "- (2 ^ 31) \<le> sint w" "sint w < 2 ^ 31" using sint_ge [of w] sint_less [of w] by simp_all
  have "fits_word (int (unat w))"
    by (rule fits_wordI [OF order_trans [OF _ u(1)] u(2)]) simp
  moreover have "fits_word (sint w)"
    by (rule fits_wordI [OF s(1) order_less_trans [OF s(2)]]) simp
  moreover have "strtoll (show_int (sint w)) = sint w" "strtoll (show_nat (unat w)) = int (unat w)"
    using strtoll_int [of "sint w"] strtoll_nat [of "unat w"] u s by auto
  ultimately show "s \<in> set (show_word w) \<Longrightarrow> int_arg s = Some w"
    using strtoll_hex [of w] by (auto simp: show_word_def int_arg_def Let_def)
qed

subsection \<open>Properties\<close>

text \<open>
  C31: Round trip of \<open>ishow\<close>. Each of the three forms in which \<open>show_int\<close> prints a word
  (hexadecimal, signed, unsigned) is read back as that word by all three copies of
  \<open>get_num_val\<close>; the one in btest.c only while the old value is 0.
\<close>

theorem show_word_read_back:
  assumes "s \<in> set (show_word w)"
  shows "get_num_ishow s = Some w \<and> get_num_fshow strtof s = Some w \<and>
    get_num_btest strtof s old = (if old = 0 then Some w else None)"
  using classify_show_word [OF assms] int_arg_show_word [OF assms]
  by (simp add: get_num_ishow_def get_num_fshow_def get_num_btest_def)

theorem show_word_read_back_witness:
  "''-2'' \<in> set (show_word 0xFFFFFFFE) \<and> get_num_ishow ''-2'' = Some 0xFFFFFFFE \<and>
   get_num_btest (\<lambda>s. (0, s)) ''-2'' 7 = None"
proof -
  have "''-2'' \<in> set (show_word 0xFFFFFFFE)"
    by (simp add: show_word_def show_int_def show_nat.simps digit_def char_of_digits)
  from show_word_read_back [OF this] this show ?thesis by simp
qed


subsection \<open>The value show_float displays\<close>

lemma field_masks: "FRAC_MASK = mask 23" "EXP_MASK = mask 8" "(1 :: uint32) = mask 1"
  by (simp_all add: FRAC_MASK_def EXP_MASK_def mask_eq_exp_minus_1)

lemma frac_int: "uint (get_frac uf) = uint uf mod 2 ^ 23"
  unfolding get_frac_def field_masks take_bit_eq_mask [symmetric] unsigned_take_bit_eq by (rule take_bit_eq_mod)

lemma uint_drop: "uint (drop_bit n uf) = uint uf div 2 ^ n"
  for uf :: uint32
proof -
  have "take_bit 32 (uint uf) = uint uf" using uint_lt2p [of uf] by (intro take_bit_int_eq_self) simp_all
  then show ?thesis by (simp only: unsigned_drop_bit_eq) (simp add: drop_bit_eq_div)
qed

lemma exp_int: "uint (get_exp uf) = uint uf div 2 ^ 23 mod 2 ^ 8"
  unfolding get_exp_def field_masks take_bit_eq_mask [symmetric] unsigned_take_bit_eq uint_drop by (rule take_bit_eq_mod)

lemma sign_int: "uint (get_sign uf) = uint uf div 2 ^ 31"
proof -
  have "uint uf div 2 ^ 31 < 2" using uint_lt2p [of uf] by simp
  then have "uint uf div 2 ^ 31 mod 2 ^ 1 = uint uf div 2 ^ 31" by (intro mod_pos_pos_trivial) (simp_all add: pos_imp_zdiv_nonneg_iff)
  moreover have "uint (get_sign uf) = uint uf div 2 ^ 31 mod 2 ^ 1"
    unfolding get_sign_def field_masks(3) take_bit_eq_mask [symmetric] unsigned_take_bit_eq uint_drop by (rule take_bit_eq_mod)
  ultimately show ?thesis by simp
qed



lemma fields_sum: "uint (get_sign uf) * 2 ^ 31 + uint (get_exp uf) * 2 ^ 23 + uint (get_frac uf) = uint uf"
proof -
  have "uint uf div 2 ^ 23 div 2 ^ 8 = uint uf div 2 ^ 31" using zdiv_zmult2_eq [of "2 ^ 8" "uint uf" "2 ^ 23"] by simp
  then have "uint uf div 2 ^ 31 * 2 ^ 8 + uint uf div 2 ^ 23 mod 2 ^ 8 = uint uf div 2 ^ 23"
    using div_mult_mod_eq [of "uint uf div 2 ^ 23" "2 ^ 8"] by simp
  then have "(uint uf div 2 ^ 31 * 2 ^ 8 + uint uf div 2 ^ 23 mod 2 ^ 8) * 2 ^ 23 + uint uf mod 2 ^ 23 = uint uf"
    using div_mult_mod_eq [of "uint uf" "2 ^ 23"] by simp
  then show ?thesis unfolding sign_int exp_int frac_int by simp
qed















lemma digit_chars10: "digit 0 = CHR ''0''" "digit 1 = CHR ''1''" "digit 2 = CHR ''2''" "digit 3 = CHR ''3''" "digit 4 = CHR ''4''"
  "digit 5 = CHR ''5''" "digit 6 = CHR ''6''" "digit 7 = CHR ''7''" "digit 8 = CHR ''8''" "digit 9 = CHR ''9''"
  by code_simp+

lemma hex_digit_chars: "hex_digit 0 = CHR ''0''" "hex_digit 1 = CHR ''1''" "hex_digit 2 = CHR ''2''" "hex_digit 3 = CHR ''3''"
  "hex_digit 4 = CHR ''4''" "hex_digit 5 = CHR ''5''" "hex_digit 10 = CHR ''a''"
  by code_simp+

lemma readme_digits: "pad 10 3255334057 = ''3255334057''" by (simp add: pad_def upt_rec digit_chars10 digit_chars10 [simplified])
text \<open>The example in the README of the lab, character by character.\<close>

lemma show_float_example:
  "show_float 0x15213243 = [[], ''Floating point value 3.255334057e-26'',
     ''Bit Representation 0x15213243, sign = 0, exponent = 0x2a, fraction = 0x213243'',
     ''Normalized.  +1.2593463659 X 2^(-85)'']"
proof -
  have s: "significand 10564163 (2 ^ 108) = (3255334057, - 26)" by code_simp
  have r: "float_ratio 0x15213243 = (10564163, 2 ^ 108)" by code_simp
  have "general10 10564163 (2 ^ 108) = ''3.255334057e-26''"
    unfolding general10_def s Let_def prod.case
    by (simp add: readme_digits with_point_def no_zeros_def exponent_digits_def show_nat.simps digit_chars10)
  then have t: "float_text 0x15213243 = ''3.255334057e-26''" unfolding float_text_def Let_def r by simp
  have h: "half_even (10564163 * 10 ^ 10) (2 ^ 23) = 12593463659" by code_simp
  have f: "fixed10 10564163 (2 ^ 23) = ''1.2593463659''"
    unfolding fixed10_def h Let_def by (simp add: pad_def upt_rec show_nat.simps digit_chars10 digit_chars10 [simplified])
  have k: "float_kind 0x15213243 = Finite False False 10564163 (- 85)" by code_simp
  have x: "hex_digits 8 0x15213243 = ''15213243''" "hex_digits 1 (get_sign 0x15213243) = ''0''"
    "hex_digits 2 (get_exp 0x15213243) = ''2a''" "hex_digits 6 (get_frac 0x15213243) = ''213243''"
    by (simp_all add: hex_digits_def upt_rec hex_digit_chars hex_digit_chars [simplified] get_sign_def get_exp_def get_frac_def EXP_MASK_def FRAC_MASK_def)
  show ?thesis unfolding show_float_def Let_def t k x
    by (simp add: kind_text_def f [simplified] show_int_def show_nat.simps digit_chars10)
qed


end
