(* ===== verification/Btest.thy ===== *)
theory Btest
  imports BitTests ShowNumbers
begin

section \<open>The test program of the data lab (btest.c, decl.c)\<close>

text \<open>
  \<^verbatim>\<open>labs/datalab-handout/btest.c\<close> compares every puzzle solution with its reference on
  generated arguments and adds up the ratings of the puzzles without errors. A function of the
  table \<open>test_set\<close> is a value of \<open>funct\<close>; a call without a defined result (an undefined shift,
  an endless loop) is \<open>None\<close>. Random values are an argument \<open>rv\<close> (by puzzle, argument and
  iteration), which \<open>random_val\<close> instantiates, and so is \<open>late\<close>, which says for which puzzle the alarm goes off. Points are
  small whole numbers, which \<open>double\<close> holds exactly: they are integers here.
\<close>

subsection \<open>Configuration\<close>

definition TEST_RANGE :: cint where "TEST_RANGE = 500000"
definition MAX_TEST_VALS :: cint where "MAX_TEST_VALS = 13 * TEST_RANGE"

record options =
  grade :: bool
  timeout_limit :: cint
  test_fname :: "string option"
  has_arg :: "bool list"
  argval :: "uint32 list"
  global_rating :: cint

definition btest_defaults :: options where
  "btest_defaults = \<lparr>grade = False, timeout_limit = 10, test_fname = None,
     has_arg = [False, False, False], argval = [0, 0, 0], global_rating = 0\<rparr>"

datatype funct =
    F0 "cint option"
  | F1 "cint \<Rightarrow> cint option"
  | F2 "cint \<Rightarrow> cint \<Rightarrow> cint option"
  | F3 "cint \<Rightarrow> cint \<Rightarrow> cint \<Rightarrow> cint option"

record test_rec =
  tr_name :: string
  solution_funct :: "funct option"
  test_funct :: "funct option"
  args :: cint
  legal_ops :: string
  op_limit :: cint
  rating :: cint
  arg_ranges :: "(cint \<times> cint) list"

datatype line =
    TestFailed string "cint list" cint cint
  | TimedOut string cint
  | Row int cint cint string
  | TotalPoints int int

subsection \<open>Test values\<close>

text \<open>
  \<open>test_vals\<close> has room for \<open>MAX_TEST_VALS\<close> numbers; a store beyond it is \<open>OutOfBounds\<close>. The
  exhaustive loop counts with an \<open>int\<close>, so a range that ends at \<open>TMax\<close> never ends by its test.
\<close>

primrec exhaust :: "nat \<Rightarrow> cint \<Rightarrow> cint \<Rightarrow> err + cint list" where
  "exhaust 0 i hi = (if i \<le>s hi then Inl OutOfBounds else Inr [])"
| "exhaust (Suc n) i hi =
     (if i \<le>s hi then map_sum id (\<lambda>vs. i # vs) (exhaust n (i + 1) hi) else Inr [])"

definition float_vals :: "nat \<Rightarrow> cint list" where
  "float_vals k =
     (let i = of_nat k; smallest_norm = 0x00800000; one = 0x3f800000; largest_norm = 0x7f000000; sign = 0x80000000
      in [i, sign OR i,
          smallest_norm + i, smallest_norm - i, sign OR (smallest_norm + i), sign OR (smallest_norm - i),
          one + i, one - i, sign OR (one + i), sign OR (one - i),
          largest_norm - i, sign OR (largest_norm - i)])"

definition special_vals :: "cint list" where
  "special_vals =
     (let inf = 0x7f800000; nan = 0x7fc00000; sign = 0x80000000
      in [inf, sign OR inf, nan, sign OR nan])"

definition sample_vals :: "(nat \<Rightarrow> cint \<Rightarrow> cint \<Rightarrow> cint) \<Rightarrow> cint \<Rightarrow> cint \<Rightarrow> nat \<Rightarrow> cint list" where
  "sample_vals random_val lo hi k =
     (let i = of_nat k
      in [lo + i, hi - i] @
         (if lo \<le>s i \<and> i \<le>s hi then [i] else []) @
         (if lo \<le>s - i \<and> - i \<le>s hi then [- i] else []) @
         [random_val k lo hi])"

definition stored :: "cint list \<Rightarrow> err + cint list" where
  "stored vs = (if length vs \<le> nat (sint MAX_TEST_VALS) then Inr vs else Inl OutOfBounds)"

definition gen_vals ::
  "options \<Rightarrow> (nat \<Rightarrow> cint \<Rightarrow> cint \<Rightarrow> cint) \<Rightarrow> cint \<Rightarrow> cint \<Rightarrow> cint \<Rightarrow> nat \<Rightarrow> err + cint list" where
  "gen_vals opts random_val lo hi test_range arg =
     (if has_arg opts ! arg then Inr [argval opts ! arg]
      else if lo = 1 \<and> hi = 1 then
        (let test_range = (if push_bit 23 1 <s test_range then push_bit 23 1 else test_range)
         in stored (concat (map float_vals [0..<nat (sint test_range)]) @ special_vals))
      else if hi - MAX_TEST_VALS \<le>s lo then exhaust (nat (sint MAX_TEST_VALS)) lo hi
      else stored (concat (map (sample_vals random_val lo hi) [0..<nat (sint test_range)])))"

subsection \<open>One comparison\<close>

text \<open>Calling through the cast function pointer with the wrong number of arguments is undefined.\<close>

fun call :: "funct option \<Rightarrow> cint list \<Rightarrow> cint option" where
  "call (Some (F0 f)) [] = f"
| "call (Some (F1 f)) [a] = f a"
| "call (Some (F2 f)) [a, b] = f a b"
| "call (Some (F3 f)) [a, b, c] = f a b c"
| "call _ _ = None"

definition test_args :: "options \<Rightarrow> test_rec \<Rightarrow> cint list \<Rightarrow> err + cint \<times> line list" where
  "test_args opts t as =
     (case call (solution_funct t) as of None \<Rightarrow> Inl Undefined
      | Some r \<Rightarrow>
        (case call (test_funct t) as of None \<Rightarrow> Inl Undefined
         | Some rt \<Rightarrow>
             (let error = c_bool (r \<noteq> rt)
              in Inr (error, if error \<noteq> 0 \<and> \<not> grade opts then [TestFailed (tr_name t) as r rt] else []))))"

text \<open>The loops stop at the first error.\<close>

primrec test_each :: "('a \<Rightarrow> err + cint \<times> line list) \<Rightarrow> 'a list \<Rightarrow> err + cint \<times> line list" where
  "test_each test [] = Inr (0, [])"
| "test_each test (a # as) =
     (case test a of
        Inl e \<Rightarrow> Inl e
      | Inr (n, ls) \<Rightarrow> if n \<noteq> 0 then Inr (n, ls) else test_each test as)"

subsection \<open>Testing a function\<close>

text \<open>
  The square and the cube root of \<open>TEST_RANGE\<close>, as the conversions of
  \<open>pow((double) TEST_RANGE, 0.5)\<close> and \<open>pow((double) TEST_RANGE, 0.333)\<close> to \<open>int\<close>.
\<close>

definition range_of_args :: "cint \<Rightarrow> cint" where
  "range_of_args n = (if n = 1 then TEST_RANGE else if n = 2 then 707 else 79)"

primrec gen_all :: "options \<Rightarrow> (nat \<Rightarrow> nat \<Rightarrow> cint \<Rightarrow> cint \<Rightarrow> cint) \<Rightarrow> test_rec \<Rightarrow> nat \<Rightarrow> err + cint list list" where
  "gen_all opts rv t 0 = Inr []"
| "gen_all opts rv t (Suc i) =
     (case gen_all opts rv t i of
        Inl e \<Rightarrow> Inl e
      | Inr vals \<Rightarrow>
          map_sum id (\<lambda>vs. vals @ [vs])
            (gen_vals opts (rv i) (fst (arg_ranges t ! i)) (snd (arg_ranges t ! i)) (range_of_args (args t)) i))"

definition test_function ::
  "options \<Rightarrow> (string \<Rightarrow> nat \<Rightarrow> nat \<Rightarrow> cint \<Rightarrow> cint \<Rightarrow> cint) \<Rightarrow> (string \<Rightarrow> bool) \<Rightarrow> test_rec \<Rightarrow> err + cint \<times> line list" where
  "test_function opts rv late t =
     (if args t <s 0 \<or> 3 <s args t then Inl (Exit 1)
      else
        (case gen_all opts (rv (tr_name t)) t (nat (sint (args t))) of
           Inl e \<Rightarrow> Inl e
         | Inr vals \<Rightarrow>
             if 0 <s timeout_limit opts \<and> late (tr_name t)
             then Inr (1, [TimedOut (tr_name t) (timeout_limit opts)])
             else if args t = 0 then test_args opts t []
             else
               test_each (\<lambda>a1.
                 if args t = 1 then test_args opts t [a1]
                 else
                   test_each (\<lambda>a2.
                     if args t = 2 then test_args opts t [a1, a2]
                     else
                       test_each (\<lambda>a3. test_args opts t [a1, a2, a3]) (vals ! 2))
                     (vals ! 1))
                 (vals ! 0)))"

subsection \<open>The series of tests\<close>

record score =
  sc_errors :: cint
  sc_points :: int
  sc_max_points :: int
  sc_lines :: "line list"

definition selected :: "options \<Rightarrow> test_rec \<Rightarrow> bool" where
  "selected opts t = (case test_fname opts of None \<Rightarrow> True | Some n \<Rightarrow> tr_name t = n)"

definition score_one :: "options \<Rightarrow> test_rec \<Rightarrow> cint \<times> line list \<Rightarrow> score \<Rightarrow> score" where
  "score_one opts t r sc =
     (case r of (terrors, ls) \<Rightarrow>
        (let rt = (if global_rating opts \<noteq> 0 then global_rating opts else rating t);
             tscore = (if terrors = 0 then 1 else 0);
             tpoints = sint rt * tscore
         in \<lparr>sc_errors = sc_errors sc + terrors, sc_points = sc_points sc + tpoints,
             sc_max_points = sc_max_points sc + sint rt,
             sc_lines = sc_lines sc @ ls @
               (if grade opts \<or> terrors <s 1 then [Row tpoints rt terrors (tr_name t)] else [])\<rparr>))"

fun run_set ::
  "options \<Rightarrow> (string \<Rightarrow> nat \<Rightarrow> nat \<Rightarrow> cint \<Rightarrow> cint \<Rightarrow> cint) \<Rightarrow> (string \<Rightarrow> bool) \<Rightarrow> test_rec list \<Rightarrow> score \<Rightarrow> err + score" where
  "run_set opts rv late [] sc = Inl OutOfBounds"
| "run_set opts rv late (t # ts) sc =
     (if solution_funct t = None then Inr sc
      else if selected opts t
      then (case test_function opts rv late t of
              Inl e \<Rightarrow> Inl e
            | Inr r \<Rightarrow> run_set opts rv late ts (score_one opts t r sc))
      else run_set opts rv late ts sc)"

definition run_tests ::
  "options \<Rightarrow> (string \<Rightarrow> nat \<Rightarrow> nat \<Rightarrow> cint \<Rightarrow> cint \<Rightarrow> cint) \<Rightarrow> (string \<Rightarrow> bool) \<Rightarrow> test_rec list \<Rightarrow> err + cint \<times> line list" where
  "run_tests opts rv late tests =
     map_sum id (\<lambda>sc. (sc_errors sc, sc_lines sc @ [TotalPoints (sc_points sc) (sc_max_points sc)]))
       (run_set opts rv late tests \<lparr>sc_errors = 0, sc_points = 0, sc_max_points = 0, sc_lines = []\<rparr>)"

subsection \<open>The table (decl.c)\<close>

definition any_int :: "cint \<times> cint" where "any_int = (TMin, TMax)"

definition bit_ops :: string where "bit_ops = ''! ~ & ^ | + << >>''"

definition test_set :: "test_rec list" where
  "test_set =
    [\<lparr>tr_name = ''minusOne'', solution_funct = Some (F0 (Some minusOne)), test_funct = Some (F0 (Some test_minusOne)),
       args = 0, legal_ops = bit_ops, op_limit = 2, rating = 1, arg_ranges = [any_int, any_int, any_int]\<rparr>,
     \<lparr>tr_name = ''isZero'', solution_funct = Some (F1 (\<lambda>x. Some (isZero x))), test_funct = Some (F1 (\<lambda>x. Some (test_isZero x))),
       args = 1, legal_ops = bit_ops, op_limit = 2, rating = 1, arg_ranges = [any_int, any_int, any_int]\<rparr>,
     \<lparr>tr_name = ''getByte'', solution_funct = Some (F2 getByte), test_funct = Some (F2 (\<lambda>x n. Some (test_getByte x n))),
       args = 2, legal_ops = bit_ops, op_limit = 6, rating = 2, arg_ranges = [any_int, (0, 3), any_int]\<rparr>,
     \<lparr>tr_name = ''negate'', solution_funct = Some (F1 (\<lambda>x. Some (negate x))), test_funct = Some (F1 (\<lambda>x. Some (test_negate x))),
       args = 1, legal_ops = bit_ops, op_limit = 5, rating = 2, arg_ranges = [any_int, any_int, any_int]\<rparr>,
     \<lparr>tr_name = ''addOK'', solution_funct = Some (F2 (\<lambda>x y. Some (addOK x y))), test_funct = Some (F2 (\<lambda>x y. Some (test_addOK x y))),
       args = 2, legal_ops = bit_ops, op_limit = 20, rating = 3, arg_ranges = [any_int, any_int, any_int]\<rparr>,
     \<lparr>tr_name = ''bitMask'', solution_funct = Some (F2 bitMask), test_funct = Some (F2 test_bitMask),
       args = 2, legal_ops = bit_ops, op_limit = 16, rating = 3, arg_ranges = [(0, 31), (0, 31), any_int]\<rparr>,
     \<lparr>tr_name = ''absVal'', solution_funct = Some (F1 (\<lambda>x. Some (absVal x))), test_funct = Some (F1 (\<lambda>x. Some (test_absVal x))),
       args = 1, legal_ops = bit_ops, op_limit = 10, rating = 4, arg_ranges = [(- TMax, TMax), any_int, any_int]\<rparr>,
     \<lparr>tr_name = ''greatestBitPos'', solution_funct = Some (F1 greatestBitPos), test_funct = Some (F1 test_greatestBitPos),
       args = 1, legal_ops = bit_ops, op_limit = 70, rating = 4, arg_ranges = [any_int, any_int, any_int]\<rparr>,
     \<lparr>tr_name = '''', solution_funct = None, test_funct = None,
       args = 0, legal_ops = '''', op_limit = 0, rating = 0, arg_ranges = [(0, 0), (0, 0), (0, 0)]\<rparr>]"

subsection \<open>Command line and main\<close>

text \<open>
  \<open>getopt\<close> is a list of option characters with their arguments. \<open>usage\<close> ends the program with
  status 1; a number that \<open>get_num_val\<close> rejects ends it with status 0.
\<close>

definition atoi :: "string \<Rightarrow> cint" where
  "atoi s = (case fst (scan_d s) of None \<Rightarrow> 0 | Some n \<Rightarrow> n)"

definition fix_arg :: "(string \<Rightarrow> uint32 \<times> string) \<Rightarrow> nat \<Rightarrow> string \<Rightarrow> options \<Rightarrow> err + options" where
  "fix_arg strtof i optarg opts =
     (case get_num_btest strtof optarg (argval opts ! i) of
        None \<Rightarrow> Inl (Exit 0)
      | Some v \<Rightarrow> Inr (opts\<lparr>has_arg := (has_arg opts)[i := True], argval := (argval opts)[i := v]\<rparr>))"

definition parse_option :: "(string \<Rightarrow> uint32 \<times> string) \<Rightarrow> char \<times> string \<Rightarrow> options \<Rightarrow> err + options" where
  "parse_option strtof opt opts =
     (let c = fst opt; optarg = snd opt in
      if c = CHR ''g'' then Inr (opts\<lparr>grade := True\<rparr>)
      else if c = CHR ''f'' then Inr (opts\<lparr>test_fname := Some optarg\<rparr>)
      else if c = CHR ''r'' then
        (if atoi optarg <s 0 then Inl (Exit 1) else Inr (opts\<lparr>global_rating := atoi optarg\<rparr>))
      else if c = CHR ''1'' then fix_arg strtof 0 optarg opts
      else if c = CHR ''2'' then fix_arg strtof 1 optarg opts
      else if c = CHR ''3'' then fix_arg strtof 2 optarg opts
      else if c = CHR ''T'' then Inr (opts\<lparr>timeout_limit := atoi optarg\<rparr>)
      else Inl (Exit 1))"

primrec parse_options :: "(string \<Rightarrow> uint32 \<times> string) \<Rightarrow> (char \<times> string) list \<Rightarrow> options \<Rightarrow> err + options" where
  "parse_options strtof [] opts = Inr opts"
| "parse_options strtof (a # as) opts =
     (case parse_option strtof a opts of Inl e \<Rightarrow> Inl e | Inr opts' \<Rightarrow> parse_options strtof as opts')"

text \<open>\<open>main\<close> returns 0 however many errors \<open>run_tests\<close> counted.\<close>

definition btest_main ::
  "(string \<Rightarrow> uint32 \<times> string) \<Rightarrow> (string \<Rightarrow> nat \<Rightarrow> nat \<Rightarrow> cint \<Rightarrow> cint \<Rightarrow> cint) \<Rightarrow> (string \<Rightarrow> bool) \<Rightarrow>
     (char \<times> string) list \<Rightarrow> err + line list" where
  "btest_main strtof rv late argv =
     (case parse_options strtof argv btest_defaults of
        Inl e \<Rightarrow> Inl e
      | Inr opts \<Rightarrow> map_sum id snd (run_tests opts rv late test_set))"

text \<open>
  An option that fixes an argument to a nonzero word cannot be given again: the second number
  is rejected because the first one is still there.
\<close>

lemma fixed_arg_twice:
  assumes "argval opts ! i \<noteq> 0" "\<not> classify s False False"
  shows "fix_arg strtof i s opts = Inl (Exit 0)"
  using assms by (simp add: fix_arg_def get_num_btest_def)

subsection \<open>Which values are generated\<close>

definition within_range :: "cint \<Rightarrow> cint \<Rightarrow> cint \<Rightarrow> bool" where
  "within_range lo hi v \<longleftrightarrow> sint lo \<le> sint v \<and> sint v \<le> sint hi"

lemma sint_plus_small:
  fixes x :: cint
  assumes "- (2 ^ 31) \<le> sint x + n" "sint x + n < 2 ^ 31"
  shows "sint (x + word_of_int n) = sint x + n"
proof -
  have "x + word_of_int n = word_of_int (sint x + n)" by simp
  then have "sint (x + word_of_int n) = signed_take_bit 31 (sint x + n)" by (simp only: signed_of_int) simp
  then show ?thesis using assms by (simp add: signed_take_bit_int_eq_self)
qed

lemma sint_next: "sint x < 2 ^ 31 - 1 \<Longrightarrow> sint (x + 1) = sint x + 1" for x :: cint
  using sint_plus_small [of x 1] sint_cint_bounds [of x] by simp

lemma within_range_Cons:
  assumes "sint i \<le> sint hi" "sint hi < 2 ^ 31 - 1"
  shows "{v. within_range i hi v} = insert i {v. within_range (i + 1) hi v}"
proof -
  have nx: "sint (i + 1) = sint i + 1" using assms by (intro sint_next) linarith
  have "within_range i hi v \<longleftrightarrow> v = i \<or> within_range (i + 1) hi v" for v
  proof (cases "sint v = sint i")
    case True
    then have "v = i" by (rule signed_word_eqI)
    then show ?thesis using assms(1) by (simp add: within_range_def)
  next
    case False
    then have "v \<noteq> i" by blast
    then show ?thesis using False unfolding within_range_def nx by linarith
  qed
  then show ?thesis by blast
qed

lemma exhaust_values:
  "sint hi < 2 ^ 31 - 1 \<Longrightarrow> sint hi - sint i < int n \<Longrightarrow>
     \<exists>vs. exhaust n i hi = Inr vs \<and> set vs = {v. within_range i hi v}"
proof (induction n arbitrary: i)
  case 0
  then show ?case by (auto simp: word_sle_eq within_range_def)
next
  case (Suc n)
  show ?case
  proof (cases "sint i \<le> sint hi")
    case True
    then have n: "sint (i + 1) = sint i + 1" using Suc.prems(1) by (intro sint_next) simp
    obtain vs where "exhaust n (i + 1) hi = Inr vs" "set vs = {v. within_range (i + 1) hi v}"
      using Suc.IH [of "i + 1"] Suc.prems n by auto
    then show ?thesis using True within_range_Cons [OF True Suc.prems(1)] by (simp add: word_sle_eq)
  next
    case False
    then show ?thesis by (auto simp: word_sle_eq within_range_def)
  qed
qed

lemma exhaust_overflow:
  "sint i + int n \<le> sint hi \<Longrightarrow> exhaust n i hi = Inl OutOfBounds"
proof (induction n arbitrary: i)
  case (Suc n)
  then have "sint (i + 1) = sint i + 1" using sint_cint_bounds [of hi] by (intro sint_next) simp
  then show ?case using Suc by (simp add: word_sle_eq)
qed (simp add: word_sle_eq)

lemma MAX_TEST_VALS_int: "sint MAX_TEST_VALS = 6500000" "MAX_TEST_VALS = word_of_int 6500000"
  by (simp_all add: MAX_TEST_VALS_def TEST_RANGE_def)

lemma minus_MAX:
  assumes "- (2 ^ 31) + 6500000 \<le> sint hi"
  shows "sint (hi - MAX_TEST_VALS) = sint hi - 6500000"
  using sint_plus_small [of hi "- 6500000"] assms sint_cint_bounds [of hi] by (simp add: MAX_TEST_VALS_int(2))

lemma gen_vals_exhaustive:
  assumes "\<not> has_arg opts ! arg" "\<not> (lo = 1 \<and> hi = 1)" "- (2 ^ 31) + 6500000 \<le> sint hi" "sint hi < 2 ^ 31 - 1"
    and "sint hi - sint lo < 6500000"
  shows "\<exists>vs. gen_vals opts rnd lo hi r arg = Inr vs \<and> set vs = {v. within_range lo hi v}"
proof -
  have "hi - MAX_TEST_VALS \<le>s lo" using minus_MAX [OF assms(3)] assms(5) by (simp add: word_sle_eq)
  then show ?thesis using exhaust_values [OF assms(4), of lo "nat (sint MAX_TEST_VALS)"] assms
    by (auto simp: gen_vals_def MAX_TEST_VALS_int)
qed

lemma sample_vals_range:
  assumes "6500000 < sint hi - sint lo" "k < 500000" "within_range lo hi (rnd k lo hi)"
  shows "list_all (within_range lo hi) (sample_vals rnd lo hi k)" "length (sample_vals rnd lo hi k) \<le> 5"
proof -
  have "sint (lo + word_of_int (int k)) = sint lo + int k" "sint (hi + word_of_int (- int k)) = sint hi - int k"
    using assms(1,2) sint_cint_bounds [of lo] sint_cint_bounds [of hi]
    by (subst sint_plus_small; simp)+
  then have "within_range lo hi (lo + of_nat k)" "within_range lo hi (hi - of_nat k)"
    using assms(1,2) by (simp_all add: within_range_def)
  then show "list_all (within_range lo hi) (sample_vals rnd lo hi k)" "length (sample_vals rnd lo hi k) \<le> 5"
    using assms(3) by (auto simp: sample_vals_def Let_def within_range_def word_sle_eq)
qed

lemma length_concat_bound:
  "(\<And>x. x \<in> set xs \<Longrightarrow> length (f x) \<le> b) \<Longrightarrow> length (concat (map f xs)) \<le> b * length xs"
  by (induction xs) (auto simp: add_mono)

lemma gen_vals_sampled:
  assumes "\<not> has_arg opts ! arg" "6500000 < sint hi - sint lo" "0 \<le> sint r" "sint r \<le> 500000"
    and rnd: "\<And>k. within_range lo hi (rnd k lo hi)"
  shows "\<exists>vs. gen_vals opts rnd lo hi r arg = Inr vs \<and> (\<forall>v\<in>set vs. within_range lo hi v)"
proof -
  let ?vs = "concat (map (sample_vals rnd lo hi) [0..<nat (sint r)])"
  have big: "- (2 ^ 31) + 6500000 \<le> sint hi" using assms(2) sint_cint_bounds(1) [of lo] by simp
  have wide: "\<not> hi - MAX_TEST_VALS \<le>s lo" "\<not> (lo = 1 \<and> hi = 1)"
    using minus_MAX [OF big] assms(2) by (auto simp: word_sle_eq)
  have sv: "list_all (within_range lo hi) (sample_vals rnd lo hi k) \<and> length (sample_vals rnd lo hi k) \<le> 5"
    if "k < 500000" for k
    using sample_vals_range [of hi lo k rnd] assms(2) rnd that by blast
  have "length ?vs \<le> 5 * length [0..<nat (sint r)]"
    using sv assms(4) by (intro length_concat_bound) simp
  then have fits: "length ?vs \<le> nat (sint MAX_TEST_VALS)" using assms(3,4) by (simp add: MAX_TEST_VALS_int)
  have "\<forall>v\<in>set ?vs. within_range lo hi v"
  proof
    fix v assume "v \<in> set ?vs"
    then obtain k where "k < nat (sint r)" "v \<in> set (sample_vals rnd lo hi k)" by auto
    then show "within_range lo hi v" using sv [of k] assms(4) by (simp add: list_all_iff)
  qed
  then show ?thesis unfolding gen_vals_def stored_def using assms(1) wide fits by (simp only: if_False if_True) blast
qed

subsection \<open>No errors on matching functions\<close>

lemma test_each_ok: "(\<And>a. a \<in> set as \<Longrightarrow> test a = Inr (0, [])) \<Longrightarrow> test_each test as = Inr (0, [])"
  by (induction as) auto

definition agree_on :: "test_rec \<Rightarrow> cint list \<Rightarrow> bool" where
  "agree_on t as \<longleftrightarrow> call (solution_funct t) as \<noteq> None \<and> call (solution_funct t) as = call (test_funct t) as"

lemma test_args_ok: "agree_on t as \<Longrightarrow> test_args opts t as = Inr (0, [])"
  unfolding agree_on_def test_args_def by (cases "call (solution_funct t) as"; cases "call (test_funct t) as") simp_all

text \<open>What a test set for argument \<open>i\<close> may be: values inside the range of the table.\<close>

definition in_arg :: "test_rec \<Rightarrow> nat \<Rightarrow> cint \<Rightarrow> bool" where
  "in_arg t i v \<longleftrightarrow> within_range (fst (arg_ranges t ! i)) (snd (arg_ranges t ! i)) v"

definition gives_args :: "options \<Rightarrow> (nat \<Rightarrow> nat \<Rightarrow> cint \<Rightarrow> cint \<Rightarrow> cint) \<Rightarrow> test_rec \<Rightarrow> nat \<Rightarrow> bool" where
  "gives_args opts rv t i \<longleftrightarrow> (\<exists>vs. gen_vals opts (rv i) (fst (arg_ranges t ! i)) (snd (arg_ranges t ! i))
       (range_of_args (args t)) i = Inr vs \<and> (\<forall>v\<in>set vs. in_arg t i v))"

lemma gen_all_ok:
  "(\<And>i. i < n \<Longrightarrow> gives_args opts rv t i) \<Longrightarrow>
     \<exists>vals. gen_all opts rv t n = Inr vals \<and> length vals = n \<and> (\<forall>i<n. \<forall>v\<in>set (vals ! i). in_arg t i v)"
proof (induction n)
  case (Suc n)
  then obtain vals where v: "gen_all opts rv t n = Inr vals" "length vals = n" "\<forall>i<n. \<forall>v\<in>set (vals ! i). in_arg t i v"
    by auto
  obtain vs where "gen_vals opts (rv n) (fst (arg_ranges t ! n)) (snd (arg_ranges t ! n)) (range_of_args (args t)) n = Inr vs"
    "\<forall>v\<in>set vs. in_arg t n v"
    using Suc.prems [of n] unfolding gives_args_def by auto
  then show ?case using v by (auto simp: nth_append less_Suc_eq)
qed simp

text \<open>A puzzle whose solution agrees with its reference on all arguments in range passes.\<close>

lemma test_function_ok:
  assumes n: "args t = of_nat n" "n \<le> 2" and g: "\<And>i. i < n \<Longrightarrow> gives_args opts (rv (tr_name t)) t i"
    and l: "\<not> (0 <s timeout_limit opts \<and> late (tr_name t))"
    and ok: "\<And>as. length as = n \<Longrightarrow> (\<And>i. i < n \<Longrightarrow> in_arg t i (as ! i)) \<Longrightarrow> agree_on t as"
  shows "test_function opts rv late t = Inr (0, [])"
proof -
  obtain vals where v: "gen_all opts (rv (tr_name t)) t n = Inr vals" "\<forall>i<n. \<forall>v\<in>set (vals ! i). in_arg t i v"
    using gen_all_ok [OF g] by blast
  consider "n = 0" | "n = 1" | "n = 2" using n(2) by linarith
  then show ?thesis
  proof cases
    case 1
    then show ?thesis using n v l test_args_ok [OF ok [of "[]"]] by (simp add: test_function_def word_sless_alt)
  next
    case 2
    have "test_args opts t [a] = Inr (0, [])" if "a \<in> set (vals ! 0)" for a
      using v(2) that 2 by (intro test_args_ok ok) auto
    then have "test_each (\<lambda>a1. test_args opts t [a1]) (vals ! 0) = Inr (0, [])" by (rule test_each_ok)
    then show ?thesis using n v(1) l 2 by (simp add: test_function_def word_sless_alt)
  next
    case 3
    have "test_args opts t [a, b] = Inr (0, [])" if "a \<in> set (vals ! 0)" "b \<in> set (vals ! 1)" for a b
      using v(2) that 3 by (intro test_args_ok ok) (auto simp: less_Suc_eq numeral_2_eq_2)
    then have "test_each (\<lambda>a1. test_each (\<lambda>a2. test_args opts t [a1, a2]) (vals ! 1)) (vals ! 0) = Inr (0, [])"
      by (intro test_each_ok)
    then show ?thesis using n v(1) l 3 by (simp add: test_function_def word_sless_alt)
  qed
qed

text \<open>The assumptions under which the tests run: no fixed arguments, \<open>rv\<close> between its bounds.\<close>

definition plain_run :: "options \<Rightarrow> (string \<Rightarrow> nat \<Rightarrow> nat \<Rightarrow> cint \<Rightarrow> cint \<Rightarrow> cint) \<Rightarrow> (string \<Rightarrow> bool) \<Rightarrow> bool" where
  "plain_run opts rv late \<longleftrightarrow> has_arg opts = [False, False, False] \<and>
     (\<forall>name arg k lo hi. sint lo \<le> sint hi \<longrightarrow> within_range lo hi (rv name arg k lo hi)) \<and>
     (\<forall>name. \<not> (0 <s timeout_limit opts \<and> late name))"

lemma gives_wide:
  assumes "plain_run opts rv late" "i < 3" "6500000 < sint (snd (arg_ranges t ! i)) - sint (fst (arg_ranges t ! i))"
  shows "gives_args opts (rv name) t i"
proof -
  obtain lo hi where a: "arg_ranges t ! i = (lo, hi)" by force
  have h: "\<not> has_arg opts ! i" using assms(1,2) by (auto simp: plain_run_def less_Suc_eq numeral_3_eq_3)
  have r: "0 \<le> sint (range_of_args (args t))" "sint (range_of_args (args t)) \<le> 500000"
    by (simp_all add: range_of_args_def TEST_RANGE_def)
  have "within_range lo hi (rv name i k lo hi)" for k
    using assms(1,3) by (simp add: plain_run_def a)
  then show ?thesis unfolding gives_args_def in_arg_def a fst_conv snd_conv
    using assms(3) h r by (intro gen_vals_sampled) (simp_all add: a)
qed

lemma gives_small:
  assumes "plain_run opts rv late" "i < 3" "arg_ranges t ! i = (0, hi)" "hi = 3 \<or> hi = 31"
  shows "gives_args opts (rv name) t i"
proof -
  have h: "\<not> has_arg opts ! i" using assms(1,2) by (auto simp: plain_run_def less_Suc_eq numeral_3_eq_3)
  show ?thesis unfolding gives_args_def in_arg_def assms(3)
    using gen_vals_exhaustive [OF h, of 0 hi "rv name i" "range_of_args (args t)"] assms(4) by auto
qed

lemma small_arg:
  assumes "within_range 0 w v" "w = of_nat b" "b < 32"
  obtains k where "k \<le> b" "v = of_nat k"
proof -
  have s: "0 \<le> sint v" "sint v \<le> int b" using assms(1,3) sint_of_nat_small [of b] unfolding assms(2) by (simp_all add: within_range_def)
  define k where "k = nat (sint v)"
  have "v = of_nat k" using s(1) by (simp add: k_def)
  moreover have "k \<le> b" using s by (simp add: k_def)
  ultimately show thesis using that by blast
qed

lemma passes0:
  assumes "plain_run opts rv late" "solution_funct t = Some (F0 f)" "test_funct t = Some (F0 f)" "f = Some r" "args t = 0"
  shows "test_function opts rv late t = Inr (0, [])"
  using assms by (intro test_function_ok [where n = 0]) (auto simp: plain_run_def agree_on_def)

lemma passes1:
  assumes p: "plain_run opts rv late" and t: "solution_funct t = Some (F1 f)" "test_funct t = Some (F1 g)" "args t = 1"
    and w: "6500000 < sint (snd (arg_ranges t ! 0)) - sint (fst (arg_ranges t ! 0))"
    and eq: "\<And>x. f x = g x" "\<And>x. f x \<noteq> None"
  shows "test_function opts rv late t = Inr (0, [])"
proof (rule test_function_ok [where n = 1])
  show "gives_args opts (rv (tr_name t)) t i" if "i < 1" for i using gives_wide [OF p _ w] that by simp
  fix as :: "cint list" assume "length as = 1"
  then obtain a where "as = [a]" by (auto simp: length_Suc_conv)
  then show "agree_on t as" using t eq(2) by (simp add: agree_on_def eq(1) [symmetric])
qed (use p t(3) in \<open>auto simp: plain_run_def\<close>)

lemma passes2:
  assumes p: "plain_run opts rv late" and t: "solution_funct t = Some (F2 f)" "test_funct t = Some (F2 g)" "args t = 2"
    and g: "gives_args opts (rv (tr_name t)) t 0" "gives_args opts (rv (tr_name t)) t 1"
    and eq: "\<And>x y. in_arg t 0 x \<Longrightarrow> in_arg t 1 y \<Longrightarrow> f x y = g x y \<and> f x y \<noteq> None"
  shows "test_function opts rv late t = Inr (0, [])"
proof (rule test_function_ok [where n = 2])
  show "gives_args opts (rv (tr_name t)) t i" if "i < 2" for i using g that by (auto simp: less_2_cases_iff)
  fix as :: "cint list" assume "length as = 2" and r: "\<And>i. i < 2 \<Longrightarrow> in_arg t i (as ! i)"
  then obtain a b where "as = [a, b]" by (auto simp: length_Suc_conv numeral_2_eq_2)
  have "in_arg t 0 a" "in_arg t 1 b" using r [of 0] r [of 1] \<open>as = [a, b]\<close> by simp_all
  from eq [OF this] have "f a b = g a b" "g a b \<noteq> None" by metis+
  then show "agree_on t as" using t \<open>as = [a, b]\<close> by (simp add: agree_on_def del: not_None_eq)
qed (use p t(3) in \<open>auto simp: plain_run_def\<close>)

lemma puzzles_pass:
  assumes p: "plain_run opts rv late"
  shows "\<forall>t\<in>set (butlast test_set). test_function opts rv late t = Inr (0, [])"
proof -
  have wide: "gives_args opts (rv name) t i" if "i < 3" "arg_ranges t ! i = (TMin, TMax)" for name t i
    using gives_wide [OF p that(1)] that(2) by simp
  have "negate x = test_negate x" "isZero x = test_isZero x" for x
    by (simp_all add: negate_def test_negate_def isZero_def test_isZero_def c_ops minus_eq_not_plus_1)
  note same = this absVal_eq addOK_eq test_greatestBitPos_eq
  have byte: "getByte x n = Some (test_getByte x n)" if n: "within_range 0 3 n" for x n
  proof -
    obtain k :: nat where "k \<le> 3" "n = of_nat k" using small_arg [OF n, of 3] by auto
    then have "n \<in> {0, 1, 2, 3}" by (auto simp: le_Suc_eq numeral_3_eq_3)
    then show ?thesis by (rule getByte_eq)
  qed
  have mask: "bitMask x y = test_bitMask x y" "\<exists>r. test_bitMask x y = Some r" if xy: "within_range 0 31 x" "within_range 0 31 y" for x y
  proof -
    obtain h where h: "h \<le> 31" "x = of_nat h" by (rule small_arg [OF xy(1), of 31]) simp_all
    obtain l where l: "l \<le> 31" "y = of_nat l" by (rule small_arg [OF xy(2), of 31]) simp_all
    have "h < 32" "l < 32" using h(1) l(1) by simp_all
    then show "bitMask x y = test_bitMask x y" "\<exists>r. test_bitMask x y = Some r"
      unfolding h(2) l(2) by (simp_all only: bitMask_mask test_bitMask_mask) blast
  qed
  show ?thesis
    unfolding test_set_def
    apply (simp only: butlast.simps list.distinct if_False list.set ball_simps simp_thms)
    apply (intro conjI)
    subgoal by (rule passes0 [OF p, of _ "Some (- 1)" "- 1"]) (simp_all add: minusOne_def test_minusOne_def)
    subgoal by (rule passes1 [OF p], (simp add: any_int_def same)+)
    subgoal by (rule passes2 [OF p _ _ _ wide], (simp add: any_int_def in_arg_def byte gives_small [OF p])+)
    subgoal by (rule passes1 [OF p], (simp add: any_int_def same)+)
    subgoal by (rule passes2 [OF p _ _ _ wide wide], (simp add: any_int_def same)+)
    subgoal by (rule passes2 [OF p], (simp add: in_arg_def mask gives_small [OF p])+)
    subgoal by (rule passes1 [OF p], (simp add: same)+)
    subgoal by (rule passes1 [OF p], (simp add: any_int_def same greatestBitPos_eq)+)
    subgoal by simp
    done
qed

definition effective_rating :: "options \<Rightarrow> test_rec \<Rightarrow> cint" where
  "effective_rating opts t = (if global_rating opts \<noteq> 0 then global_rating opts else rating t)"

definition passed_row :: "options \<Rightarrow> test_rec \<Rightarrow> line" where
  "passed_row opts t = Row (sint (effective_rating opts t)) (effective_rating opts t) 0 (tr_name t)"

lemma score_passed:
  "score_one opts t (0, []) sc = sc\<lparr>sc_points := sc_points sc + sint (effective_rating opts t),
     sc_max_points := sc_max_points sc + sint (effective_rating opts t), sc_lines := sc_lines sc @ [passed_row opts t]\<rparr>"
  by (simp add: score_one_def Let_def effective_rating_def passed_row_def word_sless_alt)

lemma run_set_passed:
  assumes "\<forall>t\<in>set ts. test_function opts rv late t = Inr (0, []) \<and> solution_funct t \<noteq> None" "solution_funct e = None"
  shows "run_set opts rv late (ts @ [e]) sc = Inr (sc\<lparr>
     sc_points := sc_points sc + (\<Sum>t\<leftarrow>filter (selected opts) ts. sint (effective_rating opts t)),
     sc_max_points := sc_max_points sc + (\<Sum>t\<leftarrow>filter (selected opts) ts. sint (effective_rating opts t)),
     sc_lines := sc_lines sc @ map (passed_row opts) (filter (selected opts) ts)\<rparr>)"
  using assms(1)
proof (induction ts arbitrary: sc)
  case (Cons t ts)
  obtain f where "solution_funct t = Some f" "test_function opts rv late t = Inr (0, [])" using Cons.prems by auto
  then show ?case
    using Cons.prems Cons.IH [of "score_one opts t (0, []) sc"] Cons.IH [of sc]
    by (cases "selected opts t") (simp_all add: score_passed add.assoc)
qed (simp add: assms(2))

text \<open>
  \<open>random_val\<close> on the number \<open>r\<close> that \<open>rand\<close> returned, in exact arithmetic instead of \<open>double\<close>: a
  weighted mean of the bounds, cut off towards zero, which does not leave the range. So \<open>plain_run\<close>
  holds for the values that the program draws.
\<close>

definition RAND_MAX :: int where "RAND_MAX = 2 ^ 31 - 1"

definition random_val :: "int \<Rightarrow> cint \<Rightarrow> cint \<Rightarrow> cint" where
  "random_val r lo hi =
     (let weight = rat_of_int r / rat_of_int RAND_MAX;
          x = rat_of_int (sint lo) * (1 - weight) + rat_of_int (sint hi) * weight
      in word_of_int (if x < 0 then \<lceil>x\<rceil> else \<lfloor>x\<rfloor>))"

lemma weighted_mean:
  fixes w :: rat
  assumes "0 \<le> w" "w \<le> 1" "a \<le> b"
  shows "a \<le> a * (1 - w) + b * w" "a * (1 - w) + b * w \<le> b"
proof -
  have "a * (1 - w) + b * w = a + (b - a) * w" "a * (1 - w) + b * w = b - (b - a) * (1 - w)" by algebra+
  moreover have "0 \<le> (b - a) * w" "0 \<le> (b - a) * (1 - w)" using assms by simp_all
  ultimately show "a \<le> a * (1 - w) + b * w" "a * (1 - w) + b * w \<le> b" by linarith+
qed

lemma random_val_within:
  assumes "0 \<le> r" "r \<le> RAND_MAX" "sint lo \<le> sint hi"
  shows "within_range lo hi (random_val r lo hi)"
proof -
  define w where "w = rat_of_int r / rat_of_int RAND_MAX"
  define x where "x = rat_of_int (sint lo) * (1 - w) + rat_of_int (sint hi) * w"
  define n where "n = (if x < 0 then \<lceil>x\<rceil> else \<lfloor>x\<rfloor>)"
  have w: "0 \<le> w" "w \<le> 1" using assms(1,2) by (simp_all add: w_def RAND_MAX_def divide_le_eq)
  have le: "rat_of_int (sint lo) \<le> rat_of_int (sint hi)" using assms(3) by (simp only: of_int_le_iff)
  have x: "rat_of_int (sint lo) \<le> x" "x \<le> rat_of_int (sint hi)"
    using weighted_mean [OF w le] unfolding x_def by blast+
  then have n: "sint lo \<le> n" "n \<le> sint hi" unfolding n_def by (auto simp: le_floor_iff ceiling_le_iff floor_le_iff le_ceiling_iff)
  then have "sint (word_of_int n :: cint) = n"
    using sint_cint_bounds [of lo] sint_cint_bounds [of hi] by (intro sint_word_of_int_small) linarith+
  moreover have "random_val r lo hi = word_of_int n" by (simp add: random_val_def Let_def n_def x_def w_def)
  ultimately show ?thesis using n by (simp add: within_range_def)
qed

lemma drawn_run:
  assumes "has_arg opts = [False, False, False]" "\<And>name. \<not> (0 <s timeout_limit opts \<and> late name)"
    and "\<And>name arg k. 0 \<le> rand name arg k \<and> rand name arg k \<le> RAND_MAX"
  shows "plain_run opts (\<lambda>name arg k. random_val (rand name arg k)) late"
  using assms random_val_within unfolding plain_run_def by blast

subsection \<open>Properties\<close>

text \<open>
  C27: Full marks. With no fixed arguments and no alarm, whatever values are drawn between the
  bounds, every selected puzzle of the repository passes all its tests: \<open>run_tests\<close> returns 0
  errors, prints one row for each puzzle with its full rating, and awards all points.
\<close>

theorem run_tests_full_marks:
  assumes "plain_run opts rv late"
  shows "run_tests opts rv late test_set =
    (let ts = filter (selected opts) (butlast test_set);
         points = (\<Sum>t\<leftarrow>ts. sint (effective_rating opts t))
     in Inr (0, map (passed_row opts) ts @ [TotalPoints points points]))"
proof -
  have sol: "\<forall>t\<in>set (butlast test_set). solution_funct t \<noteq> None" "solution_funct (last test_set) = None" "test_set \<noteq> []"
    by (simp_all add: test_set_def)
  then have "test_set = butlast test_set @ [last test_set]" by simp
  then have "run_set opts rv late test_set = run_set opts rv late (butlast test_set @ [last test_set])"
    by simp
  then show ?thesis
    using run_set_passed [of "butlast test_set" opts rv late "last test_set"] puzzles_pass [OF assms] sol
    by (simp add: run_tests_def Let_def)
qed

theorem run_tests_full_marks_witness:
  "\<exists>ls. run_tests btest_defaults (\<lambda>_ arg k. random_val ((1103515245 * int k + int arg) mod RAND_MAX)) (\<lambda>_. False) test_set = Inr (0, ls @ [TotalPoints 20 20])"
proof -
  have "(1103515245 * int k + int arg) mod RAND_MAX \<le> RAND_MAX" for arg k by (intro less_imp_le pos_mod_bound) (simp add: RAND_MAX_def)
  moreover have "0 \<le> (1103515245 * int k + int arg) mod RAND_MAX" for arg k by (intro pos_mod_sign) (simp add: RAND_MAX_def)
  ultimately have "plain_run btest_defaults (\<lambda>_ arg k. random_val ((1103515245 * int k + int arg) mod RAND_MAX)) (\<lambda>_. False)"
    by (intro drawn_run) (simp_all add: btest_defaults_def)
  from run_tests_full_marks [OF this]
  have "run_tests btest_defaults (\<lambda>_ arg k. random_val ((1103515245 * int k + int arg) mod RAND_MAX)) (\<lambda>_. False) test_set =
    Inr (0, map (passed_row btest_defaults) (butlast test_set) @ [TotalPoints 20 20])"
    by (simp add: selected_def btest_defaults_def effective_rating_def Let_def) (simp add: test_set_def)
  then show ?thesis by blast
qed

text \<open>
  C39: The array of test values is one element short. A range with exactly one value more than
  \<open>MAX_TEST_VALS\<close> still passes the test for exhaustive generation, which then writes past the
  end of \<open>test_vals\<close>.
\<close>

theorem gen_vals_overflows:
  assumes "\<not> has_arg opts ! arg" "\<not> (lo = 1 \<and> hi = 1)" "sint hi - sint lo = 6500000"
  shows "gen_vals opts rnd lo hi r arg = Inl OutOfBounds"
proof -
  have "- (2 ^ 31) + 6500000 \<le> sint hi" using assms(3) sint_cint_bounds(1) [of lo] by simp
  then have "hi - MAX_TEST_VALS \<le>s lo" using minus_MAX [of hi] assms(3) by (simp add: word_sle_eq)
  moreover have "exhaust (nat (sint MAX_TEST_VALS)) lo hi = Inl OutOfBounds"
    using assms(3) by (intro exhaust_overflow) (simp add: MAX_TEST_VALS_int)
  ultimately show ?thesis unfolding gen_vals_def using assms(1,2) by (simp only: if_False if_True)
qed

theorem gen_vals_overflows_witness:
  "gen_vals btest_defaults (\<lambda>_ lo hi. lo) 0 6500000 500000 0 = Inl OutOfBounds"
  by (rule gen_vals_overflows) (simp_all add: btest_defaults_def)

end
