(* ===== verification/Spec2Isabelle.thy ===== *)
theory Spec2Isabelle
  imports CPrelude Rounding Decimals Bits BitTests Memlib MmBlocks MmInvariant MmCheck MmImplicit MmExplicit MmOperations Ranges Driver DriverSound Scan Trace Mdriver DriverContract DriverMeasures DriverRuns ImplicitAllocator Threads Histogram ThreadLab Clock Fcyc Fsecs ShowNumbers Btest
begin

section \<open>The CS33 labs: a verification development\<close>

text \<open>
  The repository holds three programming labs of UCLA's CS33. In the data lab (directory
  \<^verbatim>\<open>labs/datalab-handout\<close>) eight puzzles on 32-bit integers, \<^verbatim>\<open>bits.c\<close>, are tested by
  \<^verbatim>\<open>btest.c\<close> against the reference functions of \<^verbatim>\<open>tests.c\<close>; \<^verbatim>\<open>ishow.c\<close> and \<^verbatim>\<open>fshow.c\<close>
  display a word. In the malloc lab (\<^verbatim>\<open>labs/malloclab\<close>) the allocator \<^verbatim>\<open>mm.c\<close> works on the
  simulated memory of \<^verbatim>\<open>memlib.c\<close> and is judged by \<^verbatim>\<open>mdriver.c\<close> on trace files, with the timers
  of \<^verbatim>\<open>clock.c\<close>, \<^verbatim>\<open>ftimer.c\<close>, \<^verbatim>\<open>fsecs.c\<close> and \<^verbatim>\<open>fcyc.c\<close>. In the thread lab
  (\<^verbatim>\<open>labs/threadlab-handout\<close>) five histogram kernels with different synchronisation,
  \<^verbatim>\<open>thread.c\<close>, are run and judged by \<^verbatim>\<open>util.c\<close>. The development translates all three from
  the source and proves what their parts do, the defects included.
\<close>

subsection \<open>Conventions\<close>

text \<open>
  Machine. The code is read as gcc compiles it on x86-64: \<open>int\<close> and \<open>unsigned\<close> are \<open>32 word\<close>
  (\<open>cint\<close> read with \<open>sint\<close>, \<open>uint32\<close> with \<open>uint\<close>), \<open>size_t\<close> is \<open>64 word\<close>, and additions wrap,
  also the signed ones, which the standard leaves undefined. Addresses are \<open>int\<close>; memory is a
  function from addresses to bytes, little endian. Shifts beyond the width are \<open>None\<close>.

  Commands. Code that changes state is a command \<open>('s, 'a) cmd\<close>, a function from a state to an
  error or a result with a new state, composed with \<open>bindE\<close> in the order of the statements.
  The errors (\<open>err\<close>) are a segmentation fault with its address, \<open>exit\<close> with its status, a
  failed assertion, an access outside one of the program's own arrays, another undefined step,
  and running for ever. \<open>keeps R\<close> says that a command only makes steps of the relation \<open>R\<close>;
  the invariants of the components are stated with it.

  Loops. A loop over a list or up to a bound is a structural recursion or a function with a
  termination proof. The five loops that can run for ever are partial functions, with
  \<open>None\<close> for a run without end: the two loops of \<^verbatim>\<open>tests.c\<close> (proved to return), the search of
  the explicit free list (it returns a block exactly if it meets one that is large enough, and
  diverges on a cycle of small ones), clearing the cache in \<^verbatim>\<open>fcyc.c\<close> (returns for a positive
  step, diverges for step 0), and the calibration of the clock, which waits for events of the
  hardware. The \<open>do\<close> loop of \<open>fcyc\<close> has fuel \<open>maxsamples + 1\<close>: every pass adds a sample, and the
  loop ends when there are \<open>maxsamples\<close> of them at the latest, so the fuel is never used up
  (\<open>fcyc_returns\<close>).

  Parameters. What is not in the repository is an argument: libc's \<open>malloc\<close>, \<open>free\<close>, \<open>rand\<close>
  and \<open>strtof\<close>, the file system, the content of fresh memory, hardware counters and clocks,
  the schedule of the threads, the parsed options of \<open>getopt\<close>, arithmetic on \<open>double\<close> (the
  record \<open>fp\<close>: \<open>double_fp\<close> rounds every result to 53 bits, \<open>real_fp\<close> is exact), and the function
  \<open>d\<close> that a stray token in \<open>mm_init\<close> calls (\<^verbatim>\<open>mm.c\<close>, line 121). \<open>d\<close> is declared nowhere and the
  file does not link, so no property assumes anything of it.
\<close>

subsection \<open>The theories\<close>

text \<open>
  \<open>CPrelude\<close>: integers, errors, commands and their rules, shared by all. \<open>Rounding\<close>: rounding of
  floating-point results to 53 bits and of quotients to integers, with error bounds.

  Data lab. \<open>Bits\<close>: the eight functions of \<^verbatim>\<open>bits.c\<close>, operator by operator. \<open>BitTests\<close>: those of
  \<^verbatim>\<open>tests.c\<close>; each solution is proved equal to its reference on the arguments the puzzle allows,
  and both are characterised (bits set, sums in range, highest bit). \<open>Scan\<close>: the conversions of
  \<open>fscanf\<close> and \<open>printf\<close> that the programs use, each read back from what was printed.
  \<open>Decimals\<close>: the texts of \<open>%.10f\<close> and \<open>%.10g\<close> and how far they are from the number.
  \<open>ShowNumbers\<close>: \<^verbatim>\<open>ishow.c\<close>, \<^verbatim>\<open>fshow.c\<close> and the three copies of \<open>get_num_val\<close>; what is printed is
  read back, as the word or as its IEEE value. \<open>Btest\<close>:
  \<^verbatim>\<open>btest.c\<close> with the table of \<^verbatim>\<open>decl.c\<close>, from the generation of the values to \<open>main\<close>; the
  theorems of \<open>BitTests\<close> carry the proof that the solutions get full marks whatever values are
  drawn.

  Malloc lab, memory and allocator. \<open>Memlib\<close>: the arena with its break (record \<open>memlib\<close>, the
  three static pointers and \<open>errno\<close>) and the accesses; words of 4 and 8 bytes share the locale
  \<open>cell\<close>. \<open>MmBlocks\<close>: the macros, the heap checker and the state \<open>mm\<close> (\<open>heap_listp\<close>,
  \<open>heap_basefree\<close>). \<open>MmInvariant\<close>: the abstract heap, a list of blocks (size, allocated), and
  \<open>wf_heap\<close>, which relates it to the tags in memory. \<open>MmCheck\<close>: what \<open>mm_checkheap\<close> certifies.
  \<open>MmImplicit\<close>: \<open>find_fit\<close>, \<open>place\<close> and \<open>coalesce\<close> refine first fit, splitting and merging on the
  block list. \<open>MmExplicit\<close> and \<open>MmOperations\<close>: the allocator itself, with its free list threaded
  through the payloads, and what its operations do. On a 64-bit machine the two pointers of a
  free block overlap and \<open>mm_init\<close> reserves half of the space it uses, so the first \<open>extend_heap\<close> on
  the layout it writes faults at the address \<open>0x1900000000\<close>; the theorems say so exactly, beside those
  on the single routines.

  Malloc lab, driver. \<open>Ranges\<close>: its types, its state (record \<open>driver\<close>: the heap it tests, the
  range list, the trace, errors and reports) and the range list. \<open>Driver\<close>: the \<open>eval_\<close> routines for
  any allocator. \<open>DriverSound\<close>: the locale \<open>allocator\<close> is what the driver needs of an
  allocator, interpreted on \<^verbatim>\<open>mm.c\<close> and on a bump allocator; under it the checks are sound.
  \<open>Trace\<close>: \<open>read_trace\<close> and the format of the files. \<open>Mdriver\<close>: \<open>main\<close>, the composition of these
  with \<open>fsecs\<close>, the tables and the score.

  Malloc lab, the driver on a correct allocator. \<open>DriverContract\<close>: the locale
  \<open>correct_allocator\<close> extends \<open>allocator\<close> by what an allocator promises (payloads that are
  aligned, disjoint, inside the heap and left alone; requests granted while the arena has room for
  their cost), and under it \<open>eval_mm_valid\<close> finds no error. \<open>DriverMeasures\<close>: the requests of a
  trace as a map from ids to sizes, which the arrays of the driver refine, and with it what
  \<open>eval_mm_util\<close> measures. \<open>DriverRuns\<close>: so \<open>main\<close> ends without errors. \<open>ImplicitAllocator\<close>: the
  properties of the driver under the contract, and the interpretation of the contract. The compiled
  \<open>mm_malloc\<close> and \<open>mm_free\<close> do not satisfy it, so the instance is an allocator of this development,
  built on the proved routines of \<open>MmImplicit\<close> after the textbook version that \<^verbatim>\<open>mm.c\<close> keeps in
  comments; it shows that the contract can be met and that the driver then accepts, and nothing is
  claimed of it as code of the repository.

  Malloc lab, timing. \<open>Clock\<close>: the cycle counters, which share the locale \<open>interval_counter\<close>, the
  calibration and the wall-clock timers. \<open>Fcyc\<close>: the K-best sampler; its array of samples is
  shown to hold the smallest readings in order; whether \<open>malloc\<close> and \<open>calloc\<close> grant memory is a
  parameter. \<open>Fsecs\<close>: the timing package in its three
  configurations.

  Thread lab. \<open>Threads\<close>: a kernel is the list of shared-memory instructions each thread executes,
  run under every interleaving by the step relation. \<open>Histogram\<close>: the locale \<open>kernel\<close>
  (the finished histogram is right, no reachable state is stuck or has a data race) follows from each of three
  disciplines, and the five kernels are interpretations of these. \<open>ThreadLab\<close>: \<open>run_threads\<close>,
  \<open>check_info\<close> and \<open>main\<close> on top of it.
\<close>

subsection \<open>The properties\<close>

text \<open>
  A property is a theorem after a text with its number; one with hypotheses is followed by an
  instance on concrete data. They concern the routines of the implicit list and the heap checker
  (refinement of the block list, exactness of the checker), the driver's checks and its \<open>main\<close>
  (soundness of the range list, that allocators under the contract are accepted and what their
  utilization is, the agreement of errors, reports and score), the puzzles (equivalence with the
  references, full marks from btest), the operations of the compiled allocator (sizes, search, error
  paths, faults), the threads (the histogram under every schedule, freedom from deadlock and from data
  races, the verdict of the harness), the timers (rounded intervals, smallest reading, termination,
  failed allocation), and the readers and printers (round trips, what bad input does).
\<close>

subsection \<open>Not modelled\<close>

text \<open>
  Constant progress lines, and the lines printed before an \<open>exit\<close> (the result of a command
  is then the error alone). The signal handling of \<^verbatim>\<open>btest.c\<close> (\<open>Signal\<close>, \<open>timeout_handler\<close>,
  \<open>siglongjmp\<close>): the alarm is a parameter that says for which puzzle it goes off. \<open>usage\<close> of
  \<^verbatim>\<open>btest.c\<close> and \<^verbatim>\<open>mdriver.c\<close> only prints, and \<open>free_trace\<close> changes nothing the model keeps. The rendering of the driver's tables by
  \<open>printf\<close> (a row is a constructor with its numbers), and the rounding in \<open>random_val\<close>, whose result is
  exact. The rules for the puzzles at the head of \<^verbatim>\<open>bits.c\<close>, which \<open>dlc\<close> checks. Weak memory: the
  threads are sequentially consistent, as C guarantees for programs without data races. The scripts in Perl and the
  programs \<open>dlc\<close> and \<open>driver.pl\<close> that surround the labs, the trace files themselves, the
  course notes and the compiled files are data or other languages.
\<close>

end
